theory Spec2Isabelle
  imports Main "HOL-Library.Monad_Syntax"
begin

section \<open>Consistent-hash placement engine over a skiplist ring\<close>

text \<open>
  The development embeds the Go package \<^verbatim>\<open>consistent_hash\<close>: the process-local
  skiplist ring of \<^verbatim>\<open>local/hash_ring.go\<close>, its self-expiring lock, and the
  placement engine (\<^verbatim>\<open>consistent_hash.go\<close>, \<^verbatim>\<open>migrator.go\<close>).

  Conventions. A Go \<^verbatim>\<open>error\<close> is its message, a \<open>string\<close>. A function that
  may panic, or whose loop may fail to end on an ill-formed heap, returns an
  \<open>option\<close>: \<open>None\<close> stands for "no normal return". An \<^verbatim>\<open>int32\<close> is an
  \<open>int\<close>, and every \<^verbatim>\<open>int32\<close> addition or subtraction of the source is wrapped
  by \<open>wrap32\<close>.
\<close>

subsection \<open>Errors, integers and strings\<close>

type_synonym error = string

definition MaxInt32 :: int where
  "MaxInt32 = 2147483647"

definition wrap32 :: "int \<Rightarrow> int" where
  "wrap32 x = (x + 2147483648) mod 4294967296 - 2147483648"

text \<open>\<^verbatim>\<open>fmt.Sprintf("%d", n)\<close>: the decimal digits, with a sign for negatives.\<close>

definition digit_char :: "nat \<Rightarrow> char" where
  "digit_char d = ''0123456789'' ! d"

function digits :: "nat \<Rightarrow> string" where
  "digits n = (if n < 10 then [digit_char n] else digits (n div 10) @ [digit_char (n mod 10)])"
  by pat_completeness auto
termination
  by (relation "measure id") auto

declare digits.simps [simp del]

definition itoa :: "int \<Rightarrow> string" where
  "itoa i = (if i < 0 then CHR ''-'' # digits (nat (- i)) else digits (nat i))"

text \<open>\<^verbatim>\<open>strings.LastIndex(s, "_")\<close> for a one-byte separator: \<open>-1\<close> when absent.\<close>

primrec last_index_from :: "char \<Rightarrow> string \<Rightarrow> int \<Rightarrow> int \<Rightarrow> int" where
  "last_index_from c [] i acc = acc"
| "last_index_from c (x # xs) i acc = last_index_from c xs (i + 1) (if x = c then i else acc)"

definition LastIndex :: "string \<Rightarrow> char \<Rightarrow> int" where
  "LastIndex s c = last_index_from c s 0 (- 1)"

subsection \<open>The self-expiring lock of the skiplist ring\<close>

text \<open>
  \<^verbatim>\<open>LockEntity\<close>: \<open>lock\<close> is whether the primary mutex is held, \<open>owner\<close> the
  stored token (the empty string before the first store), \<open>timer\<close> the token
  of the expiry goroutine that is armed and not cancelled. The guard mutex
  \<^verbatim>\<open>doubleLock\<close> makes each of the operations below one atomic step. A call
  that blocks on the primary mutex does not return: \<open>None\<close>.
\<close>

record LockEntity =
  lock :: bool
  owner :: string
  timer :: "string option"

definition NewLockEntity :: LockEntity where
  "NewLockEntity = \<lparr>lock = False, owner = [], timer = None\<rparr>"

text \<open>\<^verbatim>\<open>GetCurrentProcessAndGogroutineIDStr\<close>: \<^verbatim>\<open>Sprintf("%d_%s", pid, goroutineID)\<close>.\<close>

definition GetCurrentProcessAndGogroutineIDStr :: "int \<Rightarrow> string \<Rightarrow> string" where
  "GetCurrentProcessAndGogroutineIDStr pid goroutineID = itoa pid @ ''_'' @ goroutineID"

definition Lock :: "string \<Rightarrow> int \<Rightarrow> LockEntity \<Rightarrow> (error option \<times> LockEntity) option" where
  "Lock token expireSeconds l =
     (if lock l then None
      else let l1 = l\<lparr>lock := True, owner := token\<rparr>
           in if expireSeconds \<le> 0 then Some (None, l1)
              else Some (None, l1\<lparr>timer := Some token\<rparr>))"

text \<open>
  \<^verbatim>\<open>unlock(ctx, token)\<close>. Releasing a mutex that is not held is a fatal
  runtime error in Go: \<open>None\<close>.
\<close>

definition unlock :: "string \<Rightarrow> LockEntity \<Rightarrow> (error option \<times> LockEntity) option" where
  "unlock token l =
     (if owner l \<noteq> token then Some (Some ''not your lock'', l)
      else if \<not> lock l then None
      else Some (None, l\<lparr>owner := [], timer := None, lock := False\<rparr>))"

definition Unlock :: "string \<Rightarrow> LockEntity \<Rightarrow> (error option \<times> LockEntity) option" where
  "Unlock token l = unlock token l"

text \<open>The expiry goroutine firing: it calls \<^verbatim>\<open>unlock\<close> with the token it was armed with.\<close>

definition expire :: "LockEntity \<Rightarrow> (error option \<times> LockEntity) option" where
  "expire l = (case timer l of None \<Rightarrow> Some (None, l) | Some token \<Rightarrow> unlock token (l\<lparr>timer := None\<rparr>))"

subsection \<open>The skiplist ring: data\<close>

text \<open>
  The nodes of the skiplist live in a heap, a list indexed by address. A pointer
  \<^verbatim>\<open>*virtualNode\<close> is an address, \<^verbatim>\<open>nil\<close> is \<open>None\<close>. The root sentinel
  is allocated first, at address \<open>0\<close>; \<^verbatim>\<open>&newNode\<close> allocates at the end of the
  heap. Nodes that were unlinked stay in the heap as garbage.
\<close>

record virtualNode =
  score :: int
  nodeIDs :: "string list"
  nexts :: "nat option list"

record SkiplistHashRing =
  heap :: "virtualNode list"
  nodeToReplicas :: "string \<rightharpoonup> int"
  nodeToDataKey :: "string \<rightharpoonup> string set"

abbreviation root :: nat where
  "root \<equiv> 0"

definition NewSkiplistHashRing :: SkiplistHashRing where
  "NewSkiplistHashRing =
     \<lparr>heap = [\<lparr>score = 0, nodeIDs = [], nexts = []\<rparr>],
      nodeToReplicas = Map.empty, nodeToDataKey = Map.empty\<rparr>"

text \<open>Dereferencing: \<open>None\<close> for an address outside the heap.\<close>

definition node_at :: "virtualNode list \<Rightarrow> nat \<Rightarrow> virtualNode option" where
  "node_at h a = (if a < length h then Some (h ! a) else None)"

text \<open>\<^verbatim>\<open>move.nexts[level]\<close>: an index out of range panics (\<open>None\<close>).\<close>

definition next_at :: "virtualNode list \<Rightarrow> nat \<Rightarrow> nat \<Rightarrow> nat option option" where
  "next_at h a level =
     (if a < length h \<and> level < length (nexts (h ! a)) then Some (nexts (h ! a) ! level) else None)"

text \<open>\<^verbatim>\<open>a.nexts[level] = v\<close>.\<close>

definition set_next :: "virtualNode list \<Rightarrow> nat \<Rightarrow> nat \<Rightarrow> nat option \<Rightarrow> virtualNode list option" where
  "set_next h a level v =
     (if a < length h \<and> level < length (nexts (h ! a))
      then Some (h[a := (h ! a)\<lparr>nexts := (nexts (h ! a))[level := v]\<rparr>])
      else None)"

subsection \<open>The skiplist ring: traversal\<close>

text \<open>
  The inner loop shared by \<^verbatim>\<open>get\<close>, \<^verbatim>\<open>ceiling\<close>, \<^verbatim>\<open>floor\<close>, \<^verbatim>\<open>Add\<close> and
  \<^verbatim>\<open>Rem\<close>:
  \<^verbatim>\<open>for move.nexts[level] != nil && move.nexts[level].score < score { move = move.nexts[level] }\<close>
\<close>

partial_function (option) seek :: "virtualNode list \<Rightarrow> nat \<Rightarrow> int \<Rightarrow> nat \<Rightarrow> nat option" where
  "seek h level sc move =
     (case next_at h move level of
        None \<Rightarrow> None
      | Some None \<Rightarrow> Some move
      | Some (Some n) \<Rightarrow>
          (case node_at h n of
             None \<Rightarrow> None
           | Some nn \<Rightarrow> if score nn < sc then seek h level sc n else Some move))"

declare seek.simps [code]

text \<open>The inner loop of \<^verbatim>\<open>last\<close>: \<^verbatim>\<open>for move.nexts[level] != nil { move = move.nexts[level] }\<close>\<close>

partial_function (option) seek_end :: "virtualNode list \<Rightarrow> nat \<Rightarrow> nat \<Rightarrow> nat option" where
  "seek_end h level move =
     (case next_at h move level of
        None \<Rightarrow> None
      | Some None \<Rightarrow> Some move
      | Some (Some n) \<Rightarrow> seek_end h level n)"

declare seek_end.simps [code]

text \<open>
  The outer loops run \<^verbatim>\<open>level\<close> from a start level down to \<open>0\<close>; the models
  recurse on the number of levels left, so that the level in hand is the
  argument of \<open>Suc\<close>.
\<close>

primrec get_from :: "virtualNode list \<Rightarrow> int \<Rightarrow> nat \<Rightarrow> nat \<Rightarrow> nat option option" where
  "get_from h sc 0 move = Some None"
| "get_from h sc (Suc level) move =
     do {
       m \<leftarrow> seek h level sc move;
       nx \<leftarrow> next_at h m level;
       case nx of
         None \<Rightarrow> get_from h sc level m
       | Some t \<Rightarrow>
           do {
             tn \<leftarrow> node_at h t;
             if score tn = sc then Some (Some t) else get_from h sc level m
           }
     }"

definition get :: "virtualNode list \<Rightarrow> int \<Rightarrow> nat option option" where
  "get h sc = do { r \<leftarrow> node_at h root; get_from h sc (length (nexts r)) root }"

primrec descend :: "virtualNode list \<Rightarrow> int \<Rightarrow> nat \<Rightarrow> nat \<Rightarrow> nat option" where
  "descend h sc 0 move = Some move"
| "descend h sc (Suc level) move = do { m \<leftarrow> seek h level sc move; descend h sc level m }"

primrec descend_end :: "virtualNode list \<Rightarrow> nat \<Rightarrow> nat \<Rightarrow> nat option" where
  "descend_end h 0 move = Some move"
| "descend_end h (Suc level) move = do { m \<leftarrow> seek_end h level move; descend_end h level m }"

definition ceiling :: "virtualNode list \<Rightarrow> int \<Rightarrow> (int \<times> bool) option" where
  "ceiling h sc =
     do {
       r \<leftarrow> node_at h root;
       if length (nexts r) = 0 then Some (- 1, False)
       else do {
         move \<leftarrow> descend h sc (length (nexts r)) root;
         nx \<leftarrow> next_at h move 0;
         case nx of
           None \<Rightarrow> Some (- 1, False)
         | Some t \<Rightarrow> do { tn \<leftarrow> node_at h t; Some (score tn, True) }
       }
     }"

definition first :: "virtualNode list \<Rightarrow> (int \<times> bool) option" where
  "first h =
     do {
       r \<leftarrow> node_at h root;
       if length (nexts r) = 0 then Some (- 1, False)
       else do {
         nx \<leftarrow> next_at h root 0;
         case nx of
           None \<Rightarrow> None
         | Some t \<Rightarrow> do { tn \<leftarrow> node_at h t; Some (score tn, True) }
       }
     }"

definition floor :: "virtualNode list \<Rightarrow> int \<Rightarrow> (int \<times> bool) option" where
  "floor h sc =
     do {
       r \<leftarrow> node_at h root;
       if length (nexts r) = 0 then Some (- 1, False)
       else do {
         move \<leftarrow> descend h sc (length (nexts r)) root;
         nx \<leftarrow> next_at h move 0;
         mn \<leftarrow> node_at h move;
         case nx of
           None \<Rightarrow> if move = root then Some (- 1, False) else Some (score mn, True)
         | Some t \<Rightarrow>
             do {
               tn \<leftarrow> node_at h t;
               if score tn = sc then Some (sc, True)
               else if move = root then Some (- 1, False)
               else Some (score mn, True)
             }
       }
     }"

definition last_slot :: "virtualNode list \<Rightarrow> (int \<times> bool) option" where
  "last_slot h =
     do {
       r \<leftarrow> node_at h root;
       move \<leftarrow> descend_end h (length (nexts r)) root;
       mn \<leftarrow> node_at h move;
       if move = root then Some (- 1, False) else Some (score mn, True)
     }"

text \<open>
  The interface methods. Their Go \<^verbatim>\<open>error\<close> result is always \<^verbatim>\<open>nil\<close>, so
  only the score is returned.
\<close>

definition Ceiling :: "SkiplistHashRing \<Rightarrow> int \<Rightarrow> int option" where
  "Ceiling s sc =
     do {
       (target, ok) \<leftarrow> ceiling (heap s) sc;
       if ok then Some target
       else do { (fst_score, _) \<leftarrow> first (heap s); Some fst_score }
     }"

definition Floor :: "SkiplistHashRing \<Rightarrow> int \<Rightarrow> int option" where
  "Floor s sc =
     do {
       (target, ok) \<leftarrow> floor (heap s) sc;
       if ok then Some target
       else do { (last_score, _) \<leftarrow> last_slot (heap s); Some last_score }
     }"

definition Node :: "SkiplistHashRing \<Rightarrow> int \<Rightarrow> (error + string list) option" where
  "Node s sc =
     do {
       r \<leftarrow> get (heap s) sc;
       case r of
         None \<Rightarrow> Some (Inl (''score: '' @ itoa sc @ '' not exist''))
       | Some t \<Rightarrow> do { tn \<leftarrow> node_at (heap s) t; Some (Inr (nodeIDs tn)) }
     }"

subsection \<open>The skiplist ring: mutation\<close>

text \<open>
  The level drawn by \<^verbatim>\<open>roll\<close> is an argument of \<open>Add\<close>. The insertion loop
  of \<^verbatim>\<open>Add\<close> runs from \<^verbatim>\<open>rLevel\<close> down to \<open>0\<close>:
  \<^verbatim>\<open>newNode.nexts[level] = move.nexts[level]; move.nexts[level] = &newNode\<close>
\<close>

primrec insert_levels ::
  "virtualNode list \<Rightarrow> nat \<Rightarrow> int \<Rightarrow> nat \<Rightarrow> nat \<Rightarrow> virtualNode list option" where
  "insert_levels h new sc 0 move = Some h"
| "insert_levels h new sc (Suc level) move =
     do {
       m \<leftarrow> seek h level sc move;
       nx \<leftarrow> next_at h m level;
       h1 \<leftarrow> set_next h new level nx;
       h2 \<leftarrow> set_next h1 m level (Some new);
       insert_levels h2 new sc level m
     }"

definition Add :: "nat \<Rightarrow> int \<Rightarrow> string \<Rightarrow> SkiplistHashRing \<Rightarrow> (error option \<times> SkiplistHashRing) option" where
  "Add rLevel sc nodeID s =
     do {
       r \<leftarrow> get (heap s) sc;
       case r of
         Some t \<Rightarrow>
           do {
             targetNode \<leftarrow> node_at (heap s) t;
             if nodeID \<in> set (nodeIDs targetNode) then Some (None, s)
             else Some (None,
               s\<lparr>heap := (heap s)[t := targetNode\<lparr>nodeIDs := nodeIDs targetNode @ [nodeID]\<rparr>]\<rparr>)
           }
       | None \<Rightarrow>
           do {
             rt \<leftarrow> node_at (heap s) root;
             let h1 = (if length (nexts rt) < rLevel + 1
                       then (heap s)[root := rt\<lparr>nexts := nexts rt @
                               replicate (rLevel + 1 - length (nexts rt)) None\<rparr>]
                       else heap s);
             let new = length h1;
             let h2 = h1 @ [\<lparr>score = sc, nodeIDs = [nodeID], nexts = replicate (rLevel + 1) None\<rparr>];
             h3 \<leftarrow> insert_levels h2 new sc (rLevel + 1) root;
             Some (None, s\<lparr>heap := h3\<rparr>)
           }
     }"

text \<open>The index search of \<^verbatim>\<open>Rem\<close>: the first position holding the key.\<close>

primrec index_of :: "string \<Rightarrow> string list \<Rightarrow> nat option" where
  "index_of x [] = None"
| "index_of x (y # ys) = (if y = x then Some 0 else map_option Suc (index_of x ys))"

text \<open>
  The unlinking loop of \<^verbatim>\<open>Rem\<close>, from the top level of the root down to \<open>0\<close>:
  \<^verbatim>\<open>if move.nexts[level] == nil || move.nexts[level].score > score { continue }\<close>
  \<^verbatim>\<open>move.nexts[level] = move.nexts[level].nexts[level]\<close>
\<close>

primrec unlink_levels :: "virtualNode list \<Rightarrow> int \<Rightarrow> nat \<Rightarrow> nat \<Rightarrow> virtualNode list option" where
  "unlink_levels h sc 0 move = Some h"
| "unlink_levels h sc (Suc level) move =
     do {
       m \<leftarrow> seek h level sc move;
       nx \<leftarrow> next_at h m level;
       case nx of
         None \<Rightarrow> unlink_levels h sc level m
       | Some t \<Rightarrow>
           do {
             tn \<leftarrow> node_at h t;
             if score tn > sc then unlink_levels h sc level m
             else do {
               tnx \<leftarrow> next_at h t level;
               h1 \<leftarrow> set_next h m level tnx;
               unlink_levels h1 sc level m
             }
           }
     }"

text \<open>
  The final loop of \<^verbatim>\<open>Rem\<close> cuts the root's \<^verbatim>\<open>nexts\<close> at the first level
  that holds \<^verbatim>\<open>nil\<close>.
\<close>

definition trim_root :: "virtualNode list \<Rightarrow> virtualNode list option" where
  "trim_root h =
     do {
       rt \<leftarrow> node_at h root;
       Some (h[root := rt\<lparr>nexts := takeWhile (\<lambda>p. p \<noteq> None) (nexts rt)\<rparr>])
     }"

definition Rem :: "int \<Rightarrow> string \<Rightarrow> SkiplistHashRing \<Rightarrow> (error option \<times> SkiplistHashRing) option" where
  "Rem sc nodeID s =
     do {
       r \<leftarrow> get (heap s) sc;
       case r of
         None \<Rightarrow> Some (Some (''score: '' @ itoa sc @ '' not exist''), s)
       | Some t \<Rightarrow>
           do {
             targetNode \<leftarrow> node_at (heap s) t;
             case index_of nodeID (nodeIDs targetNode) of
               None \<Rightarrow> Some (Some (''node: '' @ nodeID @ '' not exist in score: '' @ itoa sc), s)
             | Some index \<Rightarrow>
                 let s1 = s\<lparr>nodeToDataKey := (nodeToDataKey s)(nodeID := None)\<rparr> in
                 if length (nodeIDs targetNode) > 1
                 then Some (None,
                   s1\<lparr>heap := (heap s)[t := targetNode\<lparr>nodeIDs :=
                         take index (nodeIDs targetNode) @ drop (index + 1) (nodeIDs targetNode)\<rparr>]\<rparr>)
                 else do {
                   rt \<leftarrow> node_at (heap s) root;
                   h1 \<leftarrow> unlink_levels (heap s) sc (length (nexts rt)) root;
                   h2 \<leftarrow> trim_root h1;
                   Some (None, s1\<lparr>heap := h2\<rparr>)
                 }
           }
     }"

subsection \<open>The skiplist ring: the two auxiliary maps\<close>

definition Nodes :: "SkiplistHashRing \<Rightarrow> (string \<rightharpoonup> int)" where
  "Nodes s = nodeToReplicas s"

definition AddNodeToReplica :: "SkiplistHashRing \<Rightarrow> string \<Rightarrow> int \<Rightarrow> SkiplistHashRing" where
  "AddNodeToReplica s nodeID replicas = s\<lparr>nodeToReplicas := (nodeToReplicas s)(nodeID \<mapsto> replicas)\<rparr>"

definition DeleteNodeToReplica :: "SkiplistHashRing \<Rightarrow> string \<Rightarrow> SkiplistHashRing" where
  "DeleteNodeToReplica s nodeID = s\<lparr>nodeToReplicas := (nodeToReplicas s)(nodeID := None)\<rparr>"

text \<open>
  \<^verbatim>\<open>DataKeys\<close> returns the stored map, \<^verbatim>\<open>nil\<close> for an absent node; the callers
  only take its length and range over it, so \<^verbatim>\<open>nil\<close> reads as the empty set.
\<close>

definition DataKeys :: "SkiplistHashRing \<Rightarrow> string \<Rightarrow> string set" where
  "DataKeys s nodeID = (case nodeToDataKey s nodeID of None \<Rightarrow> {} | Some ks \<Rightarrow> ks)"

definition AddNodeToDataKeys :: "SkiplistHashRing \<Rightarrow> string \<Rightarrow> string set \<Rightarrow> SkiplistHashRing" where
  "AddNodeToDataKeys s nodeID dataKeys =
     (let oldDataKeys = (case nodeToDataKey s nodeID of None \<Rightarrow> {} | Some ks \<Rightarrow> ks)
      in s\<lparr>nodeToDataKey := (nodeToDataKey s)(nodeID \<mapsto> oldDataKeys \<union> dataKeys)\<rparr>)"

definition DeleteNodeToDataKeys :: "SkiplistHashRing \<Rightarrow> string \<Rightarrow> string set \<Rightarrow> SkiplistHashRing" where
  "DeleteNodeToDataKeys s nodeID dataKeys =
     (case nodeToDataKey s nodeID of
        None \<Rightarrow> s
      | Some oldDataKeys \<Rightarrow>
          if oldDataKeys - dataKeys = {}
          then s\<lparr>nodeToDataKey := (nodeToDataKey s)(nodeID := None)\<rparr>
          else s\<lparr>nodeToDataKey := (nodeToDataKey s)(nodeID \<mapsto> oldDataKeys - dataKeys)\<rparr>)"

subsection \<open>The placement engine\<close>

record ConsistentHashOptions =
  lockExpireSeconds :: int
  replicas :: int

definition repair :: "ConsistentHashOptions \<Rightarrow> ConsistentHashOptions" where
  "repair opts =
     (let o1 = (if lockExpireSeconds opts \<le> 0 then opts\<lparr>lockExpireSeconds := 15\<rparr> else opts)
      in if replicas o1 \<le> 0 then o1\<lparr>replicas := 5\<rparr> else o1)"

text \<open>
  The engine: \<open>encryptor\<close> is the hasher, \<open>migrator\<close> tells whether a migrator
  callback was given (\<open>False\<close> for \<^verbatim>\<open>nil\<close>). The ring is passed to each
  operation and returned as the operation leaves it.
\<close>

record ConsistentHash =
  encryptor :: "string \<Rightarrow> int"
  migrator :: bool
  opts :: ConsistentHashOptions

definition NewConsistentHash :: "(string \<Rightarrow> int) \<Rightarrow> bool \<Rightarrow> ConsistentHashOptions \<Rightarrow> ConsistentHash" where
  "NewConsistentHash enc mig given = \<lparr>encryptor = enc, migrator = mig, opts = repair given\<rparr>"

definition getValidWeight :: "int \<Rightarrow> int" where
  "getValidWeight weight = (if weight \<le> 0 then 1 else if weight \<ge> 10 then 10 else weight)"

definition getRawNodeKey :: "string \<Rightarrow> int \<Rightarrow> string" where
  "getRawNodeKey nodeID index = nodeID @ ''_'' @ itoa index"

text \<open>
  \<^verbatim>\<open>rawNodeKey[:strings.LastIndex(rawNodeKey, "_")]\<close>: slicing up to \<open>-1\<close>
  panics.
\<close>

definition getNodeID :: "string \<Rightarrow> string option" where
  "getNodeID rawNodeKey =
     (let index = LastIndex rawNodeKey CHR ''_''
      in if index < 0 then None else Some (take (nat index) rawNodeKey))"

definition incrScore :: "int \<Rightarrow> int" where
  "incrScore sc = (if sc = MaxInt32 - 1 then 0 else wrap32 (sc + 1))"

definition decrScore :: "int \<Rightarrow> int" where
  "decrScore sc = (if sc = 0 then MaxInt32 - 1 else wrap32 (sc - 1))"

text \<open>A migration: source node, destination node, data keys.\<close>

type_synonym migration = "string \<times> string \<times> string set"

text \<open>
  The test of the data loops of \<^verbatim>\<open>migrateIn\<close> and \<^verbatim>\<open>migrateOut\<close>: whether a
  data key lies in the arc \<open>(lastScore, virtualScore]\<close>, both ends already
  shifted by the caller.
\<close>

definition in_arc :: "bool \<Rightarrow> bool \<Rightarrow> int \<Rightarrow> int \<Rightarrow> int \<Rightarrow> bool" where
  "in_arc patternOne patternTwo lastScore virtualScore dataScore =
     (let d1 = (if patternOne \<and> dataScore > wrap32 (lastScore + MaxInt32)
                then wrap32 (dataScore - MaxInt32) else dataScore);
          d2 = (if patternTwo then wrap32 (d1 - MaxInt32) else d1)
      in \<not> (d2 \<le> lastScore \<or> d2 > virtualScore))"

definition migrateIn ::
  "ConsistentHash \<Rightarrow> int \<Rightarrow> string \<Rightarrow> SkiplistHashRing \<Rightarrow> ((error + migration) \<times> SkiplistHashRing) option" where
  "migrateIn c virtualScore nodeID s =
     (if \<not> migrator c then Some (Inr ([], [], {}), s)
      else do {
        ns \<leftarrow> Node s virtualScore;
        case ns of
          Inl err \<Rightarrow> Some (Inl err, s)
        | Inr nodes \<Rightarrow>
            if length nodes > 1 then Some (Inr ([], [], {}), s)
            else do {
              lastScore \<leftarrow> Floor s (decrScore virtualScore);
              if lastScore = - 1 \<or> lastScore = virtualScore then Some (Inr ([], [], {}), s)
              else do {
                nextScore \<leftarrow> Ceiling s (incrScore virtualScore);
                if nextScore = - 1 \<or> nextScore = virtualScore then Some (Inr ([], [], {}), s)
                else do {
                  let patternOne = (lastScore > virtualScore);
                  let patternTwo = (nextScore < virtualScore);
                  let lastScore1 = (if patternOne then wrap32 (lastScore - MaxInt32) else lastScore);
                  let virtualScore2 = (if patternTwo then wrap32 (virtualScore - MaxInt32) else virtualScore);
                  let lastScore2 = (if patternTwo then wrap32 (lastScore1 - MaxInt32) else lastScore1);
                  nn \<leftarrow> Node s nextScore;
                  case nn of
                    Inl err \<Rightarrow> Some (Inl err, s)
                  | Inr nextNodes \<Rightarrow>
                      if length nextNodes = 0 then Some (Inr ([], [], {}), s)
                      else do {
                        nextID \<leftarrow> getNodeID (nextNodes ! 0);
                        let dataKeys = DataKeys s nextID;
                        let datas = {dataKey \<in> dataKeys.
                          in_arc patternOne patternTwo lastScore2 virtualScore2 (encryptor c dataKey)};
                        let s1 = DeleteNodeToDataKeys s nextID datas;
                        let s2 = AddNodeToDataKeys s1 nodeID datas;
                        Some (Inr (nextID, nodeID, datas), s2)
                      }
                }
              }
            }
      })"

text \<open>
  \<^verbatim>\<open>getValidNextNode\<close> recurses around the ring; \<open>ranged\<close> is the set of scores
  it started from.
\<close>

partial_function (option) getValidNextNode ::
  "SkiplistHashRing \<Rightarrow> int \<Rightarrow> string \<Rightarrow> int set \<Rightarrow> (error + string) option" where
  "getValidNextNode s sc nodeID ranged =
     do {
       nextScore \<leftarrow> Ceiling s (incrScore sc);
       if nextScore = - 1 then Some (Inr [])
       else if nextScore \<in> ranged then Some (Inr [])
       else do {
         nn \<leftarrow> Node s nextScore;
         case nn of
           Inl err \<Rightarrow> Some (Inl err)
         | Inr nextNodes \<Rightarrow>
             if length nextNodes = 0 then Some (Inl ''next node empty'')
             else do {
               nextNode \<leftarrow> getNodeID (nextNodes ! 0);
               if nextNode \<noteq> nodeID then Some (Inr nextNode)
               else if length nextNodes > 1
               then do { second \<leftarrow> getNodeID (nextNodes ! 1); Some (Inr second) }
               else getValidNextNode s nextScore nodeID (insert sc ranged)
             }
       }
     }"

declare getValidNextNode.simps [code]

text \<open>
  The deferred function of \<^verbatim>\<open>migrateOut\<close>, applied to the values the body
  returns with.
\<close>

definition migrateOut_deferred ::
  "string \<Rightarrow> SkiplistHashRing \<Rightarrow> error option \<Rightarrow> migration \<Rightarrow> ((error + migration) \<times> SkiplistHashRing) option" where
  "migrateOut_deferred nodeID s err m =
     (case err of
        Some e \<Rightarrow> Some (Inl e, s)
      | None \<Rightarrow>
          (case m of (from_node, to, datas) \<Rightarrow>
             if to = [] \<or> datas = {} then Some (Inr m, s)
             else let s1 = DeleteNodeToDataKeys s nodeID datas;
                      s2 = AddNodeToDataKeys s1 to datas
                  in Some (Inr m, s2)))"

definition migrateOut ::
  "ConsistentHash \<Rightarrow> int \<Rightarrow> string \<Rightarrow> SkiplistHashRing \<Rightarrow> ((error + migration) \<times> SkiplistHashRing) option" where
  "migrateOut c virtualScore nodeID s =
     (if \<not> migrator c then Some (Inr ([], [], {}), s)
      else do {
        ns \<leftarrow> Node s virtualScore;
        case ns of
          Inl err \<Rightarrow> migrateOut_deferred nodeID s (Some err) (nodeID, [], {})
        | Inr nodes \<Rightarrow>
            if length nodes = 0 then migrateOut_deferred nodeID s None (nodeID, [], {})
            else do {
              firstID \<leftarrow> getNodeID (nodes ! 0);
              if firstID \<noteq> nodeID then migrateOut_deferred nodeID s None (nodeID, [], {})
              else do {
                let allDatas = DataKeys s nodeID;
                if allDatas = {} then migrateOut_deferred nodeID s None (nodeID, [], {})
                else do {
                  lastScore \<leftarrow> Floor s (decrScore virtualScore);
                  let sole = (lastScore = - 1 \<or> lastScore = virtualScore);
                  if sole \<and> length nodes = 1
                  then migrateOut_deferred nodeID s (Some ''no other no'') (nodeID, [], {})
                  else do {
                    let onlyScore = sole;
                    let pattern = (lastScore > virtualScore);
                    let lastScore1 = (if pattern then wrap32 (lastScore - MaxInt32) else lastScore);
                    let datas = {data \<in> allDatas.
                      onlyScore \<or> in_arc pattern False lastScore1 virtualScore (encryptor c data)};
                    if length nodes > 1
                    then do {
                      to \<leftarrow> getNodeID (nodes ! 1);
                      migrateOut_deferred nodeID s None (nodeID, to, datas)
                    }
                    else do {
                      r \<leftarrow> getValidNextNode s virtualScore nodeID {};
                      case r of
                        Inl e \<Rightarrow> migrateOut_deferred nodeID s None (nodeID, [], datas)
                      | Inr to \<Rightarrow>
                          if to = []
                          then migrateOut_deferred nodeID s (Some ''no other node'') (nodeID, to, datas)
                          else migrateOut_deferred nodeID s None (nodeID, to, datas)
                    }
                  }
                }
              }
            }
      })"

text \<open>
  \<^verbatim>\<open>AddNode\<close>. \<open>lv i\<close> is the level \<^verbatim>\<open>roll\<close> draws in iteration \<open>i\<close>. The
  loop \<^verbatim>\<open>for i := 0; i < replicas; i++\<close> recurses on the number of iterations
  left. The result on success is the list of migrations handed to the migrator.
\<close>

primrec AddNode_loop ::
  "ConsistentHash \<Rightarrow> (nat \<Rightarrow> nat) \<Rightarrow> string \<Rightarrow> nat \<Rightarrow> nat \<Rightarrow> migration list \<Rightarrow> SkiplistHashRing
     \<Rightarrow> ((error + migration list) \<times> SkiplistHashRing) option" where
  "AddNode_loop c lv nodeID 0 i tasks s = Some (Inr tasks, s)"
| "AddNode_loop c lv nodeID (Suc n) i tasks s =
     do {
       let nodeKey = getRawNodeKey nodeID (int i);
       let virtualScore = encryptor c nodeKey;
       (e, s1) \<leftarrow> Add (lv i) virtualScore nodeKey s;
       case e of
         Some err \<Rightarrow> Some (Inl err, s1)
       | None \<Rightarrow>
           do {
             (r, s2) \<leftarrow> migrateIn c virtualScore nodeID s1;
             case r of
               Inl err \<Rightarrow> Some (Inl err, s2)
             | Inr (from_node, to, datas) \<Rightarrow>
                 AddNode_loop c lv nodeID n (i + 1)
                   (if datas = {} then tasks else tasks @ [(from_node, to, datas)]) s2
           }
     }"

definition AddNode ::
  "ConsistentHash \<Rightarrow> (nat \<Rightarrow> nat) \<Rightarrow> string \<Rightarrow> int \<Rightarrow> SkiplistHashRing
     \<Rightarrow> ((error + migration list) \<times> SkiplistHashRing) option" where
  "AddNode c lv nodeID weight s =
     (if nodeID \<in> dom (Nodes s) then Some (Inl ''repeat node'', s)
      else let n = getValidWeight weight * replicas (opts c);
               s1 = AddNodeToReplica s nodeID n
           in AddNode_loop c lv nodeID (nat n) 0 [] s1)"

primrec RemoveNode_loop ::
  "ConsistentHash \<Rightarrow> string \<Rightarrow> nat \<Rightarrow> nat \<Rightarrow> migration list \<Rightarrow> SkiplistHashRing
     \<Rightarrow> ((error + migration list) \<times> SkiplistHashRing) option" where
  "RemoveNode_loop c nodeID 0 i tasks s = Some (Inr tasks, s)"
| "RemoveNode_loop c nodeID (Suc n) i tasks s =
     do {
       let virtualScore = encryptor c (nodeID @ ''_'' @ itoa (int i));
       (r, s1) \<leftarrow> migrateOut c virtualScore nodeID s;
       case r of
         Inl err \<Rightarrow> Some (Inl err, s1)
       | Inr (from_node, to, datas) \<Rightarrow>
           do {
             let nodeKey = getRawNodeKey nodeID (int i);
             (e, s2) \<leftarrow> Rem virtualScore nodeKey s1;
             case e of
               Some err \<Rightarrow> Some (Inl err, s2)
             | None \<Rightarrow>
                 RemoveNode_loop c nodeID n (i + 1)
                   (if datas = {} then tasks else tasks @ [(from_node, to, datas)]) s2
           }
     }"

definition RemoveNode ::
  "ConsistentHash \<Rightarrow> string \<Rightarrow> SkiplistHashRing \<Rightarrow> ((error + migration list) \<times> SkiplistHashRing) option" where
  "RemoveNode c nodeID s =
     (case Nodes s nodeID of
        None \<Rightarrow> Some (Inl ''invalid node id'', s)
      | Some n \<Rightarrow> RemoveNode_loop c nodeID (nat n) 0 [] (DeleteNodeToReplica s nodeID))"

definition GetNode ::
  "ConsistentHash \<Rightarrow> string \<Rightarrow> SkiplistHashRing \<Rightarrow> ((error + string) \<times> SkiplistHashRing) option" where
  "GetNode c dataKey s =
     do {
       let dataScore = encryptor c dataKey;
       ceilingScore \<leftarrow> Ceiling s dataScore;
       if ceilingScore = - 1 then Some (Inl ''no node available'', s)
       else do {
         ns \<leftarrow> Node s ceilingScore;
         case ns of
           Inl err \<Rightarrow> Some (Inl err, s)
         | Inr nodes \<Rightarrow>
             if length nodes = 0 then Some (Inl ''no node available with empty score'', s)
             else do {
               nid \<leftarrow> getNodeID (nodes ! 0);
               Some (Inr (nodes ! 0), AddNodeToDataKeys s nid {dataKey})
             }
       }
     }"

subsection \<open>Well-formed skiplists and the slots they hold\<close>

text \<open>
  \<open>is_chain h level a bs\<close>: following \<^verbatim>\<open>nexts[level]\<close> from \<open>a\<close> visits
  exactly \<open>bs\<close> and then reaches \<^verbatim>\<open>nil\<close>. \<open>chain\<close> computes that list, with
  fuel so that a cyclic heap yields \<open>None\<close>.
\<close>

primrec is_chain :: "virtualNode list \<Rightarrow> nat \<Rightarrow> nat \<Rightarrow> nat list \<Rightarrow> bool" where
  "is_chain h level a [] = (next_at h a level = Some None)"
| "is_chain h level a (b # bs) = (next_at h a level = Some (Some b) \<and> is_chain h level b bs)"

primrec chain :: "nat \<Rightarrow> virtualNode list \<Rightarrow> nat \<Rightarrow> nat \<Rightarrow> nat list option" where
  "chain 0 h level a = None"
| "chain (Suc fuel) h level a =
     (case next_at h a level of
        None \<Rightarrow> None
      | Some None \<Rightarrow> Some []
      | Some (Some b) \<Rightarrow> map_option ((#) b) (chain fuel h level b))"

definition height :: "virtualNode list \<Rightarrow> nat \<Rightarrow> nat" where
  "height h a = length (nexts (h ! a))"

text \<open>The addresses of the slot nodes, in the order of level \<open>0\<close>.\<close>

definition slot_addrs :: "virtualNode list \<Rightarrow> nat list option" where
  "slot_addrs h =
     (case node_at h root of
        None \<Rightarrow> None
      | Some r \<Rightarrow> if nexts r = [] then Some [] else chain (length h) h 0 root)"

text \<open>
  A heap is a well-formed skiplist over the slot nodes \<open>as\<close>: scores increase
  strictly along \<open>as\<close>; every slot node has between one and root-many levels, and
  a non-empty list of distinct keys; and the list of each level of the root
  consists of the slot nodes tall enough, and is not empty.
\<close>

definition wf_skiplist :: "virtualNode list \<Rightarrow> nat list \<Rightarrow> bool" where
  "wf_skiplist h as =
     (h \<noteq> []
      \<and> sorted_wrt (<) (map (\<lambda>a. score (h ! a)) as)
      \<and> (\<forall>a \<in> set as. 0 < a \<and> a < length h \<and> 0 < height h a \<and> height h a \<le> height h root
            \<and> nodeIDs (h ! a) \<noteq> [] \<and> distinct (nodeIDs (h ! a)))
      \<and> (\<forall>level \<in> {0 ..< height h root}.
            is_chain h level root (filter (\<lambda>a. level < height h a) as)
            \<and> filter (\<lambda>a. level < height h a) as \<noteq> []))"

text \<open>
  Notation for the proofs: the slot nodes with more than \<open>level\<close> levels, and the
  slot nodes of score below the sought score, and the others.
\<close>

abbreviation tall :: "virtualNode list \<Rightarrow> nat \<Rightarrow> nat list \<Rightarrow> nat list" where
  "tall h level as \<equiv> filter (\<lambda>a. level < height h a) as"

abbreviation below :: "virtualNode list \<Rightarrow> int \<Rightarrow> nat list \<Rightarrow> nat list" where
  "below h sc as \<equiv> takeWhile (\<lambda>a. score (h ! a) < sc) as"

abbreviation above :: "virtualNode list \<Rightarrow> int \<Rightarrow> nat list \<Rightarrow> nat list" where
  "above h sc as \<equiv> dropWhile (\<lambda>a. score (h ! a) < sc) as"

text \<open>The slot node of score \<open>sc\<close>, if there is one.\<close>

definition hit :: "virtualNode list \<Rightarrow> int \<Rightarrow> nat list \<Rightarrow> nat option" where
  "hit h sc as =
     (case above h sc as of [] \<Rightarrow> None | t # _ \<Rightarrow> if score (h ! t) = sc then Some t else None)"

definition skiplist_inv :: "SkiplistHashRing \<Rightarrow> bool" where
  "skiplist_inv s = (case slot_addrs (heap s) of None \<Rightarrow> False | Some as \<Rightarrow> wf_skiplist (heap s) as)"

text \<open>The ring slots: score and key list, by increasing score.\<close>

definition slots :: "SkiplistHashRing \<Rightarrow> (int \<times> string list) list" where
  "slots s =
     (case slot_addrs (heap s) of
        None \<Rightarrow> []
      | Some as \<Rightarrow> map (\<lambda>a. (score (heap s ! a), nodeIDs (heap s ! a))) as)"

definition slot_scores :: "SkiplistHashRing \<Rightarrow> int set" where
  "slot_scores s = fst ` set (slots s)"

text \<open>The slots as a map from score to key list.\<close>

definition slot_map :: "SkiplistHashRing \<Rightarrow> (int \<rightharpoonup> string list)" where
  "slot_map s = map_of (slots s)"

text \<open>
  The heap on which the insertion loop of \<^verbatim>\<open>Add\<close> starts: the root grown to
  \<^verbatim>\<open>rLevel+1\<close> levels, the new node allocated.
\<close>

definition add_prep :: "virtualNode list \<Rightarrow> nat \<Rightarrow> int \<Rightarrow> string \<Rightarrow> virtualNode list" where
  "add_prep h rLevel sc nodeID =
     (if length (nexts (h ! root)) < rLevel + 1
      then h[root := (h ! root)\<lparr>nexts := nexts (h ! root) @ replicate (rLevel + 1 - length (nexts (h ! root))) None\<rparr>]
      else h) @ [\<lparr>score = sc, nodeIDs = [nodeID], nexts = replicate (rLevel + 1) None\<rparr>]"

subsection \<open>Ring invariants of the engine\<close>

text \<open>
  \<open>vkeys_decode\<close>: every key in a slot decodes, by \<^verbatim>\<open>getNodeID\<close>, to a node
  that has an entry in Node\<rightarrow>Replicas.

  \<open>vkeys_owned\<close>: every key in a slot is the \<open>i\<close>-th virtual-node key of a node
  with \<open>n > i\<close> replicas, and sits on the slot of its own score.

  \<open>node_present\<close>: the \<open>n\<close> virtual-node keys of a node are on the ring, each in
  the slot of its score.
\<close>

definition vkeys_decode :: "SkiplistHashRing \<Rightarrow> bool" where
  "vkeys_decode s =
     (\<forall>(k, ids) \<in> set (slots s). \<forall>v \<in> set ids.
        case getNodeID v of
          None \<Rightarrow> False
        | Some nodeID \<Rightarrow> nodeToReplicas s nodeID \<noteq> None)"

definition vkeys_owned :: "ConsistentHash \<Rightarrow> SkiplistHashRing \<Rightarrow> bool" where
  "vkeys_owned c s =
     (\<forall>(k, ids) \<in> set (slots s). \<forall>v \<in> set ids.
        case getNodeID v of
          None \<Rightarrow> False
        | Some nodeID \<Rightarrow>
            (case nodeToReplicas s nodeID of
               None \<Rightarrow> False
             | Some n \<Rightarrow> (\<exists>i \<in> {0 ..< n}. v = getRawNodeKey nodeID i) \<and> k = encryptor c v))"

definition node_present :: "ConsistentHash \<Rightarrow> SkiplistHashRing \<Rightarrow> string \<Rightarrow> int \<Rightarrow> bool" where
  "node_present c s nodeID n =
     (\<forall>i \<in> {0 ..< n}.
        case slot_map s (encryptor c (getRawNodeKey nodeID i)) of
          None \<Rightarrow> False
        | Some ids \<Rightarrow> getRawNodeKey nodeID i \<in> set ids)"

text \<open>\<open>post m P\<close>: if the computation \<open>m\<close> returns, its result satisfies \<open>P\<close>.\<close>

definition post :: "'a option \<Rightarrow> ('a \<Rightarrow> bool) \<Rightarrow> bool" where
  "post m P = (case m of None \<Rightarrow> True | Some x \<Rightarrow> P x)"

text \<open>
  The invariant of the ring of an engine: a well-formed skiplist on which every
  key is owned. It holds of the new ring and is kept by the engine's operations
  that return no error.
\<close>

definition ring_inv :: "ConsistentHash \<Rightarrow> SkiplistHashRing \<Rightarrow> bool" where
  "ring_inv c s = (skiplist_inv s \<and> vkeys_owned c s)"

subsection \<open>Concrete engines and rings\<close>

text \<open>
  A hasher for the score-wrap scenario: \<open>A_0\<close> on \<open>10\<close>, \<open>B_0\<close> on \<open>M - 10\<close>,
  \<open>X_0\<close> on \<open>3\<close>, the data key \<open>d\<close> on \<open>5\<close>, every other string on \<open>0\<close>. The
  engine \<open>c_wrap\<close> has a migrator and one virtual node per weight unit;
  \<open>c_nil\<close> is the same engine without migrator.
\<close>

definition enc_wrap :: "string \<Rightarrow> int" where
  "enc_wrap k =
     (if k = ''A_0'' then 10 else if k = ''B_0'' then MaxInt32 - 10
      else if k = ''d'' then 5 else if k = ''X_0'' then 3 else 0)"

definition c_wrap :: ConsistentHash where
  "c_wrap = NewConsistentHash enc_wrap True \<lparr>lockExpireSeconds = 0, replicas = 1\<rparr>"

definition c_nil :: ConsistentHash where
  "c_nil = NewConsistentHash enc_wrap False \<lparr>lockExpireSeconds = 0, replicas = 1\<rparr>"

text \<open>\<^verbatim>\<open>roll\<close> drawing the same level in every iteration.\<close>

definition level_const :: "nat \<Rightarrow> nat \<Rightarrow> nat" where
  "level_const n i = n"

text \<open>
  The rings of the score-wrap scenario: after \<^verbatim>\<open>AddNode("A", 1)\<close> on the new
  ring, then \<^verbatim>\<open>AddNode("B", 1)\<close>, then \<^verbatim>\<open>GetNode("d")\<close>, then
  \<^verbatim>\<open>AddNode("X", 1)\<close>; the levels drawn are \<open>1\<close>, \<open>0\<close> and \<open>2\<close>. \<open>ring_AB\<close> is
  \<open>ring_d\<close> without the empty entry of \<open>B\<close>.
\<close>

definition ring_A :: SkiplistHashRing where
  "ring_A =
     \<lparr>heap = [\<lparr>score = 0, nodeIDs = [], nexts = [Some 1, Some 1]\<rparr>,
              \<lparr>score = 10, nodeIDs = [''A_0''], nexts = [None, None]\<rparr>],
      nodeToReplicas = [''A'' \<mapsto> 1],
      nodeToDataKey = Map.empty\<rparr>"

definition ring_B :: SkiplistHashRing where
  "ring_B =
     \<lparr>heap = [\<lparr>score = 0, nodeIDs = [], nexts = [Some 1, Some 1]\<rparr>,
              \<lparr>score = 10, nodeIDs = [''A_0''], nexts = [Some 2, None]\<rparr>,
              \<lparr>score = 2147483637, nodeIDs = [''B_0''], nexts = [None]\<rparr>],
      nodeToReplicas = [''A'' \<mapsto> 1, ''B'' \<mapsto> 1],
      nodeToDataKey = [''B'' \<mapsto> {}]\<rparr>"

definition ring_d :: SkiplistHashRing where
  "ring_d = ring_B\<lparr>nodeToDataKey := [''B'' \<mapsto> {}, ''A'' \<mapsto> {''d''}]\<rparr>"

definition ring_AB :: SkiplistHashRing where
  "ring_AB = ring_B\<lparr>nodeToDataKey := [''A'' \<mapsto> {''d''}]\<rparr>"

definition ring_X0 :: SkiplistHashRing where
  "ring_X0 =
     \<lparr>heap = [\<lparr>score = 0, nodeIDs = [], nexts = [Some 3, Some 3, Some 3]\<rparr>,
              \<lparr>score = 10, nodeIDs = [''A_0''], nexts = [Some 2, None]\<rparr>,
              \<lparr>score = 2147483637, nodeIDs = [''B_0''], nexts = [None]\<rparr>,
              \<lparr>score = 3, nodeIDs = [''X_0''], nexts = [Some 1, Some 1, None]\<rparr>],
      nodeToReplicas = [''A'' \<mapsto> 1, ''B'' \<mapsto> 1, ''X'' \<mapsto> 1],
      nodeToDataKey = [''B'' \<mapsto> {}, ''A'' \<mapsto> {''d''}]\<rparr>"

definition ring_X :: SkiplistHashRing where
  "ring_X = ring_X0\<lparr>nodeToDataKey := [''B'' \<mapsto> {}, ''A'' \<mapsto> {''d''}, ''X'' \<mapsto> {}]\<rparr>"

text \<open>
  The sole-node scenario: \<open>ring_A\<close> with \<open>d\<close> registered, and what
  \<^verbatim>\<open>RemoveNode("A")\<close> leaves of it.
\<close>

definition ring_Ad :: SkiplistHashRing where
  "ring_Ad = ring_A\<lparr>nodeToDataKey := [''A'' \<mapsto> {''d''}]\<rparr>"

definition ring_Ad_failed :: SkiplistHashRing where
  "ring_Ad_failed = ring_Ad\<lparr>nodeToReplicas := Map.empty\<rparr>"

text \<open>
  The round-trip scenario: the node \<open>A_0\<close> alone, with \<open>d\<close> registered; then
  \<^verbatim>\<open>AddNode("A", 1)\<close>; then \<^verbatim>\<open>RemoveNode("A")\<close>. All levels drawn are \<open>0\<close>.
\<close>

definition ring_P :: SkiplistHashRing where
  "ring_P =
     \<lparr>heap = [\<lparr>score = 0, nodeIDs = [], nexts = [Some 1]\<rparr>,
              \<lparr>score = 0, nodeIDs = [''A_0_0''], nexts = [None]\<rparr>],
      nodeToReplicas = [''A_0'' \<mapsto> 1],
      nodeToDataKey = [''A_0'' \<mapsto> {''d''}]\<rparr>"

definition ring_PA :: SkiplistHashRing where
  "ring_PA =
     \<lparr>heap = [\<lparr>score = 0, nodeIDs = [], nexts = [Some 1]\<rparr>,
              \<lparr>score = 0, nodeIDs = [''A_0_0''], nexts = [Some 2]\<rparr>,
              \<lparr>score = 10, nodeIDs = [''A_0''], nexts = [None]\<rparr>],
      nodeToReplicas = [''A_0'' \<mapsto> 1, ''A'' \<mapsto> 1],
      nodeToDataKey = [''A'' \<mapsto> {''d''}]\<rparr>"

definition ring_PR :: SkiplistHashRing where
  "ring_PR =
     \<lparr>heap = [\<lparr>score = 0, nodeIDs = [], nexts = [Some 1]\<rparr>,
              \<lparr>score = 0, nodeIDs = [''A_0_0''], nexts = [None]\<rparr>,
              \<lparr>score = 10, nodeIDs = [''A_0''], nexts = [None]\<rparr>],
      nodeToReplicas = [''A_0'' \<mapsto> 1],
      nodeToDataKey = Map.empty\<rparr>"

section \<open>Properties\<close>

subsection \<open>The lock\<close>

lemma token_not_empty: "GetCurrentProcessAndGogroutineIDStr pid goroutineID \<noteq> []"
  by (simp add: GetCurrentProcessAndGogroutineIDStr_def)

text \<open>
  C4 (counterexample). The claim has a second \<^verbatim>\<open>Unlock\<close> fail with "not locked"
  once the lock was released. Caller \<open>1_7\<close> locks the fresh ring lock for 15
  seconds and unlocks it; its second \<^verbatim>\<open>Unlock\<close> returns "not your lock".
\<close>

theorem C4_unlock_released_counterexample:
  "Lock ''1_7'' 15 NewLockEntity = Some (None, \<lparr>lock = True, owner = ''1_7'', timer = Some ''1_7''\<rparr>)
   \<and> Unlock ''1_7'' \<lparr>lock = True, owner = ''1_7'', timer = Some ''1_7''\<rparr>
       = Some (None, \<lparr>lock = False, owner = [], timer = None\<rparr>)
   \<and> Unlock ''1_7'' \<lparr>lock = False, owner = [], timer = None\<rparr>
       = Some (Some ''not your lock'', \<lparr>lock = False, owner = [], timer = None\<rparr>)
   \<and> Unlock ''1_7'' \<lparr>lock = False, owner = [], timer = None\<rparr>
       \<noteq> Some (Some ''not locked'', \<lparr>lock = False, owner = [], timer = None\<rparr>)"
  by (simp add: Lock_def Unlock_def unlock_def NewLockEntity_def)

text \<open>
  C4 (amended). \<^verbatim>\<open>Unlock\<close> by a caller whose token differs from the stored
  owner fails with "not your lock" and leaves the lock as it was. When the
  holder \<open>t\<close> releases the lock, by \<^verbatim>\<open>Unlock\<close> or by the expiry timer armed
  for \<open>t\<close>, the release succeeds and every later \<^verbatim>\<open>Unlock\<close>, by any caller,
  fails with "not your lock" as well: the release stores the empty owner, which
  no caller's token equals. The ring lock has no "not locked" error.
\<close>

theorem C4_unlock_errors:
  "(owner l \<noteq> token \<longrightarrow> Unlock token l = Some (Some ''not your lock'', l))
   \<and> (lock l \<and> owner l = t \<longrightarrow>
        (\<exists>l'. Unlock t l = Some (None, l') \<and> \<not> lock l'
           \<and> Unlock (GetCurrentProcessAndGogroutineIDStr pid g) l' = Some (Some ''not your lock'', l')))
   \<and> (lock l \<and> owner l = t \<and> timer l = Some t \<longrightarrow>
        (\<exists>l'. expire l = Some (None, l') \<and> \<not> lock l'
           \<and> Unlock (GetCurrentProcessAndGogroutineIDStr pid g) l' = Some (Some ''not your lock'', l')))"
  using token_not_empty [of pid g]
  by (auto simp: Unlock_def unlock_def expire_def)

theorem C4_unlock_errors_witness:
  "owner \<lparr>lock = True, owner = ''1_7'', timer = Some ''1_7''\<rparr> \<noteq> ''1_8''
   \<and> Unlock ''1_8'' \<lparr>lock = True, owner = ''1_7'', timer = Some ''1_7''\<rparr>
       = Some (Some ''not your lock'', \<lparr>lock = True, owner = ''1_7'', timer = Some ''1_7''\<rparr>)
   \<and> lock \<lparr>lock = True, owner = ''1_7'', timer = Some ''1_7''\<rparr>
   \<and> timer \<lparr>lock = True, owner = ''1_7'', timer = Some ''1_7''\<rparr> = Some ''1_7''
   \<and> (\<exists>l'. Unlock ''1_7'' \<lparr>lock = True, owner = ''1_7'', timer = Some ''1_7''\<rparr> = Some (None, l')
          \<and> Unlock (GetCurrentProcessAndGogroutineIDStr 1 ''7'') l' = Some (Some ''not your lock'', l'))
   \<and> (\<exists>l'. expire \<lparr>lock = True, owner = ''1_7'', timer = Some ''1_7''\<rparr> = Some (None, l')
          \<and> Unlock (GetCurrentProcessAndGogroutineIDStr 1 ''7'') l' = Some (Some ''not your lock'', l'))"
  using C4_unlock_errors [of "\<lparr>lock = True, owner = ''1_7'', timer = Some ''1_7''\<rparr>" "''1_8''" "''1_7''" 1 "''7''"]
  by auto

subsection \<open>The skiplist\<close>

lemma wf_skiplist_alt:
  "wf_skiplist h as =
     (h \<noteq> []
      \<and> sorted_wrt (<) (map (\<lambda>a. score (h ! a)) as)
      \<and> (\<forall>a \<in> set as. 0 < a \<and> a < length h \<and> 0 < height h a \<and> height h a \<le> height h root
            \<and> nodeIDs (h ! a) \<noteq> [] \<and> distinct (nodeIDs (h ! a)))
      \<and> (\<forall>level < height h root. is_chain h level root (tall h level as) \<and> tall h level as \<noteq> []))"
  unfolding wf_skiplist_def by (simp add: Ball_def)

lemma is_chain_frame:
  "(\<And>b. b \<in> set (a # xs) \<Longrightarrow> next_at h' b l = next_at h b l) \<Longrightarrow> is_chain h' l a xs = is_chain h l a xs"
  by (induction xs arbitrary: a) auto

lemma is_chain_suffix:
  "is_chain h l a (xs @ b # ys) \<Longrightarrow> is_chain h l b ys"
  by (induction xs arbitrary: a) auto

lemma is_chain_next_last:
  "is_chain h l a (xs @ ys) \<Longrightarrow> next_at h (last (a # xs)) l = Some (case ys of [] \<Rightarrow> None | y # _ \<Rightarrow> Some y)"
  by (induction xs arbitrary: a) (auto split: list.splits)

lemma is_chain_bounds:
  "is_chain h l a xs \<Longrightarrow> a < length h \<and> l < height h a"
  by (cases xs) (auto simp: next_at_def height_def split: if_splits)

lemma seek_chain:
  "is_chain h l a xs \<Longrightarrow> \<forall>b \<in> set xs. b < length h \<Longrightarrow>
   seek h l sc a = Some (last (a # takeWhile (\<lambda>b. score (h ! b) < sc) xs))"
proof (induction xs arbitrary: a)
  case Nil
  then show ?case by (subst seek.simps) simp
next
  case (Cons b bs)
  then show ?case by (subst seek.simps) (simp add: node_at_def)
qed

lemma seek_end_chain:
  "is_chain h l a xs \<Longrightarrow> seek_end h l a = Some (last (a # xs))"
proof (induction xs arbitrary: a)
  case Nil
  then show ?case by (subst seek_end.simps) simp
next
  case (Cons b bs)
  then show ?case by (subst seek_end.simps) simp
qed

lemma seek_level:
  assumes ch: "is_chain h l root (xs1 @ xs2)"
    and b: "\<forall>b \<in> set (xs1 @ xs2). b < length h"
    and p1: "\<forall>b \<in> set xs1. score (h ! b) < sc"
    and p2: "xs2 = [] \<or> \<not> score (h ! hd xs2) < sc"
    and mv: "move \<in> set (root # xs1)"
  shows "seek h l sc move = Some (last (root # xs1))"
proof -
  have tw: "\<And>ys. set ys \<subseteq> set xs1 \<Longrightarrow> takeWhile (\<lambda>b. score (h ! b) < sc) (ys @ xs2) = ys"
    using p1 p2 by (cases xs2) (auto simp: takeWhile_append1 takeWhile_append2 subset_iff)
  show ?thesis
  proof (cases "move \<in> set xs1")
    case True
    then obtain pre post where sp: "xs1 = pre @ move # post" by (auto dest: split_list)
    have "is_chain h l move (post @ xs2)" using ch sp is_chain_suffix [of h l root pre move "post @ xs2"] by simp
    moreover have "\<forall>b \<in> set (post @ xs2). b < length h" using b sp by auto
    ultimately have "seek h l sc move = Some (last (move # takeWhile (\<lambda>b. score (h ! b) < sc) (post @ xs2)))"
      by (rule seek_chain)
    moreover have "takeWhile (\<lambda>b. score (h ! b) < sc) (post @ xs2) = post" using tw [of post] sp by auto
    ultimately show ?thesis using sp by simp
  next
    case False
    then have m0: "move = root" using mv by simp
    have "seek h l sc root = Some (last (root # takeWhile (\<lambda>b. score (h ! b) < sc) (xs1 @ xs2)))"
      using ch b by (rule seek_chain)
    moreover have "takeWhile (\<lambda>b. score (h ! b) < sc) (xs1 @ xs2) = xs1" using tw [of xs1] by simp
    ultimately show ?thesis using m0 by simp
  qed
qed

lemma sorted_dropWhile_ge:
  "sorted_wrt (<) (map f xs) \<Longrightarrow> b \<in> set (dropWhile (\<lambda>a. f a < (sc::int)) xs) \<Longrightarrow> \<not> f b < sc"
proof (induction xs)
  case Nil
  then show ?case by simp
next
  case (Cons x xs)
  then show ?case by (auto split: if_splits) 
qed

lemma takeWhile_all: "b \<in> set (takeWhile P xs) \<Longrightarrow> P b"
  by (auto dest: set_takeWhileD)

lemma wf_chain_split:
  assumes wf: "wf_skiplist h as" and l: "l < height h root"
  shows "is_chain h l root (filter (\<lambda>a. l < height h a) (takeWhile (\<lambda>a. score (h ! a) < sc) as)
                          @ filter (\<lambda>a. l < height h a) (dropWhile (\<lambda>a. score (h ! a) < sc) as))"
proof -
  have "is_chain h l root (filter (\<lambda>a. l < height h a) as)" using wf l by (simp add: wf_skiplist_alt)
  then show ?thesis
    by (metis filter_append takeWhile_dropWhile_id)
qed

lemma wf_seek:
  assumes wf: "wf_skiplist h as" and l: "l < height h root"
    and mv: "move \<in> set (root # filter (\<lambda>a. l < height h a) (takeWhile (\<lambda>a. score (h ! a) < sc) as))"
  shows "seek h l sc move = Some (last (root # filter (\<lambda>a. l < height h a) (takeWhile (\<lambda>a. score (h ! a) < sc) as)))"
proof (rule seek_level [where ?xs2.0 = "filter (\<lambda>a. l < height h a) (dropWhile (\<lambda>a. score (h ! a) < sc) as)"])
  show "is_chain h l root (filter (\<lambda>a. l < height h a) (takeWhile (\<lambda>a. score (h ! a) < sc) as)
                          @ filter (\<lambda>a. l < height h a) (dropWhile (\<lambda>a. score (h ! a) < sc) as))"
    using wf l by (rule wf_chain_split)
  have "\<forall>b \<in> set as. b < length h" using wf by (simp add: wf_skiplist_alt)
  then show "\<forall>b\<in>set (filter (\<lambda>a. l < height h a) (takeWhile (\<lambda>a. score (h ! a) < sc) as) @
              filter (\<lambda>a. l < height h a) (dropWhile (\<lambda>a. score (h ! a) < sc) as)). b < length h"
    by (auto dest: set_takeWhileD set_dropWhileD)
  show "\<forall>b\<in>set (filter (\<lambda>a. l < height h a) (takeWhile (\<lambda>a. score (h ! a) < sc) as)). score (h ! b) < sc"
    by (auto dest: takeWhile_all)
  have srt: "sorted_wrt (<) (map (\<lambda>a. score (h ! a)) as)" using wf by (simp add: wf_skiplist_alt)
  show "filter (\<lambda>a. l < height h a) (dropWhile (\<lambda>a. score (h ! a) < sc) as) = [] \<or>
        \<not> score (h ! hd (filter (\<lambda>a. l < height h a) (dropWhile (\<lambda>a. score (h ! a) < sc) as))) < sc"
  proof (cases "filter (\<lambda>a. l < height h a) (dropWhile (\<lambda>a. score (h ! a) < sc) as) = []")
    case True then show ?thesis by simp
  next
    case False
    then have "hd (filter (\<lambda>a. l < height h a) (dropWhile (\<lambda>a. score (h ! a) < sc) as))
                \<in> set (filter (\<lambda>a. l < height h a) (dropWhile (\<lambda>a. score (h ! a) < sc) as))"
      by (rule hd_in_set)
    then have "hd (filter (\<lambda>a. l < height h a) (dropWhile (\<lambda>a. score (h ! a) < sc) as))
                \<in> set (dropWhile (\<lambda>a. score (h ! a) < sc) as)" by simp
    then show ?thesis using sorted_dropWhile_ge [OF srt] by blast
  qed
  show "move \<in> set (root # filter (\<lambda>a. l < height h a) (takeWhile (\<lambda>a. score (h ! a) < sc) as))" by (rule mv)
qed

lemma last_root_mem: "last (root # filter P xs) \<in> set (root # filter Q xs)" if "\<And>x. P x \<Longrightarrow> Q x"
proof (cases "filter P xs = []")
  case True then show ?thesis by simp
next
  case False
  then have "last (filter P xs) \<in> set (filter P xs)" by (rule last_in_set)
  then show ?thesis using False that by auto
qed

lemma wf_heights_pos: "wf_skiplist h as \<Longrightarrow> filter (\<lambda>a. 0 < height h a) (takeWhile P as) = takeWhile P as"
  by (auto simp: wf_skiplist_alt filter_id_conv dest: set_takeWhileD)

lemma wf_descend:
  assumes wf: "wf_skiplist h as"
  shows "n \<le> height h root \<Longrightarrow>
    move \<in> set (root # filter (\<lambda>a. n \<le> height h a) (takeWhile (\<lambda>a. score (h ! a) < sc) as)) \<Longrightarrow>
    descend h sc n move = Some (if n = 0 then move else last (root # takeWhile (\<lambda>a. score (h ! a) < sc) as))"
proof (induction n arbitrary: move)
  case 0
  then show ?case by simp
next
  case (Suc l)
  let ?b = "takeWhile (\<lambda>a. score (h ! a) < sc) as"
  have l: "l < height h root" using Suc.prems by simp
  have mv: "move \<in> set (root # filter (\<lambda>a. l < height h a) ?b)" using Suc.prems(2) by (simp add: Suc_le_eq)
  have sk: "seek h l sc move = Some (last (root # filter (\<lambda>a. l < height h a) ?b))"
    using wf l mv by (rule wf_seek)
  have mem: "last (root # filter (\<lambda>a. l < height h a) ?b) \<in> set (root # filter (\<lambda>a. l \<le> height h a) ?b)"
    by (rule last_root_mem) simp
  have ih: "descend h sc l (last (root # filter (\<lambda>a. l < height h a) ?b))
      = Some (if l = 0 then last (root # filter (\<lambda>a. l < height h a) ?b) else last (root # ?b))"
    using Suc.IH [OF _ mem] l by simp
  show ?case
  proof (cases "l = 0")
    case True
    then show ?thesis using sk ih wf_heights_pos [OF wf, of "\<lambda>a. score (h ! a) < sc"] by simp
  next
    case False
    then show ?thesis using sk ih by simp
  qed
qed

lemma wf_level: "wf_skiplist h as \<Longrightarrow> l < height h root \<Longrightarrow> is_chain h l root (tall h l as) \<and> tall h l as \<noteq> []"
  unfolding wf_skiplist_alt by blast

lemma wf_level0: "wf_skiplist h as \<Longrightarrow> tall h 0 as = as"
  by (auto simp: wf_skiplist_alt filter_id_conv)

lemma wf_empty_root: "wf_skiplist h as \<Longrightarrow> height h root = 0 \<Longrightarrow> as = []"
  by (cases as) (auto simp: wf_skiplist_alt)

lemma wf_root: "wf_skiplist h as \<Longrightarrow> node_at h root = Some (h ! root)"
  by (simp add: wf_skiplist_alt node_at_def)

lemma wf_node_at: "wf_skiplist h as \<Longrightarrow> a \<in> set as \<Longrightarrow> node_at h a = Some (h ! a)"
  by (simp add: wf_skiplist_alt node_at_def)

lemma wf_chain0:
  assumes wf: "wf_skiplist h as" and l: "0 < height h root"
  shows "is_chain h 0 root (below h sc as @ above h sc as)"
proof -
  have "is_chain h 0 root (tall h 0 as)" using wf_level [OF wf l] by blast
  then show ?thesis using wf_level0 [OF wf] by simp
qed

lemma wf_next_below:
  assumes wf: "wf_skiplist h as" and l: "0 < height h root"
  shows "next_at h (last (root # below h sc as)) 0 = Some (case above h sc as of [] \<Rightarrow> None | t # _ \<Rightarrow> Some t)"
  using wf_chain0 [OF wf l] by (rule is_chain_next_last)

lemma above_mem: "above h sc as = t # ts \<Longrightarrow> t \<in> set as"
  by (metis list.set_intros(1) set_dropWhileD)

lemma wf_ceiling:
  assumes wf: "wf_skiplist h as"
  shows "ceiling h sc = Some (case above h sc as of [] \<Rightarrow> (- 1, False) | t # _ \<Rightarrow> (score (h ! t), True))"
proof (cases "height h root = 0")
  case True
  then show ?thesis using wf_empty_root [OF wf True] wf_root [OF wf]
    by (simp add: ceiling_def height_def)
next
  case False
  then have l: "0 < height h root" by simp
  have d: "descend h sc (height h root) root = Some (last (root # below h sc as))"
    using wf_descend [OF wf, of "height h root" root sc] False by simp
  show ?thesis
  proof (cases "above h sc as")
    case Nil
    then show ?thesis using d wf_next_below [OF wf l, of sc] wf_root [OF wf] False
      by (simp add: ceiling_def height_def del: dropWhile_eq_Nil_conv)
  next
    case (Cons t ts)
    then have "node_at h t = Some (h ! t)" using wf_node_at [OF wf] above_mem by blast
    then show ?thesis using Cons d wf_next_below [OF wf l, of sc] wf_root [OF wf] False
      by (simp add: ceiling_def height_def)
  qed
qed

lemma wf_first:
  assumes wf: "wf_skiplist h as"
  shows "first h = Some (case as of [] \<Rightarrow> (- 1, False) | t # _ \<Rightarrow> (score (h ! t), True))"
proof (cases "height h root = 0")
  case True
  then show ?thesis using wf_empty_root [OF wf True] wf_root [OF wf]
    by (simp add: first_def height_def)
next
  case False
  then have l: "0 < height h root" by simp
  have "is_chain h 0 root (tall h 0 as) \<and> tall h 0 as \<noteq> []" using wf_level [OF wf l] by blast
  then have ch: "is_chain h 0 root as" and ne: "as \<noteq> []" using wf_level0 [OF wf] by simp_all
  then obtain t ts where as: "as = t # ts" by (cases as) auto
  then have "node_at h t = Some (h ! t)" using wf_node_at [OF wf] by simp
  then show ?thesis using as ch wf_root [OF wf] False
    by (simp add: first_def height_def)
qed

lemma below_last_mem: "below h sc as \<noteq> [] \<Longrightarrow> last (below h sc as) \<in> set as"
  by (meson last_in_set set_takeWhileD)

lemma wf_below_root: "wf_skiplist h as \<Longrightarrow> (last (root # below h sc as) = root) = (below h sc as = [])"
  using below_last_mem [of h sc as] by (auto simp: wf_skiplist_alt)

lemma wf_floor:
  assumes wf: "wf_skiplist h as"
  shows "floor h sc = Some
     (if (case above h sc as of [] \<Rightarrow> False | t # _ \<Rightarrow> score (h ! t) = sc) then (sc, True)
      else if below h sc as = [] then (- 1, False)
      else (score (h ! last (below h sc as)), True))"
proof (cases "height h root = 0")
  case True
  then show ?thesis using wf_empty_root [OF wf True] wf_root [OF wf]
    by (simp add: floor_def height_def)
next
  case False
  then have l: "0 < height h root" by simp
  have d: "descend h sc (height h root) root = Some (last (root # below h sc as))"
    using wf_descend [OF wf, of "height h root" root sc] False by simp
  have mn: "node_at h (last (root # below h sc as)) = Some (h ! last (root # below h sc as))"
    using wf_root [OF wf] wf_node_at [OF wf] below_last_mem [of h sc as] by (cases "below h sc as = []") auto
  show ?thesis
  proof (cases "above h sc as")
    case Nil
    then show ?thesis using d mn wf_next_below [OF wf l, of sc] wf_root [OF wf] False wf_below_root [OF wf, of sc]
      by (simp add: floor_def height_def del: dropWhile_eq_Nil_conv)
  next
    case (Cons t ts)
    then have "node_at h t = Some (h ! t)" using wf_node_at [OF wf] above_mem by blast
    then show ?thesis using Cons d mn wf_next_below [OF wf l, of sc] wf_root [OF wf] False wf_below_root [OF wf, of sc]
      by (simp add: floor_def height_def)
  qed
qed

lemma wf_descend_end:
  assumes wf: "wf_skiplist h as"
  shows "n \<le> height h root \<Longrightarrow>
    move \<in> set (root # filter (\<lambda>a. n \<le> height h a) as) \<Longrightarrow>
    descend_end h n move = Some (if n = 0 then move else last (root # as))"
proof (induction n arbitrary: move)
  case 0
  then show ?case by simp
next
  case (Suc l)
  have l: "l < height h root" using Suc.prems by simp
  have ch: "is_chain h l root (tall h l as)" using wf_level [OF wf l] by blast
  have mv: "move \<in> set (root # tall h l as)" using Suc.prems(2) by (simp add: Suc_le_eq)
  have sk: "seek_end h l move = Some (last (root # tall h l as))"
  proof (cases "move \<in> set (tall h l as)")
    case True
    then obtain pre post where sp: "tall h l as = pre @ move # post" by (auto dest: split_list)
    then have "is_chain h l move post" using ch is_chain_suffix [of h l root pre move post] by simp
    then have "seek_end h l move = Some (last (move # post))" by (rule seek_end_chain)
    then show ?thesis using sp by simp
  next
    case False
    then have "move = root" using mv by auto
    then show ?thesis using seek_end_chain [OF ch] by simp
  qed
  have mem: "last (root # tall h l as) \<in> set (root # filter (\<lambda>a. l \<le> height h a) as)"
    by (rule last_root_mem) simp
  have ih: "descend_end h l (last (root # tall h l as))
      = Some (if l = 0 then last (root # tall h l as) else last (root # as))"
    using Suc.IH [OF _ mem] l by simp
  show ?case
  proof (cases "l = 0")
    case True
    then show ?thesis using sk ih wf_level0 [OF wf] by simp
  next
    case False
    then show ?thesis using sk ih by simp
  qed
qed

lemma wf_last_slot:
  assumes wf: "wf_skiplist h as"
  shows "last_slot h = Some (if as = [] then (- 1, False) else (score (h ! last as), True))"
proof (cases "height h root = 0")
  case True
  then show ?thesis using wf_empty_root [OF wf True] wf_root [OF wf]
    by (simp add: last_slot_def height_def)
next
  case False
  have d: "descend_end h (height h root) root = Some (last (root # as))"
    using wf_descend_end [OF wf, of "height h root" root] False by simp
  have "tall h 0 as \<noteq> []" using wf_level [OF wf, of 0] False by blast
  then have ne: "as \<noteq> []" using wf_level0 [OF wf] by simp
  then have lm: "last as \<in> set as" by simp
  then have "node_at h (last as) = Some (h ! last as)" using wf_node_at [OF wf] by simp
  moreover have "last as \<noteq> root" using lm wf by (auto simp: wf_skiplist_alt)
  ultimately show ?thesis using d ne wf_root [OF wf]
    by (simp add: last_slot_def height_def)
qed

lemma sorted_above:
  assumes "sorted_wrt (<) (map f as)" and "dropWhile (\<lambda>a. f a < (sc::int)) as = t # ts"
  shows "\<not> f t < sc \<and> (\<forall>x \<in> set ts. f t < f x)"
proof -
  have "sorted_wrt (<) (map f (takeWhile (\<lambda>a. f a < sc) as @ t # ts))"
    using assms by (metis takeWhile_dropWhile_id)
  then have "\<forall>x \<in> set ts. f t < f x" by (simp add: sorted_wrt_append)
  moreover have "\<not> f t < sc" using assms(2) by (metis hd_dropWhile list.distinct(1) list.sel(1))
  ultimately show ?thesis by simp
qed

lemma wf_sorted: "wf_skiplist h as \<Longrightarrow> sorted_wrt (<) (map (\<lambda>a. score (h ! a)) as)"
  by (simp add: wf_skiplist_alt)

lemma wf_hit_above:
  assumes wf: "wf_skiplist h as" and t': "t' \<in> set (above h sc as)"
  shows "(score (h ! t') = sc) = (hit h sc as = Some t')"
proof (cases "above h sc as")
  case Nil
  then show ?thesis using t' by (simp del: dropWhile_eq_Nil_conv)
next
  case (Cons t ts)
  have s: "\<not> score (h ! t) < sc \<and> (\<forall>x \<in> set ts. score (h ! t) < score (h ! x))"
    using sorted_above [OF wf_sorted [OF wf] Cons] .
  show ?thesis
  proof (cases "t' = t")
    case True
    then show ?thesis using Cons by (simp add: hit_def)
  next
    case False
    then have "t' \<in> set ts" using t' Cons by simp
    then have "score (h ! t) < score (h ! t')" using s by blast
    then show ?thesis using s Cons False by (auto simp: hit_def)
  qed
qed

lemma wf_next_level:
  assumes wf: "wf_skiplist h as" and l: "l < height h root"
  shows "next_at h (last (root # tall h l (below h sc as))) l
         = Some (case tall h l (above h sc as) of [] \<Rightarrow> None | t # _ \<Rightarrow> Some t)"
  using wf_chain_split [OF wf l] by (rule is_chain_next_last)

lemma wf_get_from:
  assumes wf: "wf_skiplist h as"
  shows "n \<le> height h root \<Longrightarrow>
    move \<in> set (root # filter (\<lambda>a. n \<le> height h a) (below h sc as)) \<Longrightarrow>
    get_from h sc n move = Some (if n = 0 then None else hit h sc as)"
proof (induction n arbitrary: move)
  case 0
  then show ?case by simp
next
  case (Suc l)
  let ?m = "last (root # tall h l (below h sc as))"
  have l: "l < height h root" using Suc.prems by simp
  have mv: "move \<in> set (root # tall h l (below h sc as))" using Suc.prems(2) by (simp add: Suc_le_eq)
  have sk: "seek h l sc move = Some ?m" using wf l mv by (rule wf_seek)
  have mem: "?m \<in> set (root # filter (\<lambda>a. l \<le> height h a) (below h sc as))"
    by (rule last_root_mem) simp
  have ih: "get_from h sc l ?m = Some (if l = 0 then None else hit h sc as)"
    using Suc.IH [OF _ mem] l by simp
  have nx: "next_at h ?m l = Some (case tall h l (above h sc as) of [] \<Rightarrow> None | t # _ \<Rightarrow> Some t)"
    using wf l by (rule wf_next_level)
  show ?case
  proof (cases "tall h l (above h sc as)")
    case Nil
    have "l = 0 \<Longrightarrow> hit h sc as = None"
    proof -
      assume "l = 0"
      then have "above h sc as = []" using Nil wf
        by (metis (mono_tags, lifting) filter_True set_dropWhileD wf_skiplist_alt)
      then show ?thesis by (simp add: hit_def del: dropWhile_eq_Nil_conv)
    qed
    then show ?thesis using sk nx ih Nil by (cases "l = 0") simp_all
  next
    case (Cons t' ts')
    then have t'a: "t' \<in> set (above h sc as)" by (metis filter_is_subset list.set_intros(1) subsetD)
    then have na: "node_at h t' = Some (h ! t')" using wf_node_at [OF wf] by (meson set_dropWhileD)
    have eq: "(score (h ! t') = sc) = (hit h sc as = Some t')" using wf t'a by (rule wf_hit_above)
    show ?thesis
    proof (cases "score (h ! t') = sc")
      case True
      then show ?thesis using sk nx Cons na eq by simp
    next
      case False
      have "l = 0 \<Longrightarrow> hit h sc as = None"
      proof -
        assume "l = 0"
        then have "tall h 0 (above h sc as) = t' # ts'" using Cons by simp
        moreover have "tall h 0 (above h sc as) = above h sc as" using wf
          by (metis (mono_tags, lifting) filter_True set_dropWhileD wf_skiplist_alt)
        ultimately show ?thesis using False by (simp add: hit_def)
      qed
      then show ?thesis using sk nx Cons na False ih by (cases "l = 0") simp_all
    qed
  qed
qed

lemma wf_get:
  assumes wf: "wf_skiplist h as"
  shows "get h sc = Some (hit h sc as)"
proof (cases "height h root = 0")
  case True
  then show ?thesis using wf_empty_root [OF wf True] wf_root [OF wf]
    by (simp add: get_def height_def hit_def)
next
  case False
  then show ?thesis using wf_get_from [OF wf, of "height h root" root sc] wf_root [OF wf]
    by (simp add: get_def height_def)
qed

lemma hit_mem: "hit h sc as = Some t \<Longrightarrow> t \<in> set as \<and> score (h ! t) = sc"
  by (auto simp: hit_def split: list.splits if_splits dest: above_mem)

lemma hit_None: 
  assumes wf: "wf_skiplist h as" and hn: "hit h sc as = None"
  shows "\<forall>a \<in> set as. score (h ! a) \<noteq> sc"
proof
  fix a assume a: "a \<in> set as"
  show "score (h ! a) \<noteq> sc"
  proof
    assume e: "score (h ! a) = sc"
    have "a \<in> set (below h sc as) \<or> a \<in> set (above h sc as)" using a
      by (metis Un_iff set_append takeWhile_dropWhile_id)
    then show False
    proof
      assume "a \<in> set (below h sc as)" then show False using e by (auto dest: takeWhile_all)
    next
      assume "a \<in> set (above h sc as)"
      then show False using wf_hit_above [OF wf, of a sc] e hn by simp
    qed
  qed
qed

lemma chain_fuel: "is_chain h l a xs \<Longrightarrow> length xs < f \<Longrightarrow> chain f h l a = Some xs"
proof (induction xs arbitrary: a f)
  case Nil
  then show ?case by (cases f) auto
next
  case (Cons b bs)
  then show ?case by (cases f) auto
qed

lemma sorted_wrt_less_distinct: "sorted_wrt (<) (map (f :: 'a \<Rightarrow> int) xs) \<Longrightarrow> distinct xs"
  by (induction xs) auto

lemma wf_distinct: "wf_skiplist h as \<Longrightarrow> distinct as"
  using sorted_wrt_less_distinct wf_sorted by blast

lemma wf_length: 
  assumes wf: "wf_skiplist h as" shows "length as < length h"
proof -
  have d: "distinct as" using wf by (rule wf_distinct)
  have "set as \<subseteq> {1..<length h}" using wf by (auto simp: wf_skiplist_alt)
  then have "card (set as) \<le> card {1..<length h}" by (intro card_mono) auto
  then have "length as \<le> length h - 1" using d by (simp add: distinct_card)
  moreover have "h \<noteq> []" using wf by (simp add: wf_skiplist_alt)
  ultimately show ?thesis by (cases h) auto
qed

lemma wf_slot_addrs:
  assumes wf: "wf_skiplist h as" shows "slot_addrs h = Some as"
proof (cases "height h root = 0")
  case True
  then show ?thesis using wf_empty_root [OF wf True] wf_root [OF wf] by (simp add: slot_addrs_def height_def)
next
  case False
  then have "is_chain h 0 root (tall h 0 as)" using wf_level [OF wf, of 0] by simp
  then have "is_chain h 0 root as" using wf_level0 [OF wf] by simp
  then have "chain (length h) h 0 root = Some as" using wf_length [OF wf] by (rule chain_fuel)
  then show ?thesis using False wf_root [OF wf] by (simp add: slot_addrs_def height_def)
qed

lemma skiplist_inv_iff: "skiplist_inv s = (\<exists>as. wf_skiplist (heap s) as)"
  by (auto simp: skiplist_inv_def wf_slot_addrs split: option.splits)

lemma wf_slots: "wf_skiplist (heap s) as \<Longrightarrow> slots s = map (\<lambda>a. (score (heap s ! a), nodeIDs (heap s ! a))) as"
  by (simp add: slots_def wf_slot_addrs)

lemma wf_cong:
  assumes wf: "wf_skiplist h as"
    and len: "length h' = length h"
    and same: "\<And>a. a < length h \<Longrightarrow> score (h' ! a) = score (h ! a) \<and> nexts (h' ! a) = nexts (h ! a)"
    and ids: "\<And>a. a \<in> set as \<Longrightarrow> nodeIDs (h' ! a) \<noteq> [] \<and> distinct (nodeIDs (h' ! a))"
  shows "wf_skiplist h' as"
proof -
  have b: "\<And>a. a \<in> set as \<Longrightarrow> a < length h" using wf by (simp add: wf_skiplist_alt)
  have r: "root < length h" using wf by (simp add: wf_skiplist_alt)
  have nx: "\<And>a l. next_at h' a l = next_at h a l" using same len by (auto simp: next_at_def)
  have hr: "height h' root = height h root" using same r by (simp add: height_def)
  have ha: "\<And>a. a \<in> set as \<Longrightarrow> height h' a = height h a" using same b by (simp add: height_def)
  have tl: "\<And>l. tall h' l as = tall h l as" using ha by (auto intro: filter_cong)
  have sc: "map (\<lambda>a. score (h' ! a)) as = map (\<lambda>a. score (h ! a)) as" using same b by auto
  have ch: "\<And>l xs. is_chain h' l root xs = is_chain h l root xs" by (rule is_chain_frame) (simp add: nx)
  show ?thesis using wf unfolding wf_skiplist_alt hr tl sc ch
    using len ids ha by auto
qed

lemma set_next_Some:
  assumes "a < length h" and "l < height h a"
  shows "\<exists>h'. set_next h a l v = Some h' \<and> length h' = length h
     \<and> (\<forall>b. score (h' ! b) = score (h ! b) \<and> nodeIDs (h' ! b) = nodeIDs (h ! b) \<and> height h' b = height h b)
     \<and> (\<forall>b k. next_at h' b k = (if b = a \<and> k = l then Some v else next_at h b k))"
proof -
  let ?h' = "h[a := (h ! a)\<lparr>nexts := (nexts (h ! a))[l := v]\<rparr>]"
  have 1: "set_next h a l v = Some ?h'" using assms by (simp add: set_next_def height_def)
  have 2: "\<forall>b. score (?h' ! b) = score (h ! b) \<and> nodeIDs (?h' ! b) = nodeIDs (h ! b) \<and> height ?h' b = height h b"
    using assms by (auto simp: height_def nth_list_update)
  have 3: "\<forall>b k. next_at ?h' b k = (if b = a \<and> k = l then Some v else next_at h b k)"
    using assms by (auto simp: next_at_def height_def nth_list_update)
  show ?thesis using 1 2 3 by simp
qed

lemma insert_chain:
  assumes "is_chain h l a (xs @ ys)"
    and "distinct (a # xs @ ys)" and "new \<notin> set (a # xs @ ys)"
    and "next_at h' new l = Some (case ys of [] \<Rightarrow> None | y # _ \<Rightarrow> Some y)"
    and "next_at h' (last (a # xs)) l = Some (Some new)"
    and "\<And>b. b \<noteq> new \<Longrightarrow> b \<noteq> last (a # xs) \<Longrightarrow> next_at h' b l = next_at h b l"
  shows "is_chain h' l a (xs @ new # ys)"
  using assms
proof (induction xs arbitrary: a)
  case Nil
  have "is_chain h' l new ys"
  proof (cases ys)
    case Nil
    then show ?thesis using Nil.prems by simp
  next
    case (Cons y ys')
    have "is_chain h' l y ys' = is_chain h l y ys'"
    proof (rule is_chain_frame)
      fix b assume "b \<in> set (y # ys')"
      then have "b \<noteq> new" and "b \<noteq> last [a]" using Nil.prems Cons by auto
      then show "next_at h' b l = next_at h b l" using Nil.prems(6) by simp
    qed
    then show ?thesis using Nil.prems Cons by simp
  qed
  then show ?case using Nil.prems by simp
next
  case (Cons x xs)
  have "is_chain h' l x (xs @ new # ys)"
    using Cons.prems by (intro Cons.IH) auto
  moreover have "next_at h' a l = next_at h a l"
    using Cons.prems by (intro Cons.prems(6)) auto
  ultimately show ?case using Cons.prems by simp
qed

lemma remove_chain:
  assumes "is_chain h l a (xs @ t # ys)"
    and "distinct (a # xs @ t # ys)"
    and "next_at h' (last (a # xs)) l = Some (case ys of [] \<Rightarrow> None | y # _ \<Rightarrow> Some y)"
    and "\<And>b. b \<noteq> last (a # xs) \<Longrightarrow> next_at h' b l = next_at h b l"
  shows "is_chain h' l a (xs @ ys)"
  using assms
proof (induction xs arbitrary: a)
  case Nil
  show ?case
  proof (cases ys)
    case Nil
    then show ?thesis using Nil.prems by simp
  next
    case (Cons y ys')
    have "is_chain h' l y ys' = is_chain h l y ys'"
    proof (rule is_chain_frame)
      fix b assume "b \<in> set (y # ys')"
      then have "b \<noteq> last [a]" using Nil.prems Cons by auto
      then show "next_at h' b l = next_at h b l" using Nil.prems(4) by simp
    qed
    then show ?thesis using Nil.prems Cons by simp
  qed
next
  case (Cons x xs)
  have "is_chain h' l x (xs @ ys)"
    using Cons.prems by (intro Cons.IH) auto
  moreover have "next_at h' a l = next_at h a l"
    using Cons.prems by (intro Cons.prems(4)) auto
  ultimately show ?case using Cons.prems by simp
qed

lemma insert_levels_ok:
  assumes d: "distinct (as1 @ as2)" and nn: "new \<notin> set (as1 @ as2)" and np: "0 < new"
    and pos: "\<forall>a \<in> set (as1 @ as2). 0 < a"
  shows "new < length h \<Longrightarrow> height h new = rl + 1 \<Longrightarrow> n \<le> rl + 1 \<Longrightarrow> rl + 1 \<le> height h root \<Longrightarrow>
     \<forall>a \<in> set (as1 @ as2). a < length h \<Longrightarrow>
     \<forall>b \<in> set as1. score (h ! b) < sc \<Longrightarrow> \<forall>b \<in> set as2. \<not> score (h ! b) < sc \<Longrightarrow>
     \<forall>l < n. is_chain h l root (tall h l as1 @ tall h l as2) \<Longrightarrow>
     move \<in> set (root # filter (\<lambda>a. n \<le> height h a) as1) \<Longrightarrow>
     \<exists>h'. insert_levels h new sc n move = Some h' \<and> length h' = length h
       \<and> (\<forall>b. score (h' ! b) = score (h ! b) \<and> nodeIDs (h' ! b) = nodeIDs (h ! b) \<and> height h' b = height h b)
       \<and> (\<forall>l < n. is_chain h' l root (tall h l as1 @ new # tall h l as2))
       \<and> (\<forall>l \<ge> n. \<forall>b. next_at h' b l = next_at h b l)"
proof (induction n arbitrary: h move)
  case 0
  then show ?case by simp
next
  case (Suc l)
  let ?x1 = "tall h l as1" and ?x2 = "tall h l as2"
  let ?m = "last (root # ?x1)"
  let ?nx = "case ?x2 of [] \<Rightarrow> None | y # _ \<Rightarrow> Some y"
  have ch: "is_chain h l root (?x1 @ ?x2)" using Suc.prems(8) by simp
  have bd: "\<forall>b \<in> set (?x1 @ ?x2). b < length h" using Suc.prems(5) by auto
  have p1: "\<forall>b \<in> set ?x1. score (h ! b) < sc" using Suc.prems(6) by auto
  have p2: "?x2 = [] \<or> \<not> score (h ! hd ?x2) < sc"
  proof (cases "?x2 = []")
    case True then show ?thesis by simp
  next
    case False
    then have "hd ?x2 \<in> set ?x2" by (rule hd_in_set)
    then have "hd ?x2 \<in> set as2" by simp
    then show ?thesis using Suc.prems(7) by blast
  qed
  have mv: "move \<in> set (root # ?x1)" using Suc.prems(9) by (simp add: Suc_le_eq)
  have sk: "seek h l sc move = Some ?m" using ch bd p1 p2 mv by (rule seek_level)
  have nx: "next_at h ?m l = Some ?nx" using ch by (rule is_chain_next_last)
  have lnew: "l < height h new" using Suc.prems(2,3) by simp
  obtain h1 where h1: "set_next h new l ?nx = Some h1" "length h1 = length h"
      "\<forall>b. score (h1 ! b) = score (h ! b) \<and> nodeIDs (h1 ! b) = nodeIDs (h ! b) \<and> height h1 b = height h b"
      "\<forall>b k. next_at h1 b k = (if b = new \<and> k = l then Some ?nx else next_at h b k)"
    using set_next_Some [OF Suc.prems(1) lnew, of ?nx] by blast
  have mmem: "?m \<in> set (root # ?x1)" using last_root_mem [of "\<lambda>a. l < height h a" "\<lambda>a. l < height h a" as1] by simp
  have r0: "root < length h" using Suc.prems(1) np by (cases h) auto
  have mlen: "?m < length h1" using mmem bd r0 h1(2) by auto
  have mh: "l < height h1 ?m" using mmem Suc.prems(3,4) h1(3) by auto
  have mnew: "?m \<noteq> new" using mmem nn np by auto
  obtain h2 where h2: "set_next h1 ?m l (Some new) = Some h2" "length h2 = length h1"
      "\<forall>b. score (h2 ! b) = score (h1 ! b) \<and> nodeIDs (h2 ! b) = nodeIDs (h1 ! b) \<and> height h2 b = height h1 b"
      "\<forall>b k. next_at h2 b k = (if b = ?m \<and> k = l then Some (Some new) else next_at h1 b k)"
    using set_next_Some [OF mlen mh, of "Some new"] by blast
  have sh2: "\<forall>b. score (h2 ! b) = score (h ! b) \<and> nodeIDs (h2 ! b) = nodeIDs (h ! b) \<and> height h2 b = height h b"
    using h1(3) h2(3) by simp
  have hh2: "\<And>b. height h2 b = height h b" using sh2 by simp
  have nx2: "\<And>b k. next_at h2 b k = (if b = ?m \<and> k = l then Some (Some new)
                 else if b = new \<and> k = l then Some ?nx else next_at h b k)"
    using h1(4) h2(4) by simp
  have dist: "distinct (root # ?x1 @ ?x2)" using d pos by auto
  have nin: "new \<notin> set (root # ?x1 @ ?x2)" using nn np by auto
  have chl: "is_chain h2 l root (?x1 @ new # ?x2)"
  proof (rule insert_chain [OF ch dist nin])
    show "next_at h2 new l = Some ?nx" using nx2 mnew by simp
    show "next_at h2 ?m l = Some (Some new)" using nx2 by simp
    show "\<And>b. b \<noteq> new \<Longrightarrow> b \<noteq> ?m \<Longrightarrow> next_at h2 b l = next_at h b l" using nx2 by simp
  qed
  have lower: "\<forall>l' < l. is_chain h2 l' root (tall h2 l' as1 @ tall h2 l' as2)"
  proof (intro allI impI)
    fix l' assume l': "l' < l"
    have "is_chain h2 l' root (tall h l' as1 @ tall h l' as2) = is_chain h l' root (tall h l' as1 @ tall h l' as2)"
      by (rule is_chain_frame) (use nx2 l' in simp)
    then show "is_chain h2 l' root (tall h2 l' as1 @ tall h2 l' as2)"
      using Suc.prems(8) l' by (simp add: hh2)
  qed
  have mv2: "?m \<in> set (root # filter (\<lambda>a. l \<le> height h2 a) as1)"
    unfolding hh2 by (rule last_root_mem) simp
  have "\<exists>h'. insert_levels h2 new sc l ?m = Some h' \<and> length h' = length h2
       \<and> (\<forall>b. score (h' ! b) = score (h2 ! b) \<and> nodeIDs (h' ! b) = nodeIDs (h2 ! b) \<and> height h' b = height h2 b)
       \<and> (\<forall>l' < l. is_chain h' l' root (tall h2 l' as1 @ new # tall h2 l' as2))
       \<and> (\<forall>l' \<ge> l. \<forall>b. next_at h' b l' = next_at h2 b l')"
  proof (rule Suc.IH)
    show "new < length h2" using Suc.prems(1) h1(2) h2(2) by simp
    show "height h2 new = rl + 1" using Suc.prems(2) hh2 by simp
    show "l \<le> rl + 1" using Suc.prems(3) by simp
    show "rl + 1 \<le> height h2 root" using Suc.prems(4) hh2 by simp
    show "\<forall>a \<in> set (as1 @ as2). a < length h2" using Suc.prems(5) h1(2) h2(2) by simp
    show "\<forall>b \<in> set as1. score (h2 ! b) < sc" using Suc.prems(6) sh2 by simp
    show "\<forall>b \<in> set as2. \<not> score (h2 ! b) < sc" using Suc.prems(7) sh2 by simp
    show "\<forall>l' < l. is_chain h2 l' root (tall h2 l' as1 @ tall h2 l' as2)" by (rule lower)
    show "?m \<in> set (root # filter (\<lambda>a. l \<le> height h2 a) as1)" by (rule mv2)
  qed
  then obtain h' where h': "insert_levels h2 new sc l ?m = Some h'" "length h' = length h2"
      "\<forall>b. score (h' ! b) = score (h2 ! b) \<and> nodeIDs (h' ! b) = nodeIDs (h2 ! b) \<and> height h' b = height h2 b"
      "\<forall>l' < l. is_chain h' l' root (tall h2 l' as1 @ new # tall h2 l' as2)"
      "\<forall>l' \<ge> l. \<forall>b. next_at h' b l' = next_at h2 b l'"
    by blast
  have run: "insert_levels h new sc (Suc l) move = Some h'"
    using sk nx h1(1) h2(1) h'(1) by simp
  have c1: "\<forall>l' < Suc l. is_chain h' l' root (tall h l' as1 @ new # tall h l' as2)"
  proof (intro allI impI)
    fix l' assume "l' < Suc l"
    then consider "l' < l" | "l' = l" by linarith
    then show "is_chain h' l' root (tall h l' as1 @ new # tall h l' as2)"
    proof cases
      case 1
      then show ?thesis using h'(4) by (simp add: hh2)
    next
      case 2
      have "is_chain h' l root (?x1 @ new # ?x2) = is_chain h2 l root (?x1 @ new # ?x2)"
        by (rule is_chain_frame) (use h'(5) in simp)
      then show ?thesis using chl 2 by simp
    qed
  qed
  have c2: "\<forall>l' \<ge> Suc l. \<forall>b. next_at h' b l' = next_at h b l'"
    using h'(5) nx2 by simp
  show ?case using run h'(2) h2(2) h1(2) h'(3) sh2 c1 c2 by simp
qed

lemma add_prep_facts:
  assumes ne: "h \<noteq> []"
  shows "length (add_prep h rl sc v) = length h + 1"
    and "\<And>b. 0 < b \<Longrightarrow> b < length h \<Longrightarrow> add_prep h rl sc v ! b = h ! b"
    and "add_prep h rl sc v ! length h = \<lparr>score = sc, nodeIDs = [v], nexts = replicate (rl + 1) None\<rparr>"
    and "height (add_prep h rl sc v) root = max (height h root) (rl + 1)"
    and "\<And>l. l < height h root \<Longrightarrow> next_at (add_prep h rl sc v) root l = next_at h root l"
    and "\<And>l. height h root \<le> l \<Longrightarrow> l < rl + 1 \<Longrightarrow> next_at (add_prep h rl sc v) root l = Some None"
proof -
  have r: "root < length h" using ne by (cases h) auto
  show "length (add_prep h rl sc v) = length h + 1" by (simp add: add_prep_def)
  show "\<And>b. 0 < b \<Longrightarrow> b < length h \<Longrightarrow> add_prep h rl sc v ! b = h ! b"
    by (simp add: add_prep_def nth_append)
  show "add_prep h rl sc v ! length h = \<lparr>score = sc, nodeIDs = [v], nexts = replicate (rl + 1) None\<rparr>"
    by (simp add: add_prep_def nth_append)
  show "height (add_prep h rl sc v) root = max (height h root) (rl + 1)"
    using r by (auto simp: add_prep_def nth_append height_def)
  show "\<And>l. l < height h root \<Longrightarrow> next_at (add_prep h rl sc v) root l = next_at h root l"
    using r by (auto simp: add_prep_def nth_append height_def next_at_def)
  show "\<And>l. height h root \<le> l \<Longrightarrow> l < rl + 1 \<Longrightarrow> next_at (add_prep h rl sc v) root l = Some None"
    using r by (auto simp: add_prep_def nth_append height_def next_at_def)
qed

lemma add_prep_old:
  assumes ne: "h \<noteq> []" and b: "0 < b" "b < length h"
  shows "next_at (add_prep h rl sc v) b l = next_at h b l" and "height (add_prep h rl sc v) b = height h b"
  using add_prep_facts(1,2) [OF ne] b by (simp_all add: next_at_def height_def)

lemma wf_above_ge: "wf_skiplist h as \<Longrightarrow> b \<in> set (above h sc as) \<Longrightarrow> \<not> score (h ! b) < sc"
  using sorted_dropWhile_ge [of "\<lambda>a. score (h ! a)" as b sc] by (simp add: wf_skiplist_alt)

lemma wf_tall_empty: "wf_skiplist h as \<Longrightarrow> height h root \<le> l \<Longrightarrow> tall h l as = []"
  by (auto simp: wf_skiplist_alt filter_empty_conv)

lemma wf_insert:
  assumes wf: "wf_skiplist h as" and hn: "hit h sc as = None"
  shows "\<exists>h'. insert_levels (add_prep h rl sc v) (length h) sc (rl + 1) root = Some h'
     \<and> wf_skiplist h' (below h sc as @ length h # above h sc as)
     \<and> length h' = length h + 1
     \<and> (\<forall>b. 0 < b \<and> b < length h \<longrightarrow> score (h' ! b) = score (h ! b) \<and> nodeIDs (h' ! b) = nodeIDs (h ! b))
     \<and> score (h' ! length h) = sc \<and> nodeIDs (h' ! length h) = [v]"
proof -
  let ?as1 = "below h sc as" and ?as2 = "above h sc as"
  let ?h2 = "add_prep h rl sc v" and ?new = "length h"
  have ne: "h \<noteq> []" using wf by (simp add: wf_skiplist_alt)
  have as: "?as1 @ ?as2 = as" by simp
  have asb: "\<forall>a \<in> set as. 0 < a \<and> a < length h \<and> 0 < height h a \<and> height h a \<le> height h root
            \<and> nodeIDs (h ! a) \<noteq> [] \<and> distinct (nodeIDs (h ! a))"
    using wf by (simp add: wf_skiplist_alt)
  note pf = add_prep_facts [OF ne, where rl = rl and sc = sc and v = v]
  have old: "\<And>b. b \<in> set as \<Longrightarrow> ?h2 ! b = h ! b" using pf(2) asb by simp
  have oldh: "\<And>b. b \<in> set as \<Longrightarrow> height ?h2 b = height h b" using old by (simp add: height_def)
  have tl2: "\<And>l xs. set xs \<subseteq> set as \<Longrightarrow> tall ?h2 l xs = tall h l xs"
    using oldh by (auto intro!: filter_cong)
  have s1: "set ?as1 \<subseteq> set as" by (auto dest: set_takeWhileD)
  have s2: "set ?as2 \<subseteq> set as" by (auto dest: set_dropWhileD)
  have d: "distinct (?as1 @ ?as2)" using wf_distinct [OF wf] by simp
  have nn: "?new \<notin> set (?as1 @ ?as2)" using asb by auto
  have np: "0 < ?new" using ne by simp
  have pos: "\<forall>a \<in> set (?as1 @ ?as2). 0 < a" using asb by simp
  have "\<exists>h'. insert_levels ?h2 ?new sc (rl + 1) root = Some h' \<and> length h' = length ?h2
       \<and> (\<forall>b. score (h' ! b) = score (?h2 ! b) \<and> nodeIDs (h' ! b) = nodeIDs (?h2 ! b) \<and> height h' b = height ?h2 b)
       \<and> (\<forall>l < rl + 1. is_chain h' l root (tall ?h2 l ?as1 @ ?new # tall ?h2 l ?as2))
       \<and> (\<forall>l \<ge> rl + 1. \<forall>b. next_at h' b l = next_at ?h2 b l)"
  proof (rule insert_levels_ok [OF d nn np pos])
    show "?new < length ?h2" using pf(1) by simp
    show "height ?h2 ?new = rl + 1" using pf(3) by (simp add: height_def)
    show "rl + 1 \<le> rl + 1" by simp
    show "rl + 1 \<le> height ?h2 root" using pf(4) by simp
    show "\<forall>a \<in> set (?as1 @ ?as2). a < length ?h2" using asb pf(1) by (simp add: less_Suc_eq)
    show "\<forall>b \<in> set ?as1. score (?h2 ! b) < sc"
    proof
      fix b assume b: "b \<in> set ?as1"
      then have "score (h ! b) < sc" by (rule takeWhile_all)
      moreover have "?h2 ! b = h ! b" using old s1 b by blast
      ultimately show "score (?h2 ! b) < sc" by simp
    qed
    show "\<forall>b \<in> set ?as2. \<not> score (?h2 ! b) < sc"
    proof
      fix b assume b: "b \<in> set ?as2"
      then have "\<not> score (h ! b) < sc" using wf_above_ge [OF wf] by blast
      moreover have "?h2 ! b = h ! b" using old s2 b by blast
      ultimately show "\<not> score (?h2 ! b) < sc" by simp
    qed
    show "\<forall>l < rl + 1. is_chain ?h2 l root (tall ?h2 l ?as1 @ tall ?h2 l ?as2)"
    proof (intro allI impI)
      fix l assume l: "l < rl + 1"
      have tl: "tall ?h2 l ?as1 @ tall ?h2 l ?as2 = tall h l as"
        using tl2 [OF s1] tl2 [OF s2] by (metis as filter_append)
      show "is_chain ?h2 l root (tall ?h2 l ?as1 @ tall ?h2 l ?as2)"
      proof (cases "l < height h root")
        case True
        have "is_chain ?h2 l root (tall h l as) = is_chain h l root (tall h l as)"
        proof (rule is_chain_frame)
          fix b assume "b \<in> set (root # tall h l as)"
          then have "b = root \<or> (0 < b \<and> b < length h)" using asb by auto
          then show "next_at ?h2 b l = next_at h b l" using pf(5) [OF True] add_prep_old(1) [OF ne] by blast
        qed
        then show ?thesis using wf_level [OF wf True] tl by simp
      next
        case False
        then have "tall h l as = []" using wf_tall_empty [OF wf] by simp
        moreover have "next_at ?h2 root l = Some None" using pf(6) False l by simp
        ultimately show ?thesis using tl by simp
      qed
    qed
    show "root \<in> set (root # filter (\<lambda>a. rl + 1 \<le> height ?h2 a) ?as1)" by simp
  qed
  then obtain h' where h': "insert_levels ?h2 ?new sc (rl + 1) root = Some h'" "length h' = length ?h2"
      "\<forall>b. score (h' ! b) = score (?h2 ! b) \<and> nodeIDs (h' ! b) = nodeIDs (?h2 ! b) \<and> height h' b = height ?h2 b"
      "\<forall>l < rl + 1. is_chain h' l root (tall ?h2 l ?as1 @ ?new # tall ?h2 l ?as2)"
      "\<forall>l \<ge> rl + 1. \<forall>b. next_at h' b l = next_at ?h2 b l"
    by blast
  have hnew: "height h' ?new = rl + 1" using h'(3) pf(3) by (simp add: height_def)
  have hold: "\<And>b. b \<in> set as \<Longrightarrow> height h' b = height h b" using h'(3) oldh by simp
  have hroot: "height h' root = max (height h root) (rl + 1)" using h'(3) pf(4) by simp
  have scnew: "score (h' ! ?new) = sc" and idnew: "nodeIDs (h' ! ?new) = [v]" using h'(3) pf(3) by simp_all
  have scold: "\<And>b. b \<in> set as \<Longrightarrow> score (h' ! b) = score (h ! b)" using h'(3) old by simp
  have idold: "\<And>b. b \<in> set as \<Longrightarrow> nodeIDs (h' ! b) = nodeIDs (h ! b)" using h'(3) old by simp
  have tl': "\<And>l xs. set xs \<subseteq> set as \<Longrightarrow> tall h' l xs = tall h l xs"
    using hold by (auto intro!: filter_cong)
  have srt: "sorted_wrt (<) (map (\<lambda>a. score (h' ! a)) (?as1 @ ?new # ?as2))"
  proof -
    have m1: "map (\<lambda>a. score (h' ! a)) ?as1 = map (\<lambda>a. score (h ! a)) ?as1" using scold s1 by auto
    have m2: "map (\<lambda>a. score (h' ! a)) ?as2 = map (\<lambda>a. score (h ! a)) ?as2" using scold s2 by auto
    have "sorted_wrt (<) (map (\<lambda>a. score (h ! a)) (?as1 @ ?as2))" using wf_sorted [OF wf] by simp
    then have a: "sorted_wrt (<) (map (\<lambda>a. score (h ! a)) ?as1)" "sorted_wrt (<) (map (\<lambda>a. score (h ! a)) ?as2)"
      by (simp_all add: sorted_wrt_append del: takeWhile_dropWhile_id)
    have b1: "\<forall>b \<in> set ?as1. score (h ! b) < sc" by (auto dest: takeWhile_all)
    have b2: "\<forall>b \<in> set ?as2. sc < score (h ! b)"
    proof
      fix b assume b: "b \<in> set ?as2"
      then have "\<not> score (h ! b) < sc" using wf_above_ge [OF wf] by blast
      moreover have "score (h ! b) \<noteq> sc" using hit_None [OF wf hn] b s2 by blast
      ultimately show "sc < score (h ! b)" by simp
    qed
    show ?thesis using a b1 b2 by (fastforce simp: sorted_wrt_append m1 m2 scnew)
  qed
  have nodes: "\<forall>a \<in> set (?as1 @ ?new # ?as2). 0 < a \<and> a < length h' \<and> 0 < height h' a \<and> height h' a \<le> height h' root
            \<and> nodeIDs (h' ! a) \<noteq> [] \<and> distinct (nodeIDs (h' ! a))"
  proof
    fix a assume "a \<in> set (?as1 @ ?new # ?as2)"
    then consider "a = ?new" | "a \<in> set as" using s1 s2 by auto
    then show "0 < a \<and> a < length h' \<and> 0 < height h' a \<and> height h' a \<le> height h' root
            \<and> nodeIDs (h' ! a) \<noteq> [] \<and> distinct (nodeIDs (h' ! a))"
    proof cases
      case 1
      then show ?thesis using np h'(2) pf(1) hnew hroot idnew by simp
    next
      case 2
      then have "0 < a \<and> a < length h \<and> 0 < height h a \<and> height h a \<le> height h root
            \<and> nodeIDs (h ! a) \<noteq> [] \<and> distinct (nodeIDs (h ! a))" using asb by blast
      then show ?thesis using h'(2) pf(1) hold [OF 2] hroot idold [OF 2] by (auto simp: max_def)
    qed
  qed
  have lv: "\<forall>l < height h' root. is_chain h' l root (tall h' l (?as1 @ ?new # ?as2)) \<and> tall h' l (?as1 @ ?new # ?as2) \<noteq> []"
  proof (intro allI impI)
    fix l assume l: "l < height h' root"
    show "is_chain h' l root (tall h' l (?as1 @ ?new # ?as2)) \<and> tall h' l (?as1 @ ?new # ?as2) \<noteq> []"
    proof (cases "l < rl + 1")
      case True
      then have "tall h' l (?as1 @ ?new # ?as2) = tall ?h2 l ?as1 @ ?new # tall ?h2 l ?as2"
        using hnew tl' [OF s1] tl' [OF s2] tl2 [OF s1] tl2 [OF s2] by simp
      then show ?thesis using h'(4) True by simp
    next
      case False
      then have lh: "l < height h root" using l hroot by (simp add: max_def split: if_splits)
      have t: "tall h' l (?as1 @ ?new # ?as2) = tall h l as"
        using hnew False tl' [OF s1] tl' [OF s2] by (metis (no_types, lifting) as filter.simps(2) filter_append)
      have "is_chain h' l root (tall h l as) = is_chain h l root (tall h l as)"
      proof (rule is_chain_frame)
        fix b assume "b \<in> set (root # tall h l as)"
        then have "b = root \<or> (0 < b \<and> b < length h)" using asb by auto
        moreover have "next_at h' b l = next_at ?h2 b l" using h'(5) False by simp
        ultimately show "next_at h' b l = next_at h b l" using pf(5) [OF lh] add_prep_old(1) [OF ne] by metis
      qed
      then show ?thesis using wf_level [OF wf lh] t by simp
    qed
  qed
  have ne': "h' \<noteq> []" using h'(2) pf(1) by auto
  have "wf_skiplist h' (?as1 @ ?new # ?as2)"
    unfolding wf_skiplist_alt using ne' srt nodes lv by blast
  moreover have "\<forall>b. 0 < b \<and> b < length h \<longrightarrow> score (h' ! b) = score (h ! b) \<and> nodeIDs (h' ! b) = nodeIDs (h ! b)"
    using h'(3) pf(2) by simp
  ultimately show ?thesis using h'(1,2) pf(1) scnew idnew by simp
qed

lemma unlink_levels_ok:
  assumes d: "distinct (as1 @ t # as2)" and pos: "\<forall>a \<in> set (as1 @ t # as2). 0 < a"
  shows "n \<le> height h root \<Longrightarrow> root < length h \<Longrightarrow>
     \<forall>a \<in> set (as1 @ t # as2). a < length h \<Longrightarrow>
     \<forall>b \<in> set as1. score (h ! b) < sc \<Longrightarrow> score (h ! t) = sc \<Longrightarrow> \<forall>b \<in> set as2. sc < score (h ! b) \<Longrightarrow>
     \<forall>l < n. is_chain h l root (tall h l as1 @ tall h l [t] @ tall h l as2) \<Longrightarrow>
     move \<in> set (root # filter (\<lambda>a. n \<le> height h a) as1) \<Longrightarrow>
     \<exists>h'. unlink_levels h sc n move = Some h' \<and> length h' = length h
       \<and> (\<forall>b. score (h' ! b) = score (h ! b) \<and> nodeIDs (h' ! b) = nodeIDs (h ! b) \<and> height h' b = height h b)
       \<and> (\<forall>l < n. is_chain h' l root (tall h l as1 @ tall h l as2))
       \<and> (\<forall>l \<ge> n. \<forall>b. next_at h' b l = next_at h b l)"
proof (induction n arbitrary: h move)
  case 0
  then show ?case by simp
next
  case (Suc l)
  let ?x1 = "tall h l as1" and ?xt = "tall h l [t]" and ?x2 = "tall h l as2"
  let ?m = "last (root # ?x1)"
  have ch: "is_chain h l root (?x1 @ ?xt @ ?x2)" using Suc.prems(7) by simp
  have bd: "\<forall>b \<in> set (?x1 @ ?xt @ ?x2). b < length h" using Suc.prems(3) by auto
  have p1: "\<forall>b \<in> set ?x1. score (h ! b) < sc" using Suc.prems(4) by auto
  have ge: "\<forall>b \<in> set (?xt @ ?x2). \<not> score (h ! b) < sc" using Suc.prems(5,6) by auto
  have p2: "?xt @ ?x2 = [] \<or> \<not> score (h ! hd (?xt @ ?x2)) < sc"
  proof (cases "?xt @ ?x2 = []")
    case True then show ?thesis by simp
  next
    case False
    then have "hd (?xt @ ?x2) \<in> set (?xt @ ?x2)" by (rule hd_in_set)
    then show ?thesis using ge by blast
  qed
  have mv: "move \<in> set (root # ?x1)" using Suc.prems(8) by (simp add: Suc_le_eq)
  have sk: "seek h l sc move = Some ?m" using ch bd p1 p2 mv by (rule seek_level)
  have nx: "next_at h ?m l = Some (case ?xt @ ?x2 of [] \<Rightarrow> None | y # _ \<Rightarrow> Some y)"
    using ch by (rule is_chain_next_last)
  have mmem: "?m \<in> set (root # ?x1)" using last_root_mem [of "\<lambda>a. l < height h a" "\<lambda>a. l < height h a" as1] by simp
  have mlen: "?m < length h" using mmem bd Suc.prems(2) by auto
  have mh: "l < height h ?m" using mmem Suc.prems(1) by auto
  have "\<exists>h1. unlink_levels h sc (Suc l) move = unlink_levels h1 sc l ?m \<and> length h1 = length h
       \<and> (\<forall>b. score (h1 ! b) = score (h ! b) \<and> nodeIDs (h1 ! b) = nodeIDs (h ! b) \<and> height h1 b = height h b)
       \<and> is_chain h1 l root (?x1 @ ?x2)
       \<and> (\<forall>k b. k \<noteq> l \<longrightarrow> next_at h1 b k = next_at h b k)"
  proof (cases "l < height h t")
    case True
    then have xt: "?xt = [t]" by simp
    have tn: "node_at h t = Some (h ! t)" using Suc.prems(3) by (simp add: node_at_def)
    have "is_chain h l root ((?x1 @ [t]) @ ?x2)" using ch xt by simp
    then have "next_at h (last (root # ?x1 @ [t])) l = Some (case ?x2 of [] \<Rightarrow> None | y # _ \<Rightarrow> Some y)"
      using is_chain_next_last [of h l root "?x1 @ [t]" ?x2] by simp
    then have tnx: "next_at h t l = Some (case ?x2 of [] \<Rightarrow> None | y # _ \<Rightarrow> Some y)" by simp
    obtain h1 where h1: "set_next h ?m l (case ?x2 of [] \<Rightarrow> None | y # _ \<Rightarrow> Some y) = Some h1" "length h1 = length h"
      "\<forall>b. score (h1 ! b) = score (h ! b) \<and> nodeIDs (h1 ! b) = nodeIDs (h ! b) \<and> height h1 b = height h b"
      "\<forall>b k. next_at h1 b k = (if b = ?m \<and> k = l then Some (case ?x2 of [] \<Rightarrow> None | y # _ \<Rightarrow> Some y) else next_at h b k)"
      using set_next_Some [OF mlen mh] by blast
    have dist: "distinct (root # ?x1 @ t # ?x2)" using d pos by auto
    have "is_chain h l root (?x1 @ t # ?x2)" using ch xt by simp
    then have c: "is_chain h1 l root (?x1 @ ?x2)"
    proof (rule remove_chain [OF _ dist])
      show "next_at h1 ?m l = Some (case ?x2 of [] \<Rightarrow> None | y # _ \<Rightarrow> Some y)" using h1(4) by simp
      show "\<And>b. b \<noteq> ?m \<Longrightarrow> next_at h1 b l = next_at h b l" using h1(4) by simp
    qed
    have "unlink_levels h sc (Suc l) move = unlink_levels h1 sc l ?m"
      using sk nx xt tn Suc.prems(5) tnx h1(1) by simp
    then show ?thesis using h1(2,3,4) c by auto
  next
    case False
    then have xt: "?xt = []" by simp
    have c: "is_chain h l root (?x1 @ ?x2)" using ch xt by simp
    have "unlink_levels h sc (Suc l) move = unlink_levels h sc l ?m"
    proof (cases ?x2)
      case Nil
      then show ?thesis using sk nx xt by simp
    next
      case (Cons y ys)
      then have "y \<in> set ?x2" by simp
      then have y: "y \<in> set as2" by simp
      then have "node_at h y = Some (h ! y)" using Suc.prems(3) by (simp add: node_at_def)
      moreover have "sc < score (h ! y)" using y Suc.prems(6) by blast
      ultimately show ?thesis using sk nx xt Cons by simp
    qed
    then show ?thesis using c by auto
  qed
  then obtain h1 where h1: "unlink_levels h sc (Suc l) move = unlink_levels h1 sc l ?m" "length h1 = length h"
       "\<forall>b. score (h1 ! b) = score (h ! b) \<and> nodeIDs (h1 ! b) = nodeIDs (h ! b) \<and> height h1 b = height h b"
       "is_chain h1 l root (?x1 @ ?x2)"
       "\<forall>k b. k \<noteq> l \<longrightarrow> next_at h1 b k = next_at h b k"
    by blast
  have hh1: "\<And>b. height h1 b = height h b" using h1(3) by simp
  have lower: "\<forall>l' < l. is_chain h1 l' root (tall h1 l' as1 @ tall h1 l' [t] @ tall h1 l' as2)"
  proof (intro allI impI)
    fix l' assume l': "l' < l"
    have "is_chain h1 l' root (tall h l' as1 @ tall h l' [t] @ tall h l' as2)
          = is_chain h l' root (tall h l' as1 @ tall h l' [t] @ tall h l' as2)"
      by (rule is_chain_frame) (use h1(5) l' in simp)
    then show "is_chain h1 l' root (tall h1 l' as1 @ tall h1 l' [t] @ tall h1 l' as2)"
      using Suc.prems(7) l' by (simp add: hh1)
  qed
  have mv2: "?m \<in> set (root # filter (\<lambda>a. l \<le> height h1 a) as1)"
    unfolding hh1 by (rule last_root_mem) simp
  have "\<exists>h'. unlink_levels h1 sc l ?m = Some h' \<and> length h' = length h1
       \<and> (\<forall>b. score (h' ! b) = score (h1 ! b) \<and> nodeIDs (h' ! b) = nodeIDs (h1 ! b) \<and> height h' b = height h1 b)
       \<and> (\<forall>l' < l. is_chain h' l' root (tall h1 l' as1 @ tall h1 l' as2))
       \<and> (\<forall>l' \<ge> l. \<forall>b. next_at h' b l' = next_at h1 b l')"
  proof (rule Suc.IH)
    show "l \<le> height h1 root" using Suc.prems(1) hh1 by simp
    show "root < length h1" using Suc.prems(2) h1(2) by simp
    show "\<forall>a \<in> set (as1 @ t # as2). a < length h1" using Suc.prems(3) h1(2) by simp
    show "\<forall>b \<in> set as1. score (h1 ! b) < sc" using Suc.prems(4) h1(3) by simp
    show "score (h1 ! t) = sc" using Suc.prems(5) h1(3) by simp
    show "\<forall>b \<in> set as2. sc < score (h1 ! b)" using Suc.prems(6) h1(3) by simp
    show "\<forall>l' < l. is_chain h1 l' root (tall h1 l' as1 @ tall h1 l' [t] @ tall h1 l' as2)" by (rule lower)
    show "?m \<in> set (root # filter (\<lambda>a. l \<le> height h1 a) as1)" by (rule mv2)
  qed
  then obtain h' where h': "unlink_levels h1 sc l ?m = Some h'" "length h' = length h1"
      "\<forall>b. score (h' ! b) = score (h1 ! b) \<and> nodeIDs (h' ! b) = nodeIDs (h1 ! b) \<and> height h' b = height h1 b"
      "\<forall>l' < l. is_chain h' l' root (tall h1 l' as1 @ tall h1 l' as2)"
      "\<forall>l' \<ge> l. \<forall>b. next_at h' b l' = next_at h1 b l'"
    by blast
  have c1: "\<forall>l' < Suc l. is_chain h' l' root (tall h l' as1 @ tall h l' as2)"
  proof (intro allI impI)
    fix l' assume "l' < Suc l"
    then consider "l' < l" | "l' = l" by linarith
    then show "is_chain h' l' root (tall h l' as1 @ tall h l' as2)"
    proof cases
      case 1
      then show ?thesis using h'(4) by (simp add: hh1)
    next
      case 2
      have "is_chain h' l root (?x1 @ ?x2) = is_chain h1 l root (?x1 @ ?x2)"
        by (rule is_chain_frame) (use h'(5) in simp)
      then show ?thesis using h1(4) 2 by simp
    qed
  qed
  have c2: "\<forall>l' \<ge> Suc l. \<forall>b. next_at h' b l' = next_at h b l'"
    using h'(5) h1(5) by simp
  show ?case using h1(1) h'(1) h'(2) h1(2) h'(3) h1(3) c1 c2 by simp
qed

lemma is_chain_Nil_iff: "is_chain h l a xs \<Longrightarrow> (xs = []) = (next_at h a l = Some None)"
  by (cases xs) auto

lemma trim_root_wf:
  assumes ne: "h \<noteq> []"
    and srt: "sorted_wrt (<) (map (\<lambda>a. score (h ! a)) as)"
    and nodes: "\<forall>a \<in> set as. 0 < a \<and> a < length h \<and> 0 < height h a \<and> height h a \<le> height h root
            \<and> nodeIDs (h ! a) \<noteq> [] \<and> distinct (nodeIDs (h ! a))"
    and lv: "\<forall>l < height h root. is_chain h l root (tall h l as)"
  shows "\<exists>h'. trim_root h = Some h' \<and> wf_skiplist h' as \<and> length h' = length h
      \<and> (\<forall>b. 0 < b \<longrightarrow> h' ! b = h ! b)"
proof -
  let ?P = "\<lambda>p::nat option. p \<noteq> None"
  let ?nx = "nexts (h ! root)"
  let ?h' = "h[root := (h ! root)\<lparr>nexts := takeWhile ?P ?nx\<rparr>]"
  let ?H' = "length (takeWhile ?P ?nx)"
  have r: "root < length h" using ne by (cases h) auto
  have tr: "trim_root h = Some ?h'" using r by (simp add: trim_root_def node_at_def)
  have old: "\<And>b. 0 < b \<Longrightarrow> ?h' ! b = h ! b" by simp
  have hr: "height ?h' root = ?H'" using r by (simp add: height_def)
  have ha: "\<And>b. 0 < b \<Longrightarrow> height ?h' b = height h b" by (simp add: height_def)
  have le: "?H' \<le> height h root" by (simp add: height_def length_takeWhile_le)
  have nxr: "\<And>l. l < ?H' \<Longrightarrow> next_at ?h' root l = next_at h root l \<and> next_at h root l \<noteq> Some None"
  proof -
    fix l assume l: "l < ?H'"
    then have 1: "takeWhile ?P ?nx ! l = ?nx ! l" by (rule takeWhile_nth)
    have "takeWhile ?P ?nx ! l \<in> set (takeWhile ?P ?nx)" using l by simp
    then have 2: "?P (takeWhile ?P ?nx ! l)" by (rule takeWhile_all)
    have 3: "l < length ?nx" using l le by (simp add: height_def)
    show "next_at ?h' root l = next_at h root l \<and> next_at h root l \<noteq> Some None"
      using r l 1 2 3 by (simp add: next_at_def)
  qed
  have nxo: "\<And>b l. 0 < b \<Longrightarrow> next_at ?h' b l = next_at h b l" by (simp add: next_at_def)
  have tl: "\<And>l. tall ?h' l as = tall h l as" using ha nodes by (auto intro!: filter_cong)
  have sc: "map (\<lambda>a. score (?h' ! a)) as = map (\<lambda>a. score (h ! a)) as" using nodes by auto
  have top: "\<And>a. a \<in> set as \<Longrightarrow> height h a \<le> ?H'"
  proof (rule ccontr)
    fix a assume a: "a \<in> set as" and "\<not> height h a \<le> ?H'"
    then have lt: "?H' < height h a" by simp
    show False
    proof (cases "?H' < height h root")
      case True
      then have "?H' < length ?nx" by (simp add: height_def)
      then have "\<not> ?P (?nx ! ?H')" by (rule nth_length_takeWhile)
      then have "next_at h root ?H' = Some None" using r True by (simp add: next_at_def height_def)
      moreover have "is_chain h ?H' root (tall h ?H' as)" using lv True by blast
      ultimately have "tall h ?H' as = []" using is_chain_Nil_iff by blast
      then show False using a lt by (auto simp: filter_empty_conv)
    next
      case False
      then have eq: "?H' = height h root" using le by simp
      have "height h root < height h a" using lt eq by simp
      then show False using nodes a by auto
    qed
  qed
  have lv': "\<forall>l < height ?h' root. is_chain ?h' l root (tall ?h' l as) \<and> tall ?h' l as \<noteq> []"
  proof (intro allI impI)
    fix l assume "l < height ?h' root"
    then have l: "l < ?H'" using hr by simp
    then have lh: "l < height h root" using le by simp
    have c: "is_chain h l root (tall h l as)" using lv lh by blast
    have "is_chain ?h' l root (tall h l as) = is_chain h l root (tall h l as)"
    proof (rule is_chain_frame)
      fix b assume "b \<in> set (root # tall h l as)"
      then have "b = root \<or> 0 < b" by auto
      then show "next_at ?h' b l = next_at h b l" using nxr [OF l] nxo by blast
    qed
    moreover have "tall h l as \<noteq> []" using is_chain_Nil_iff [OF c] nxr [OF l] by simp
    ultimately show "is_chain ?h' l root (tall ?h' l as) \<and> tall ?h' l as \<noteq> []" using c tl by simp
  qed
  have nodes': "\<forall>a \<in> set as. 0 < a \<and> a < length ?h' \<and> 0 < height ?h' a \<and> height ?h' a \<le> height ?h' root
            \<and> nodeIDs (?h' ! a) \<noteq> [] \<and> distinct (nodeIDs (?h' ! a))"
  proof
    fix a assume a: "a \<in> set as"
    then have "0 < a \<and> a < length h \<and> 0 < height h a \<and> nodeIDs (h ! a) \<noteq> [] \<and> distinct (nodeIDs (h ! a))"
      using nodes by blast
    then show "0 < a \<and> a < length ?h' \<and> 0 < height ?h' a \<and> height ?h' a \<le> height ?h' root
            \<and> nodeIDs (?h' ! a) \<noteq> [] \<and> distinct (nodeIDs (?h' ! a))"
      using top [OF a] hr ha by simp
  qed
  have ne': "?h' \<noteq> []" using ne by simp
  have "wf_skiplist ?h' as" unfolding wf_skiplist_alt sc using ne' srt nodes' lv' by blast
  then show ?thesis using tr old by simp
qed

lemma hit_Some_above: "hit h sc as = Some t \<Longrightarrow> \<exists>as2. above h sc as = t # as2 \<and> score (h ! t) = sc"
  by (auto simp: hit_def split: list.splits if_splits)

lemma wf_remove:
  assumes wf: "wf_skiplist h as" and ht: "hit h sc as = Some t"
  shows "\<exists>h1 h'. unlink_levels h sc (height h root) root = Some h1 \<and> trim_root h1 = Some h'
     \<and> wf_skiplist h' (below h sc as @ tl (above h sc as))
     \<and> length h' = length h
     \<and> (\<forall>b. 0 < b \<longrightarrow> score (h' ! b) = score (h ! b) \<and> nodeIDs (h' ! b) = nodeIDs (h ! b))"
proof -
  let ?as1 = "below h sc as"
  obtain as2 where ab: "above h sc as = t # as2" and sct: "score (h ! t) = sc"
    using hit_Some_above [OF ht] by blast
  have as: "?as1 @ t # as2 = as" using ab by (metis takeWhile_dropWhile_id)
  have ne: "h \<noteq> []" using wf by (simp add: wf_skiplist_alt)
  have r: "root < length h" using ne by (cases h) auto
  have asb: "\<forall>a \<in> set as. 0 < a \<and> a < length h \<and> 0 < height h a \<and> height h a \<le> height h root
            \<and> nodeIDs (h ! a) \<noteq> [] \<and> distinct (nodeIDs (h ! a))"
    using wf by (simp add: wf_skiplist_alt)
  have sub: "set (?as1 @ t # as2) \<subseteq> set as" using as by simp
  have d: "distinct (?as1 @ t # as2)" using wf_distinct [OF wf] as by simp
  have pos: "\<forall>a \<in> set (?as1 @ t # as2). 0 < a" using asb as by simp
  have bnd: "\<forall>a \<in> set (?as1 @ t # as2). a < length h" using asb as by simp
  have srt: "sorted_wrt (<) (map (\<lambda>a. score (h ! a)) (?as1 @ t # as2))" using wf_sorted [OF wf] as by simp
  have b2: "\<forall>b \<in> set as2. sc < score (h ! b)" using srt sct by (simp add: sorted_wrt_append)
  have "\<exists>h'. unlink_levels h sc (height h root) root = Some h' \<and> length h' = length h
       \<and> (\<forall>b. score (h' ! b) = score (h ! b) \<and> nodeIDs (h' ! b) = nodeIDs (h ! b) \<and> height h' b = height h b)
       \<and> (\<forall>l < height h root. is_chain h' l root (tall h l ?as1 @ tall h l as2))
       \<and> (\<forall>l \<ge> height h root. \<forall>b. next_at h' b l = next_at h b l)"
  proof (rule unlink_levels_ok [OF d pos])
    show "height h root \<le> height h root" by simp
    show "root < length h" by (rule r)
    show "\<forall>a \<in> set (?as1 @ t # as2). a < length h" by (rule bnd)
    show "\<forall>b \<in> set ?as1. score (h ! b) < sc" by (auto dest: takeWhile_all)
    show "score (h ! t) = sc" by (rule sct)
    show "\<forall>b \<in> set as2. sc < score (h ! b)" by (rule b2)
    show "\<forall>l < height h root. is_chain h l root (tall h l ?as1 @ tall h l [t] @ tall h l as2)"
    proof (intro allI impI)
      fix l assume l: "l < height h root"
      have "tall h l (?as1 @ t # as2) = tall h l ?as1 @ tall h l [t] @ tall h l as2"
        by simp
      then have "tall h l as = tall h l ?as1 @ tall h l [t] @ tall h l as2"
        unfolding as .
      then show "is_chain h l root (tall h l ?as1 @ tall h l [t] @ tall h l as2)"
        using wf_level [OF wf l] by simp
    qed
    show "root \<in> set (root # filter (\<lambda>a. height h root \<le> height h a) ?as1)" by simp
  qed
  then obtain h1 where h1: "unlink_levels h sc (height h root) root = Some h1" "length h1 = length h"
      "\<forall>b. score (h1 ! b) = score (h ! b) \<and> nodeIDs (h1 ! b) = nodeIDs (h ! b) \<and> height h1 b = height h b"
      "\<forall>l < height h root. is_chain h1 l root (tall h l ?as1 @ tall h l as2)"
    by blast
  have hh: "\<And>b. height h1 b = height h b" using h1(3) by simp
  have "\<exists>h'. trim_root h1 = Some h' \<and> wf_skiplist h' (?as1 @ as2) \<and> length h' = length h1
      \<and> (\<forall>b. 0 < b \<longrightarrow> h' ! b = h1 ! b)"
  proof (rule trim_root_wf)
    show "h1 \<noteq> []" using ne h1(2) by auto
    have "sorted_wrt (<) (map (\<lambda>a. score (h ! a)) (?as1 @ as2))"
      using srt by (auto simp: sorted_wrt_append)
    then show "sorted_wrt (<) (map (\<lambda>a. score (h1 ! a)) (?as1 @ as2))" using h1(3) by simp
    show "\<forall>a \<in> set (?as1 @ as2). 0 < a \<and> a < length h1 \<and> 0 < height h1 a \<and> height h1 a \<le> height h1 root
            \<and> nodeIDs (h1 ! a) \<noteq> [] \<and> distinct (nodeIDs (h1 ! a))"
    proof
      fix a assume "a \<in> set (?as1 @ as2)"
      then have "a \<in> set as" using sub by auto
      then have "0 < a \<and> a < length h \<and> 0 < height h a \<and> height h a \<le> height h root
            \<and> nodeIDs (h ! a) \<noteq> [] \<and> distinct (nodeIDs (h ! a))" using asb by blast
      then show "0 < a \<and> a < length h1 \<and> 0 < height h1 a \<and> height h1 a \<le> height h1 root
            \<and> nodeIDs (h1 ! a) \<noteq> [] \<and> distinct (nodeIDs (h1 ! a))" using h1(2,3) by simp
    qed
    show "\<forall>l < height h1 root. is_chain h1 l root (tall h1 l (?as1 @ as2))"
      using h1(4) by (simp add: hh)
  qed
  then obtain h' where h': "trim_root h1 = Some h'" "wf_skiplist h' (?as1 @ as2)" "length h' = length h1"
      "\<forall>b. 0 < b \<longrightarrow> h' ! b = h1 ! b"
    by blast
  have "\<forall>b. 0 < b \<longrightarrow> score (h' ! b) = score (h ! b) \<and> nodeIDs (h' ! b) = nodeIDs (h ! b)"
    using h'(4) h1(3) by simp
  moreover have "tl (above h sc as) = as2" using ab by simp
  ultimately show ?thesis using h1(1,2) h'(1,2,3) by simp
qed

lemma option_eqI: "(\<And>v. (a = Some v) = (b = Some v)) \<Longrightarrow> a = b"
  by (cases a; cases b) auto

lemma sorted_wrt_less_inj:
  "sorted_wrt (<) (map (f :: 'a \<Rightarrow> int) xs) \<Longrightarrow> a \<in> set xs \<Longrightarrow> b \<in> set xs \<Longrightarrow> f a = f b \<Longrightarrow> a = b"
proof (induction xs)
  case Nil
  then show ?case by simp
next
  case (Cons x xs)
  have lt: "\<forall>y \<in> set xs. f x < f y" and st: "sorted_wrt (<) (map f xs)" using Cons.prems(1) by simp_all
  show ?case
  proof (cases "a = x")
    case True
    show ?thesis
    proof (cases "b = x")
      case True
      then show ?thesis using \<open>a = x\<close> by simp
    next
      case False
      then have "b \<in> set xs" using Cons.prems(3) by simp
      then have "f x < f b" using lt by blast
      then show ?thesis using True Cons.prems(4) by simp
    qed
  next
    case False
    then have a: "a \<in> set xs" using Cons.prems(2) by simp
    show ?thesis
    proof (cases "b = x")
      case True
      have "f x < f a" using lt a by blast
      then show ?thesis using True Cons.prems(4) by simp
    next
      case False
      then have "b \<in> set xs" using Cons.prems(3) by simp
      then show ?thesis using Cons.IH [OF st a _ Cons.prems(4)] by simp
    qed
  qed
qed

lemma wf_score_inj:
  assumes wf: "wf_skiplist h as" and "a \<in> set as" and "b \<in> set as" and "score (h ! a) = score (h ! b)"
  shows "a = b"
  using sorted_wrt_less_inj [OF wf_sorted [OF wf]] assms(2,3,4) by blast

lemma wf_hit_iff:
  assumes wf: "wf_skiplist h as"
  shows "(hit h k as = Some t) = (t \<in> set as \<and> score (h ! t) = k)"
proof
  assume "hit h k as = Some t" then show "t \<in> set as \<and> score (h ! t) = k" by (rule hit_mem)
next
  assume a: "t \<in> set as \<and> score (h ! t) = k"
  show "hit h k as = Some t"
  proof (cases "hit h k as")
    case None
    then show ?thesis using hit_None [OF wf None] a by blast
  next
    case (Some t')
    then have "t' \<in> set as \<and> score (h ! t') = k" by (rule hit_mem)
    then have "t' = t" using wf_score_inj [OF wf] a by simp
    then show ?thesis using Some by simp
  qed
qed

lemma map_of_map_iff:
  "(map_of (map (\<lambda>a. (f a, g a)) xs) k = Some v) \<Longrightarrow> (\<exists>a \<in> set xs. f a = k \<and> g a = v)"
  by (induction xs) (auto split: if_splits)

lemma slot_map_iff:
  assumes wf: "wf_skiplist (heap s) as"
  shows "(slot_map s k = Some ids) = (\<exists>t \<in> set as. score (heap s ! t) = k \<and> nodeIDs (heap s ! t) = ids)"
proof
  assume "slot_map s k = Some ids"
  then show "\<exists>t \<in> set as. score (heap s ! t) = k \<and> nodeIDs (heap s ! t) = ids"
    using map_of_map_iff [of "\<lambda>a. score (heap s ! a)" "\<lambda>a. nodeIDs (heap s ! a)" as k ids]
    by (simp add: slot_map_def wf_slots [OF wf])
next
  assume "\<exists>t \<in> set as. score (heap s ! t) = k \<and> nodeIDs (heap s ! t) = ids"
  then obtain t where t: "t \<in> set as" "score (heap s ! t) = k" "nodeIDs (heap s ! t) = ids" by blast
  have "k \<in> fst ` set (slots s)" using t by (force simp: wf_slots [OF wf])
  then obtain ids' where i': "slot_map s k = Some ids'"
    by (metis slot_map_def map_of_eq_None_iff not_Some_eq)
  then obtain t' where t': "t' \<in> set as" "score (heap s ! t') = k" "nodeIDs (heap s ! t') = ids'"
    using map_of_map_iff [of "\<lambda>a. score (heap s ! a)" "\<lambda>a. nodeIDs (heap s ! a)" as k ids']
    by (auto simp: slot_map_def wf_slots [OF wf])
  have "t' = t" using wf_score_inj [OF wf t'(1) t(1)] t t' by simp
  then show "slot_map s k = Some ids" using i' t t' by simp
qed

lemma slot_map_hit:
  assumes wf: "wf_skiplist (heap s) as"
  shows "slot_map s k = map_option (\<lambda>t. nodeIDs (heap s ! t)) (hit (heap s) k as)"
proof (rule option_eqI)
  fix v
  show "(slot_map s k = Some v) = (map_option (\<lambda>t. nodeIDs (heap s ! t)) (hit (heap s) k as) = Some v)"
    using slot_map_iff [OF wf] wf_hit_iff [OF wf] by auto
qed

lemma slot_scores_wf:
  assumes wf: "wf_skiplist (heap s) as"
  shows "slot_scores s = (\<lambda>a. score (heap s ! a)) ` set as"
  by (force simp: slot_scores_def wf_slots [OF wf])

lemma Node_spec:
  assumes inv: "skiplist_inv s"
  shows "Node s sc = Some (case slot_map s sc of
            None \<Rightarrow> Inl (''score: '' @ itoa sc @ '' not exist'') | Some ids \<Rightarrow> Inr ids)"
proof -
  obtain as where wf: "wf_skiplist (heap s) as" using inv skiplist_inv_iff by blast
  show ?thesis
  proof (cases "hit (heap s) sc as")
    case None
    then show ?thesis using wf_get [OF wf, of sc] slot_map_hit [OF wf, of sc] by (simp add: Node_def)
  next
    case (Some t)
    then have "t \<in> set as" using hit_mem by blast
    then have "node_at (heap s) t = Some (heap s ! t)" using wf_node_at [OF wf] by simp
    then show ?thesis using Some wf_get [OF wf, of sc] slot_map_hit [OF wf, of sc] by (simp add: Node_def)
  qed
qed

lemma upd_ids_same:
  "a < length h \<Longrightarrow> score (h[t := (h ! t)\<lparr>nodeIDs := ids\<rparr>] ! a) = score (h ! a)
     \<and> nexts (h[t := (h ! t)\<lparr>nodeIDs := ids\<rparr>] ! a) = nexts (h ! a)"
  by (cases "a = t") simp_all

lemma upd_ids_at:
  "a < length h \<Longrightarrow> nodeIDs (h[t := (h ! t)\<lparr>nodeIDs := ids\<rparr>] ! a) = (if a = t then ids else nodeIDs (h ! a))"
  by (cases "a = t") simp_all

lemma Add_fresh_run:
  assumes "get (heap s) sc = Some None" and "node_at (heap s) root = Some (heap s ! root)"
    and "insert_levels (add_prep (heap s) rl sc v) (length (heap s)) sc (rl + 1) root = Some h'"
  shows "Add rl sc v s = Some (None, s\<lparr>heap := h'\<rparr>)"
proof -
  have "length (if length (nexts (heap s ! root)) < rl + 1
      then (heap s)[root := (heap s ! root)\<lparr>nexts := nexts (heap s ! root) @ replicate (rl + 1 - length (nexts (heap s ! root))) None\<rparr>]
      else heap s) = length (heap s)" by simp
  then show ?thesis using assms unfolding Add_def add_prep_def Let_def
    by (simp del: insert_levels.simps split del: if_split)
qed

lemma Add_spec:
  assumes inv: "skiplist_inv s"
  shows "\<exists>s'. Add rl sc v s = Some (None, s') \<and> skiplist_inv s'
     \<and> slot_map s' = (slot_map s)(sc \<mapsto>
          (case slot_map s sc of None \<Rightarrow> [v] | Some ids \<Rightarrow> if v \<in> set ids then ids else ids @ [v]))
     \<and> nodeToReplicas s' = nodeToReplicas s \<and> nodeToDataKey s' = nodeToDataKey s
     \<and> (\<forall>ids. slot_map s sc = Some ids \<and> v \<in> set ids \<longrightarrow> s' = s)"
proof -
  let ?h = "heap s"
  obtain as where wf: "wf_skiplist ?h as" using inv skiplist_inv_iff by blast
  have g: "get ?h sc = Some (hit ?h sc as)" using wf by (rule wf_get)
  have sm: "slot_map s sc = map_option (\<lambda>t. nodeIDs (?h ! t)) (hit ?h sc as)" using wf by (rule slot_map_hit)
  show ?thesis
  proof (cases "hit ?h sc as")
    case None
    obtain h' where h': "insert_levels (add_prep ?h rl sc v) (length ?h) sc (rl + 1) root = Some h'"
        "wf_skiplist h' (below ?h sc as @ length ?h # above ?h sc as)"
        "length h' = length ?h + 1"
        "\<forall>b. 0 < b \<and> b < length ?h \<longrightarrow> score (h' ! b) = score (?h ! b) \<and> nodeIDs (h' ! b) = nodeIDs (?h ! b)"
        "score (h' ! length ?h) = sc" "nodeIDs (h' ! length ?h) = [v]"
      using wf_insert [OF wf None, of rl v] by blast
    let ?s' = "s\<lparr>heap := h'\<rparr>"
    have g': "get ?h sc = Some None" using g None by simp
    have run: "Add rl sc v s = Some (None, ?s')"
      by (rule Add_fresh_run [OF g' wf_root [OF wf] h'(1)])
    have wf': "wf_skiplist (heap ?s') (below ?h sc as @ length ?h # above ?h sc as)" using h'(2) by simp
    have inv': "skiplist_inv ?s'" using wf' skiplist_inv_iff by blast
    have asb: "\<forall>a \<in> set as. 0 < a \<and> a < length ?h" using wf by (simp add: wf_skiplist_alt)
    have set': "set (below ?h sc as @ length ?h # above ?h sc as) = insert (length ?h) (set as)"
    proof -
      have "set (below ?h sc as @ above ?h sc as) = set as" by simp
      then show ?thesis by (simp del: takeWhile_dropWhile_id)
    qed
    have nosc: "\<forall>a \<in> set as. score (?h ! a) \<noteq> sc" using hit_None [OF wf None] .
    have "slot_map ?s' = (slot_map s)(sc \<mapsto> [v])"
    proof (rule ext, rule option_eqI)
      fix k ids
      have l: "(slot_map ?s' k = Some ids) = (\<exists>t \<in> insert (length ?h) (set as). score (h' ! t) = k \<and> nodeIDs (h' ! t) = ids)"
        using slot_map_iff [OF wf', of k ids, unfolded set'] by simp
      have r: "(slot_map s k = Some ids) = (\<exists>t \<in> set as. score (?h ! t) = k \<and> nodeIDs (?h ! t) = ids)"
        using slot_map_iff [OF wf] .
      have o: "\<And>t. t \<in> set as \<Longrightarrow> score (h' ! t) = score (?h ! t) \<and> nodeIDs (h' ! t) = nodeIDs (?h ! t)"
        using h'(4) asb by blast
      show "(slot_map ?s' k = Some ids) = (((slot_map s)(sc \<mapsto> [v])) k = Some ids)"
      proof (cases "k = sc")
        case True
        have "(\<exists>t \<in> set as. score (h' ! t) = k \<and> nodeIDs (h' ! t) = ids) = False" using o nosc True by auto
        then show ?thesis using l True h'(5,6) by auto
      next
        case False
        have "(\<exists>t \<in> set as. score (h' ! t) = k \<and> nodeIDs (h' ! t) = ids) = (\<exists>t \<in> set as. score (?h ! t) = k \<and> nodeIDs (?h ! t) = ids)"
          using o by auto
        then show ?thesis using l r False h'(5) by auto
      qed
    qed
    moreover have "slot_map s sc = None" using sm None by simp
    ultimately show ?thesis using run inv' by simp
  next
    case (Some t)
    then have tm: "t \<in> set as" and st: "score (?h ! t) = sc" using hit_mem by blast+
    have na: "node_at ?h t = Some (?h ! t)" using wf_node_at [OF wf tm] .
    have smt: "slot_map s sc = Some (nodeIDs (?h ! t))" using sm Some by simp
    show ?thesis
    proof (cases "v \<in> set (nodeIDs (?h ! t))")
      case True
      have run: "Add rl sc v s = Some (None, s)" using g Some na True by (simp add: Add_def)
      have "(slot_map s)(sc \<mapsto> nodeIDs (?h ! t)) = slot_map s" using smt by (rule map_upd_triv)
      then show ?thesis using run inv smt True by simp
    next
      case False
      let ?ids' = "nodeIDs (?h ! t) @ [v]"
      let ?h' = "?h[t := (?h ! t)\<lparr>nodeIDs := ?ids'\<rparr>]"
      let ?s' = "s\<lparr>heap := ?h'\<rparr>"
      have run: "Add rl sc v s = Some (None, ?s')" using g Some na False by (simp add: Add_def)
      have asb: "\<forall>a \<in> set as. a < length ?h \<and> nodeIDs (?h ! a) \<noteq> [] \<and> distinct (nodeIDs (?h ! a))"
        using wf by (simp add: wf_skiplist_alt)
      have wf': "wf_skiplist ?h' as"
      proof (rule wf_cong [OF wf])
        show "length ?h' = length ?h" by simp
        show "\<And>a. a < length ?h \<Longrightarrow> score (?h' ! a) = score (?h ! a) \<and> nexts (?h' ! a) = nexts (?h ! a)"
          by (rule upd_ids_same)
        show "\<And>a. a \<in> set as \<Longrightarrow> nodeIDs (?h' ! a) \<noteq> [] \<and> distinct (nodeIDs (?h' ! a))"
          using asb False by (auto simp: upd_ids_at)
      qed
      have wf'': "wf_skiplist (heap ?s') as" using wf' by simp
      have inv': "skiplist_inv ?s'" using wf'' skiplist_inv_iff by blast
      have tl: "t < length ?h" using asb tm by blast
      have "slot_map ?s' = (slot_map s)(sc \<mapsto> ?ids')"
      proof (rule ext, rule option_eqI)
        fix k ids
        have l: "(slot_map ?s' k = Some ids) = (\<exists>a \<in> set as. score (?h' ! a) = k \<and> nodeIDs (?h' ! a) = ids)"
          using slot_map_iff [OF wf'', of k ids] by simp
        have r: "(slot_map s k = Some ids) = (\<exists>a \<in> set as. score (?h ! a) = k \<and> nodeIDs (?h ! a) = ids)"
          using slot_map_iff [OF wf] .
        have o: "\<And>a. a \<noteq> t \<Longrightarrow> ?h' ! a = ?h ! a" by simp
        have n: "score (?h' ! t) = sc \<and> nodeIDs (?h' ! t) = ?ids'" using tl st by simp
        have u: "\<And>a. a \<in> set as \<Longrightarrow> score (?h ! a) = sc \<Longrightarrow> a = t"
          using wf_score_inj [OF wf _ tm] st by simp
        show "(slot_map ?s' k = Some ids) = (((slot_map s)(sc \<mapsto> ?ids')) k = Some ids)"
        proof (cases "k = sc")
          case True
          have "(\<exists>a \<in> set as. score (?h' ! a) = sc \<and> nodeIDs (?h' ! a) = ids) = (ids = ?ids')"
          proof
            assume "\<exists>a \<in> set as. score (?h' ! a) = sc \<and> nodeIDs (?h' ! a) = ids"
            then obtain a where a: "a \<in> set as" "score (?h' ! a) = sc" "nodeIDs (?h' ! a) = ids" by blast
            have "a = t"
            proof (rule ccontr)
              assume "a \<noteq> t"
              then have "?h' ! a = ?h ! a" by (rule o)
              then show False using u [OF a(1)] a(2) \<open>a \<noteq> t\<close> by simp
            qed
            then show "ids = ?ids'" using a(3) n by simp
          next
            assume "ids = ?ids'"
            then show "\<exists>a \<in> set as. score (?h' ! a) = sc \<and> nodeIDs (?h' ! a) = ids" using tm n by blast
          qed
          then show ?thesis using l True by auto
        next
          case False
          have "(\<exists>a \<in> set as. score (?h' ! a) = k \<and> nodeIDs (?h' ! a) = ids)
              = (\<exists>a \<in> set as. score (?h ! a) = k \<and> nodeIDs (?h ! a) = ids)"
          proof -
            have "\<And>a. a \<in> set as \<Longrightarrow> (score (?h' ! a) = k \<and> nodeIDs (?h' ! a) = ids) = (score (?h ! a) = k \<and> nodeIDs (?h ! a) = ids)"
            proof -
              fix a assume "a \<in> set as"
              show "(score (?h' ! a) = k \<and> nodeIDs (?h' ! a) = ids) = (score (?h ! a) = k \<and> nodeIDs (?h ! a) = ids)"
              proof (cases "a = t")
                case True then show ?thesis using n st False by simp
              next
                case False then show ?thesis using o by simp
              qed
            qed
            then show ?thesis by blast
          qed
          then show ?thesis using l r False by simp
        qed
      qed
      then show ?thesis using run inv' smt False by simp
    qed
  qed
qed

lemma index_of_None: "(index_of x ys = None) = (x \<notin> set ys)"
  by (induction ys) auto

lemma index_of_remove1: "index_of x ys = Some i \<Longrightarrow> take i ys @ drop (i + 1) ys = remove1 x ys"
  by (induction ys arbitrary: i) (auto split: if_splits)

lemma update_ids_spec:
  assumes wf: "wf_skiplist (heap s) as" and ht: "hit (heap s) sc as = Some t"
    and ne: "ids' \<noteq> []" and di: "distinct ids'"
    and hs': "heap s' = (heap s)[t := (heap s ! t)\<lparr>nodeIDs := ids'\<rparr>]"
  shows "skiplist_inv s' \<and> slot_map s' = (slot_map s)(sc \<mapsto> ids')"
proof -
  let ?h = "heap s"
  let ?h' = "?h[t := (?h ! t)\<lparr>nodeIDs := ids'\<rparr>]"
  have tm: "t \<in> set as" and st: "score (?h ! t) = sc" using hit_mem [OF ht] by blast+
  have asb: "\<forall>a \<in> set as. a < length ?h \<and> nodeIDs (?h ! a) \<noteq> [] \<and> distinct (nodeIDs (?h ! a))"
    using wf by (simp add: wf_skiplist_alt)
  have wf': "wf_skiplist ?h' as"
  proof (rule wf_cong [OF wf])
    show "length ?h' = length ?h" by simp
    show "\<And>a. a < length ?h \<Longrightarrow> score (?h' ! a) = score (?h ! a) \<and> nexts (?h' ! a) = nexts (?h ! a)"
      by (rule upd_ids_same)
    show "\<And>a. a \<in> set as \<Longrightarrow> nodeIDs (?h' ! a) \<noteq> [] \<and> distinct (nodeIDs (?h' ! a))"
      using asb ne di by (auto simp: upd_ids_at)
  qed
  have wf'': "wf_skiplist (heap s') as" using wf' hs' by simp
  have inv': "skiplist_inv s'" using wf'' skiplist_inv_iff by blast
  have tl: "t < length ?h" using asb tm by blast
  have "slot_map s' = (slot_map s)(sc \<mapsto> ids')"
  proof (rule ext, rule option_eqI)
    fix k ids
    have l: "(slot_map s' k = Some ids) = (\<exists>a \<in> set as. score (?h' ! a) = k \<and> nodeIDs (?h' ! a) = ids)"
      using slot_map_iff [OF wf'', of k ids] hs' by simp
    have r: "(slot_map s k = Some ids) = (\<exists>a \<in> set as. score (?h ! a) = k \<and> nodeIDs (?h ! a) = ids)"
      using slot_map_iff [OF wf] .
    have o: "\<And>a. a \<noteq> t \<Longrightarrow> ?h' ! a = ?h ! a" by simp
    have n: "score (?h' ! t) = sc \<and> nodeIDs (?h' ! t) = ids'" using tl st by simp
    have u: "\<And>a. a \<in> set as \<Longrightarrow> score (?h ! a) = sc \<Longrightarrow> a = t"
      using wf_score_inj [OF wf _ tm] st by simp
    show "(slot_map s' k = Some ids) = (((slot_map s)(sc \<mapsto> ids')) k = Some ids)"
    proof (cases "k = sc")
      case True
      have "(\<exists>a \<in> set as. score (?h' ! a) = sc \<and> nodeIDs (?h' ! a) = ids) = (ids = ids')"
      proof
        assume "\<exists>a \<in> set as. score (?h' ! a) = sc \<and> nodeIDs (?h' ! a) = ids"
        then obtain a where a: "a \<in> set as" "score (?h' ! a) = sc" "nodeIDs (?h' ! a) = ids" by blast
        have "a = t"
        proof (rule ccontr)
          assume "a \<noteq> t"
          then have "?h' ! a = ?h ! a" by (rule o)
          then show False using u [OF a(1)] a(2) \<open>a \<noteq> t\<close> by simp
        qed
        then show "ids = ids'" using a(3) n by simp
      next
        assume "ids = ids'"
        then show "\<exists>a \<in> set as. score (?h' ! a) = sc \<and> nodeIDs (?h' ! a) = ids" using tm n by blast
      qed
      then show ?thesis using l True by auto
    next
      case False
      have "\<And>a. a \<in> set as \<Longrightarrow> (score (?h' ! a) = k \<and> nodeIDs (?h' ! a) = ids) = (score (?h ! a) = k \<and> nodeIDs (?h ! a) = ids)"
      proof -
        fix a assume "a \<in> set as"
        show "(score (?h' ! a) = k \<and> nodeIDs (?h' ! a) = ids) = (score (?h ! a) = k \<and> nodeIDs (?h ! a) = ids)"
        proof (cases "a = t")
          case True then show ?thesis using n st False by simp
        next
          case False then show ?thesis using o by simp
        qed
      qed
      then have "(\<exists>a \<in> set as. score (?h' ! a) = k \<and> nodeIDs (?h' ! a) = ids)
              = (\<exists>a \<in> set as. score (?h ! a) = k \<and> nodeIDs (?h ! a) = ids)" by blast
      then show ?thesis using l r False by simp
    qed
  qed
  then show ?thesis using inv' by simp
qed

lemma slot_map_Some_hit:
  assumes wf: "wf_skiplist (heap s) as" and sm: "slot_map s sc = Some ids"
  shows "\<exists>t. hit (heap s) sc as = Some t \<and> nodeIDs (heap s ! t) = ids"
proof -
  obtain t where "t \<in> set as" "score (heap s ! t) = sc" "nodeIDs (heap s ! t) = ids"
    using slot_map_iff [OF wf, of sc ids] sm by blast
  then show ?thesis using wf_hit_iff [OF wf, of sc t] by blast
qed

lemma Rem_spec_absent:
  assumes inv: "skiplist_inv s" and sm: "slot_map s sc = None"
  shows "Rem sc v s = Some (Some (''score: '' @ itoa sc @ '' not exist''), s)"
proof -
  obtain as where wf: "wf_skiplist (heap s) as" using inv skiplist_inv_iff by blast
  have "hit (heap s) sc as = None" using slot_map_hit [OF wf, of sc] sm by simp
  then show ?thesis using wf_get [OF wf, of sc] by (simp add: Rem_def)
qed

lemma Rem_spec_missing:
  assumes inv: "skiplist_inv s" and sm: "slot_map s sc = Some ids" and nv: "v \<notin> set ids"
  shows "Rem sc v s = Some (Some (''node: '' @ v @ '' not exist in score: '' @ itoa sc), s)"
proof -
  obtain as where wf: "wf_skiplist (heap s) as" using inv skiplist_inv_iff by blast
  obtain t where t: "hit (heap s) sc as = Some t" "nodeIDs (heap s ! t) = ids"
    using slot_map_Some_hit [OF wf sm] by blast
  have "node_at (heap s) t = Some (heap s ! t)" using wf_node_at [OF wf] hit_mem [OF t(1)] by blast
  moreover have "index_of v (nodeIDs (heap s ! t)) = None" using nv t(2) index_of_None by simp
  ultimately show ?thesis using wf_get [OF wf, of sc] t(1) by (simp add: Rem_def)
qed

lemma Rem_spec:
  assumes inv: "skiplist_inv s" and sm: "slot_map s sc = Some ids" and vin: "v \<in> set ids"
  shows "\<exists>s'. Rem sc v s = Some (None, s') \<and> skiplist_inv s'
     \<and> slot_map s' = (if length ids > 1 then (slot_map s)(sc \<mapsto> remove1 v ids) else (slot_map s)(sc := None))
     \<and> nodeToReplicas s' = nodeToReplicas s \<and> nodeToDataKey s' = (nodeToDataKey s)(v := None)"
proof -
  let ?h = "heap s"
  obtain as where wf: "wf_skiplist ?h as" using inv skiplist_inv_iff by blast
  obtain t where t: "hit ?h sc as = Some t" "nodeIDs (?h ! t) = ids"
    using slot_map_Some_hit [OF wf sm] by blast
  have tm: "t \<in> set as" and st: "score (?h ! t) = sc" using hit_mem [OF t(1)] by blast+
  have na: "node_at ?h t = Some (?h ! t)" using wf_node_at [OF wf tm] .
  obtain i where i: "index_of v ids = Some i" using vin index_of_None by (cases "index_of v ids") auto
  have rm: "take i ids @ drop (i + 1) ids = remove1 v ids" using i by (rule index_of_remove1)
  have ids: "ids \<noteq> []" "distinct ids" using wf tm t(2) by (auto simp: wf_skiplist_alt)
  let ?s1 = "s\<lparr>nodeToDataKey := (nodeToDataKey s)(v := None)\<rparr>"
  show ?thesis
  proof (cases "length ids > 1")
    case True
    let ?s' = "?s1\<lparr>heap := ?h[t := (?h ! t)\<lparr>nodeIDs := remove1 v ids\<rparr>]\<rparr>"
    have run: "Rem sc v s = Some (None, ?s')"
      using wf_get [OF wf, of sc] t na i rm True by (simp add: Rem_def Let_def)
    have "remove1 v ids \<noteq> []" using True vin by (cases ids) (auto split: if_splits)
    moreover have "distinct (remove1 v ids)" using ids(2) by simp
    moreover have "heap ?s' = ?h[t := (?h ! t)\<lparr>nodeIDs := remove1 v ids\<rparr>]" by simp
    ultimately have "skiplist_inv ?s' \<and> slot_map ?s' = (slot_map s)(sc \<mapsto> remove1 v ids)"
      using update_ids_spec [OF wf t(1)] by blast
    then show ?thesis using run True by simp
  next
    case False
    obtain h1 h' where h: "unlink_levels ?h sc (height ?h root) root = Some h1" "trim_root h1 = Some h'"
        "wf_skiplist h' (below ?h sc as @ tl (above ?h sc as))" "length h' = length ?h"
        "\<forall>b. 0 < b \<longrightarrow> score (h' ! b) = score (?h ! b) \<and> nodeIDs (h' ! b) = nodeIDs (?h ! b)"
      using wf_remove [OF wf t(1)] by blast
    let ?s' = "?s1\<lparr>heap := h'\<rparr>"
    have run: "Rem sc v s = Some (None, ?s')"
      using wf_get [OF wf, of sc] t na i False wf_root [OF wf] h(1,2) by (simp add: Rem_def Let_def height_def)
    have wf': "wf_skiplist (heap ?s') (below ?h sc as @ tl (above ?h sc as))" using h(3) by simp
    have inv': "skiplist_inv ?s'" using wf' skiplist_inv_iff by blast
    obtain as2 where ab: "above ?h sc as = t # as2" using hit_Some_above [OF t(1)] by blast
    have as: "below ?h sc as @ t # as2 = as" using ab by (metis takeWhile_dropWhile_id)
    have d: "distinct (below ?h sc as @ t # as2)" using wf_distinct [OF wf] as by simp
    have set': "set (below ?h sc as @ tl (above ?h sc as)) = set as - {t}"
    proof -
      have "set as = set (below ?h sc as @ t # as2)" using as by simp
      then show ?thesis using d ab by auto
    qed
    have pos: "\<forall>a \<in> set as. 0 < a" using wf by (simp add: wf_skiplist_alt)
    have "slot_map ?s' = (slot_map s)(sc := None)"
    proof (rule ext, rule option_eqI)
      fix k ids0
      have l: "(slot_map ?s' k = Some ids0) = (\<exists>a \<in> set as - {t}. score (h' ! a) = k \<and> nodeIDs (h' ! a) = ids0)"
        using slot_map_iff [OF wf', of k ids0, unfolded set'] by simp
      have r: "(slot_map s k = Some ids0) = (\<exists>a \<in> set as. score (?h ! a) = k \<and> nodeIDs (?h ! a) = ids0)"
        using slot_map_iff [OF wf] .
      have o: "\<And>a. a \<in> set as \<Longrightarrow> score (h' ! a) = score (?h ! a) \<and> nodeIDs (h' ! a) = nodeIDs (?h ! a)"
        using h(5) pos by blast
      have u: "\<And>a. a \<in> set as \<Longrightarrow> score (?h ! a) = sc \<Longrightarrow> a = t"
        using wf_score_inj [OF wf _ tm] st by simp
      have l2: "(slot_map ?s' k = Some ids0) = (\<exists>a \<in> set as - {t}. score (?h ! a) = k \<and> nodeIDs (?h ! a) = ids0)"
        using l o by auto
      show "(slot_map ?s' k = Some ids0) = (((slot_map s)(sc := None)) k = Some ids0)"
      proof (cases "k = sc")
        case True
        then show ?thesis using l2 u by auto
      next
        case False
        then show ?thesis using l2 r st by auto
      qed
    qed
    then show ?thesis using run inv' False by simp
  qed
qed

lemma Ceiling_wf:
  assumes wf: "wf_skiplist (heap s) as"
  shows "Ceiling s sc = Some (case above (heap s) sc as of t # _ \<Rightarrow> score (heap s ! t)
           | [] \<Rightarrow> (case as of [] \<Rightarrow> - 1 | t # _ \<Rightarrow> score (heap s ! t)))"
proof (cases "above (heap s) sc as")
  case Nil
  show ?thesis unfolding Ceiling_def wf_ceiling [OF wf] wf_first [OF wf] Nil
    by (cases as) simp_all
next
  case (Cons t ts)
  show ?thesis unfolding Ceiling_def wf_ceiling [OF wf] wf_first [OF wf] Cons
    by simp
qed

lemma Floor_wf:
  assumes wf: "wf_skiplist (heap s) as"
  shows "Floor s sc = Some
     (if (case above (heap s) sc as of [] \<Rightarrow> False | t # _ \<Rightarrow> score (heap s ! t) = sc) then sc
      else if below (heap s) sc as = [] then (if as = [] then - 1 else score (heap s ! last as))
      else score (heap s ! last (below (heap s) sc as)))"
  unfolding Floor_def wf_floor [OF wf] wf_last_slot [OF wf]
  by (simp del: dropWhile_eq_Nil_conv takeWhile_eq_Nil_iff)

lemma finite_slot_scores: "finite (slot_scores s)"
  by (simp add: slot_scores_def)

lemma wf_split_mem:
  "a \<in> set as \<Longrightarrow> a \<in> set (below h sc as) \<or> a \<in> set (above h sc as)"
  by (metis Un_iff set_append takeWhile_dropWhile_id)

lemma Ceiling_spec:
  assumes inv: "skiplist_inv s"
  shows "Ceiling s sc = Some
     (if slot_scores s = {} then - 1
      else if \<exists>k \<in> slot_scores s. sc \<le> k then Min {k \<in> slot_scores s. sc \<le> k}
      else Min (slot_scores s))"
proof -
  let ?h = "heap s"
  obtain as where wf: "wf_skiplist ?h as" using inv skiplist_inv_iff by blast
  have S: "slot_scores s = (\<lambda>a. score (?h ! a)) ` set as" using wf by (rule slot_scores_wf)
  have srt: "sorted_wrt (<) (map (\<lambda>a. score (?h ! a)) as)" using wf by (rule wf_sorted)
  show ?thesis
  proof (cases "above ?h sc as")
    case Nil
    then have all: "\<forall>a \<in> set as. score (?h ! a) < sc" by simp
    then have no: "\<not> (\<exists>k \<in> slot_scores s. sc \<le> k)" using S by auto
    show ?thesis
    proof (cases as)
      case Nil
      then show ?thesis using Ceiling_wf [OF wf, of sc] S by simp
    next
      case (Cons t ts)
      have lt: "\<forall>y \<in> set ts. score (?h ! t) < score (?h ! y)" using srt Cons by simp
      have "Min (slot_scores s) = score (?h ! t)"
      proof (rule Min_eqI)
        show "finite (slot_scores s)" by (rule finite_slot_scores)
        show "\<And>y. y \<in> slot_scores s \<Longrightarrow> score (?h ! t) \<le> y" using S Cons lt by auto
        show "score (?h ! t) \<in> slot_scores s" using S Cons by simp
      qed
      moreover have "slot_scores s \<noteq> {}" using S Cons by simp
      moreover have "Ceiling s sc = Some (score (?h ! t))"
        using Ceiling_wf [OF wf, of sc] \<open>above ?h sc as = []\<close> Cons by (simp del: dropWhile_eq_Nil_conv)
      ultimately show ?thesis using no by simp
    qed
  next
    case (Cons t ts)
    have s: "\<not> score (?h ! t) < sc \<and> (\<forall>x \<in> set ts. score (?h ! t) < score (?h ! x))"
      using sorted_above [OF srt Cons] .
    have tm: "t \<in> set as" using Cons above_mem by blast
    have "Min {k \<in> slot_scores s. sc \<le> k} = score (?h ! t)"
    proof (rule Min_eqI)
      show "finite {k \<in> slot_scores s. sc \<le> k}" using finite_slot_scores by simp
      show "score (?h ! t) \<in> {k \<in> slot_scores s. sc \<le> k}" using S tm s by auto
      fix y assume "y \<in> {k \<in> slot_scores s. sc \<le> k}"
      then obtain a where a: "a \<in> set as" "y = score (?h ! a)" "sc \<le> y" using S by auto
      have "a \<notin> set (below ?h sc as)" using a by (auto dest: takeWhile_all)
      then have "a \<in> set (t # ts)" using wf_split_mem [OF a(1), of ?h sc] Cons by simp
      then show "score (?h ! t) \<le> y" using s a(2) by auto
    qed
    moreover have "\<exists>k \<in> slot_scores s. sc \<le> k" using S tm s by force
    moreover have "slot_scores s \<noteq> {}" using S tm by auto
    moreover have "Ceiling s sc = Some (score (?h ! t))" using Ceiling_wf [OF wf, of sc] Cons by simp
    ultimately show ?thesis by simp
  qed
qed

lemma sorted_wrt_less_last:
  "sorted_wrt (<) (map (f :: 'a \<Rightarrow> int) xs) \<Longrightarrow> y \<in> set xs \<Longrightarrow> f y \<le> f (last xs)"
proof (induction xs)
  case Nil
  then show ?case by simp
next
  case (Cons x xs)
  show ?case
  proof (cases "xs = []")
    case True
    then show ?thesis using Cons.prems by simp
  next
    case False
    then have l: "last (x # xs) = last xs" by simp
    have lm: "last xs \<in> set xs" using False by simp
    show ?thesis
    proof (cases "y = x")
      case True
      then show ?thesis using Cons.prems(1) lm l by fastforce
    next
      case False
      then show ?thesis using Cons l by simp
    qed
  qed
qed

lemma Floor_spec:
  assumes inv: "skiplist_inv s"
  shows "Floor s sc = Some
     (if slot_scores s = {} then - 1
      else if \<exists>k \<in> slot_scores s. k \<le> sc then Max {k \<in> slot_scores s. k \<le> sc}
      else Max (slot_scores s))"
proof -
  let ?h = "heap s"
  obtain as where wf: "wf_skiplist ?h as" using inv skiplist_inv_iff by blast
  have S: "slot_scores s = (\<lambda>a. score (?h ! a)) ` set as" using wf by (rule slot_scores_wf)
  have srt: "sorted_wrt (<) (map (\<lambda>a. score (?h ! a)) as)" using wf by (rule wf_sorted)
  have fl: "Floor s sc = Some
     (if (case above ?h sc as of [] \<Rightarrow> False | t # _ \<Rightarrow> score (?h ! t) = sc) then sc
      else if below ?h sc as = [] then (if as = [] then - 1 else score (?h ! last as))
      else score (?h ! last (below ?h sc as)))" using wf by (rule Floor_wf)
  have ab_ge: "\<And>b. b \<in> set (above ?h sc as) \<Longrightarrow> sc \<le> score (?h ! b)"
  proof -
    fix b assume "b \<in> set (above ?h sc as)"
    then have "\<not> score (?h ! b) < sc" by (rule wf_above_ge [OF wf])
    then show "sc \<le> score (?h ! b)" by simp
  qed
  show ?thesis
  proof (cases "case above ?h sc as of [] \<Rightarrow> False | t # _ \<Rightarrow> score (?h ! t) = sc")
    case True
    then obtain t ts where ab: "above ?h sc as = t # ts" "score (?h ! t) = sc" by (auto split: list.splits)
    have tm: "t \<in> set as" using ab above_mem by blast
    have "Max {k \<in> slot_scores s. k \<le> sc} = sc"
    proof (rule Max_eqI)
      show "finite {k \<in> slot_scores s. k \<le> sc}" using finite_slot_scores by simp
      show "\<And>y. y \<in> {k \<in> slot_scores s. k \<le> sc} \<Longrightarrow> y \<le> sc" by simp
      show "sc \<in> {k \<in> slot_scores s. k \<le> sc}" using S tm ab by auto
    qed
    moreover have "\<exists>k \<in> slot_scores s. k \<le> sc" using S tm ab by force
    moreover have "slot_scores s \<noteq> {}" using S tm by auto
    ultimately show ?thesis using fl True by simp
  next
    case False
    have nosc: "\<And>a. a \<in> set as \<Longrightarrow> score (?h ! a) \<noteq> sc"
    proof
      fix a assume a: "a \<in> set as" "score (?h ! a) = sc"
      then have "hit ?h sc as = Some a" using wf_hit_iff [OF wf] by blast
      then show False using False by (auto simp: hit_def split: list.splits if_splits)
    qed
    show ?thesis
    proof (cases "below ?h sc as = []")
      case True
      have none: "\<not> (\<exists>k \<in> slot_scores s. k \<le> sc)"
      proof
        assume "\<exists>k \<in> slot_scores s. k \<le> sc"
        then obtain a where a: "a \<in> set as" "score (?h ! a) \<le> sc" using S by auto
        then have "a \<in> set (above ?h sc as)" using wf_split_mem [OF a(1), of ?h sc] True by simp
        then have "sc \<le> score (?h ! a)" by (rule ab_ge)
        then show False using a nosc by force
      qed
      show ?thesis
      proof (cases "as = []")
        case True
        then show ?thesis using fl False S by simp
      next
        case ne: False
        have "Max (slot_scores s) = score (?h ! last as)"
        proof (rule Max_eqI)
          show "finite (slot_scores s)" by (rule finite_slot_scores)
          show "\<And>y. y \<in> slot_scores s \<Longrightarrow> y \<le> score (?h ! last as)"
            using S sorted_wrt_less_last [OF srt] by auto
          show "score (?h ! last as) \<in> slot_scores s" using S ne by simp
        qed
        moreover have "slot_scores s \<noteq> {}" using S ne by simp
        ultimately show ?thesis using fl False True ne none by (simp del: takeWhile_eq_Nil_iff)
      qed
    next
      case bne: False
      let ?b = "below ?h sc as"
      have lb: "last ?b \<in> set ?b" using bne by simp
      then have lbm: "last ?b \<in> set as" by (meson set_takeWhileD)
      have lblt: "score (?h ! last ?b) < sc" using lb by (auto dest: takeWhile_all)
      have sb: "sorted_wrt (<) (map (\<lambda>a. score (?h ! a)) ?b)"
      proof -
        have "sorted_wrt (<) (map (\<lambda>a. score (?h ! a)) (?b @ above ?h sc as))" using srt by simp
        then show ?thesis by (simp add: sorted_wrt_append del: takeWhile_dropWhile_id)
      qed
      have "Max {k \<in> slot_scores s. k \<le> sc} = score (?h ! last ?b)"
      proof (rule Max_eqI)
        show "finite {k \<in> slot_scores s. k \<le> sc}" using finite_slot_scores by simp
        show "score (?h ! last ?b) \<in> {k \<in> slot_scores s. k \<le> sc}" using S lbm lblt by auto
        fix y assume "y \<in> {k \<in> slot_scores s. k \<le> sc}"
        then obtain a where a: "a \<in> set as" "y = score (?h ! a)" "y \<le> sc" using S by auto
        have "a \<notin> set (above ?h sc as)"
        proof
          assume "a \<in> set (above ?h sc as)"
          then have "sc \<le> score (?h ! a)" by (rule ab_ge)
          then show False using a nosc by force
        qed
        then have "a \<in> set ?b" using wf_split_mem [OF a(1), of ?h sc] by simp
        then show "y \<le> score (?h ! last ?b)" using sorted_wrt_less_last [OF sb] a(2) by simp
      qed
      moreover have "\<exists>k \<in> slot_scores s. k \<le> sc" using S lbm lblt by force
      moreover have "slot_scores s \<noteq> {}" using S lbm by auto
      ultimately show ?thesis using fl False bne by (simp del: takeWhile_eq_Nil_iff)
    qed
  qed
qed

subsection \<open>Virtual-node keys\<close>

lemma last_index_from_notin: "c \<notin> set s \<Longrightarrow> last_index_from c s i acc = acc"
  by (induction s arbitrary: i acc) auto

lemma last_index_from_split:
  "c \<notin> set r \<Longrightarrow> last_index_from c (p @ c # r) i acc = i + int (length p)"
  by (induction p arbitrary: i acc) (auto simp: last_index_from_notin)

lemma getNodeID_split: "CHR ''_'' \<notin> set r \<Longrightarrow> getNodeID (p @ CHR ''_'' # r) = Some p"
  by (simp add: getNodeID_def LastIndex_def last_index_from_split)

lemma getNodeID_None: "CHR ''_'' \<notin> set v \<Longrightarrow> getNodeID v = None"
  by (simp add: getNodeID_def LastIndex_def last_index_from_notin)

lemma getNodeID_SomeD:
  assumes "getNodeID v = Some nid"
  shows "\<exists>r. v = nid @ CHR ''_'' # r \<and> CHR ''_'' \<notin> set r"
proof (cases "CHR ''_'' \<in> set v")
  case False
  then show ?thesis using assms getNodeID_None by simp
next
  case True
  then obtain p r where v: "v = p @ CHR ''_'' # r" "CHR ''_'' \<notin> set r" by (auto dest: split_list_last)
  then have "getNodeID v = Some p" using getNodeID_split by simp
  then show ?thesis using assms v by auto
qed

lemma digit_char_set: "d < 10 \<Longrightarrow> digit_char d \<in> set ''0123456789''"
  unfolding digit_char_def by (rule nth_mem) simp

lemma digits_set: "set (digits n) \<subseteq> set ''0123456789''"
proof (induction n rule: digits.induct)
  case (1 n)
  show ?case
  proof (cases "n < 10")
    case True
    then show ?thesis using digit_char_set [of n] by (subst digits.simps) simp
  next
    case False
    have "n mod 10 < 10" by simp
    then have "digit_char (n mod 10) \<in> set ''0123456789''" by (rule digit_char_set)
    then show ?thesis using False 1 by (subst digits.simps) simp
  qed
qed

lemma digits_no_sep: "CHR ''_'' \<notin> set (digits n)"
  using digits_set [of n] by auto

lemma itoa_no_sep: "CHR ''_'' \<notin> set (itoa i)"
  using digits_no_sep by (simp add: itoa_def)

lemma getNodeID_raw: "getNodeID (getRawNodeKey nodeID i) = Some nodeID"
  using getNodeID_split [OF itoa_no_sep, of nodeID i] by (simp add: getRawNodeKey_def)

lemma digit_char_inj: "a < 10 \<Longrightarrow> b < 10 \<Longrightarrow> digit_char a = digit_char b \<Longrightarrow> a = b"
proof -
  assume a: "a < 10" and b: "b < 10" and e: "digit_char a = digit_char b"
  have d: "distinct ''0123456789''" by simp
  have "a < length ''0123456789''" "b < length ''0123456789''" using a b by simp_all
  then show "a = b" using e d nth_eq_iff_index_eq unfolding digit_char_def by blast
qed

lemma digits_nonempty: "digits n \<noteq> []"
  by (subst digits.simps) simp

lemma digits_inj: "digits n = digits m \<Longrightarrow> n = m"
proof (induction n arbitrary: m rule: digits.induct)
  case (1 n)
  show ?case
  proof (cases "n < 10")
    case True
    then have dn: "digits n = [digit_char n]" by (subst digits.simps) simp
    show ?thesis
    proof (cases "m < 10")
      case m: True
      then have "digits m = [digit_char m]" by (subst digits.simps) simp
      then show ?thesis using dn 1(2) True m digit_char_inj by simp
    next
      case False
      then have "digits m = digits (m div 10) @ [digit_char (m mod 10)]" by (subst digits.simps) simp
      then show ?thesis using dn 1(2) digits_nonempty [of "m div 10"] by simp
    qed
  next
    case False
    then have dn: "digits n = digits (n div 10) @ [digit_char (n mod 10)]" by (subst digits.simps) simp
    show ?thesis
    proof (cases "m < 10")
      case True
      then have "digits m = [digit_char m]" by (subst digits.simps) simp
      then show ?thesis using dn 1(2) digits_nonempty [of "n div 10"] by simp
    next
      case m: False
      then have "digits m = digits (m div 10) @ [digit_char (m mod 10)]" by (subst digits.simps) simp
      then have e: "digits (n div 10) = digits (m div 10)" "digit_char (n mod 10) = digit_char (m mod 10)"
        using dn 1(2) by simp_all
      have "n div 10 = m div 10" using 1(1) [OF False e(1)] .
      moreover have "n mod 10 = m mod 10" using digit_char_inj [OF _ _ e(2)] by simp
      ultimately show ?thesis by (metis div_mult_mod_eq)
    qed
  qed
qed

lemma getRawNodeKey_inj:
  "0 \<le> i \<Longrightarrow> 0 \<le> j \<Longrightarrow> getRawNodeKey nodeID i = getRawNodeKey nodeID j \<Longrightarrow> i = j"
  using digits_inj [of "nat i" "nat j"] by (simp add: getRawNodeKey_def itoa_def)

lemma getRawNodeKey_neq: "getRawNodeKey nodeID i \<noteq> nodeID"
  by (simp add: getRawNodeKey_def)

lemma getRawNodeKey_node: "getRawNodeKey n1 i = getRawNodeKey n2 j \<Longrightarrow> n1 = n2"
  using getNodeID_raw [of n1 i] getNodeID_raw [of n2 j] by simp

subsection \<open>Frames of the engine operations\<close>

lemma slots_cong: "heap s' = heap s \<Longrightarrow> slots s' = slots s"
  unfolding slots_def by (simp cong: option.case_cong)

lemma slot_map_cong: "heap s' = heap s \<Longrightarrow> slot_map s' = slot_map s"
  using slots_cong [of s' s] by (simp add: slot_map_def)

lemma skiplist_inv_cong: "heap s' = heap s \<Longrightarrow> skiplist_inv s' = skiplist_inv s"
  unfolding skiplist_inv_def by (simp cong: option.case_cong)

lemma vkeys_owned_cong:
  "heap s' = heap s \<Longrightarrow> nodeToReplicas s' = nodeToReplicas s \<Longrightarrow> vkeys_owned c s' = vkeys_owned c s"
  using slots_cong [of s' s] unfolding vkeys_owned_def by (simp cong: option.case_cong prod.case_cong)

lemma ring_inv_cong:
  "heap s' = heap s \<Longrightarrow> nodeToReplicas s' = nodeToReplicas s \<Longrightarrow> ring_inv c s' = ring_inv c s"
  using skiplist_inv_cong [of s' s] vkeys_owned_cong [of s' s c] by (simp add: ring_inv_def)

lemma postI: "(\<And>x. m = Some x \<Longrightarrow> P x) \<Longrightarrow> post m P"
  by (cases m) (simp_all add: post_def)

lemma postD: "post m P \<Longrightarrow> m = Some x \<Longrightarrow> P x"
  by (simp add: post_def)

lemma post_Some [simp]: "post (Some x) P = P x"
  by (simp add: post_def)

lemma post_None [simp]: "post None P"
  by (simp add: post_def)

lemma post_bind: "(\<And>v. m = Some v \<Longrightarrow> post (f v) P) \<Longrightarrow> post (Option.bind m f) P"
  by (cases m) simp_all

lemma post_if: "(b \<Longrightarrow> post x P) \<Longrightarrow> (\<not> b \<Longrightarrow> post y P) \<Longrightarrow> post (if b then x else y) P"
  by simp

lemma post_case_sum:
  "(\<And>a. r = Inl a \<Longrightarrow> post (f a) P) \<Longrightarrow> (\<And>b. r = Inr b \<Longrightarrow> post (g b) P) \<Longrightarrow> post (case r of Inl a \<Rightarrow> f a | Inr b \<Rightarrow> g b) P"
  by (cases r) simp_all

lemma post_case_option:
  "(r = None \<Longrightarrow> post x P) \<Longrightarrow> (\<And>b. r = Some b \<Longrightarrow> post (g b) P) \<Longrightarrow> post (case r of None \<Rightarrow> x | Some b \<Rightarrow> g b) P"
  by (cases r) simp_all

lemma post_case_prod:
  "(\<And>a b. r = (a, b) \<Longrightarrow> post (f a b) P) \<Longrightarrow> post (case r of (a, b) \<Rightarrow> f a b) P"
  by (cases r) simp_all

lemmas post_intros = post_bind post_if post_case_sum post_case_option post_case_prod

lemma AddNodeToDataKeys_frame [simp]:
  "heap (AddNodeToDataKeys s n ks) = heap s" "nodeToReplicas (AddNodeToDataKeys s n ks) = nodeToReplicas s"
  by (simp_all add: AddNodeToDataKeys_def)

lemma DeleteNodeToDataKeys_frame [simp]:
  "heap (DeleteNodeToDataKeys s n ks) = heap s" "nodeToReplicas (DeleteNodeToDataKeys s n ks) = nodeToReplicas s"
  by (simp_all add: DeleteNodeToDataKeys_def split: option.splits)

lemma migrateIn_post:
  "post (migrateIn c vs nodeID s) (\<lambda>(r, s'). heap s' = heap s \<and> nodeToReplicas s' = nodeToReplicas s)"
  unfolding migrateIn_def Let_def
  by (intro post_intros) simp_all

lemma migrateIn_frame:
  assumes "migrateIn c vs nodeID s = Some (r, s')"
  shows "heap s' = heap s \<and> nodeToReplicas s' = nodeToReplicas s"
  using postD [OF migrateIn_post assms] by simp

lemma migrateOut_deferred_post:
  "post (migrateOut_deferred nodeID s e m) (\<lambda>(r, s'). heap s' = heap s \<and> nodeToReplicas s' = nodeToReplicas s)"
  unfolding migrateOut_deferred_def Let_def
  by (intro post_intros) simp_all

lemma migrateOut_post:
  "post (migrateOut c vs nodeID s) (\<lambda>(r, s'). heap s' = heap s \<and> nodeToReplicas s' = nodeToReplicas s)"
  unfolding migrateOut_def Let_def
  by (intro post_intros migrateOut_deferred_post) simp_all

lemma migrateOut_frame:
  assumes "migrateOut c vs nodeID s = Some (r, s')"
  shows "heap s' = heap s \<and> nodeToReplicas s' = nodeToReplicas s"
  using postD [OF migrateOut_post assms] by simp

lemma migrateIn_nil: "\<not> migrator c \<Longrightarrow> migrateIn c vs nodeID s = Some (Inr ([], [], {}), s)"
  by (simp add: migrateIn_def)

lemma migrateOut_nil: "\<not> migrator c \<Longrightarrow> migrateOut c vs nodeID s = Some (Inr ([], [], {}), s)"
  by (simp add: migrateOut_def)

lemma GetNode_post:
  "post (GetNode c k s) (\<lambda>(r, s'). heap s' = heap s \<and> nodeToReplicas s' = nodeToReplicas s)"
  unfolding GetNode_def Let_def
  by (intro post_intros) simp_all

lemma GetNode_frame:
  assumes "GetNode c k s = Some (r, s')"
  shows "heap s' = heap s \<and> nodeToReplicas s' = nodeToReplicas s"
  using postD [OF GetNode_post assms] by simp

subsection \<open>The ring invariants in terms of the slot map\<close>

lemma slots_mem_iff:
  assumes inv: "skiplist_inv s"
  shows "((k, ids) \<in> set (slots s)) = (slot_map s k = Some ids)"
proof -
  obtain as where wf: "wf_skiplist (heap s) as" using inv skiplist_inv_iff by blast
  have "((k, ids) \<in> set (slots s)) = (\<exists>t \<in> set as. score (heap s ! t) = k \<and> nodeIDs (heap s ! t) = ids)"
    by (auto simp: wf_slots [OF wf])
  then show ?thesis using slot_map_iff [OF wf, of k ids] by simp
qed

lemma slot_ids:
  assumes inv: "skiplist_inv s" and sm: "slot_map s k = Some ids"
  shows "ids \<noteq> [] \<and> distinct ids"
proof -
  obtain as where wf: "wf_skiplist (heap s) as" using inv skiplist_inv_iff by blast
  obtain t where "t \<in> set as" "nodeIDs (heap s ! t) = ids" using slot_map_iff [OF wf, of k ids] sm by blast
  then show ?thesis using wf by (auto simp: wf_skiplist_alt)
qed

lemma vkeys_owned_iff:
  assumes inv: "skiplist_inv s"
  shows "vkeys_owned c s =
    (\<forall>k ids v. slot_map s k = Some ids \<and> v \<in> set ids \<longrightarrow>
       (\<exists>nodeID n i. nodeToReplicas s nodeID = Some n \<and> 0 \<le> i \<and> i < n
          \<and> v = getRawNodeKey nodeID i \<and> k = encryptor c v))"
proof
  assume o: "vkeys_owned c s"
  show "\<forall>k ids v. slot_map s k = Some ids \<and> v \<in> set ids \<longrightarrow>
       (\<exists>nodeID n i. nodeToReplicas s nodeID = Some n \<and> 0 \<le> i \<and> i < n
          \<and> v = getRawNodeKey nodeID i \<and> k = encryptor c v)"
  proof (intro allI impI)
    fix k ids v assume a: "slot_map s k = Some ids \<and> v \<in> set ids"
    then have m: "(k, ids) \<in> set (slots s)" using slots_mem_iff [OF inv] by simp
    have "case getNodeID v of None \<Rightarrow> False
        | Some nodeID \<Rightarrow>
            (case nodeToReplicas s nodeID of None \<Rightarrow> False
             | Some n \<Rightarrow> (\<exists>i \<in> {0 ..< n}. v = getRawNodeKey nodeID i) \<and> k = encryptor c v)"
      using o m a unfolding vkeys_owned_def by fast
    then show "\<exists>nodeID n i. nodeToReplicas s nodeID = Some n \<and> 0 \<le> i \<and> i < n
          \<and> v = getRawNodeKey nodeID i \<and> k = encryptor c v"
      by (fastforce split: option.splits)
  qed
next
  assume r: "\<forall>k ids v. slot_map s k = Some ids \<and> v \<in> set ids \<longrightarrow>
       (\<exists>nodeID n i. nodeToReplicas s nodeID = Some n \<and> 0 \<le> i \<and> i < n
          \<and> v = getRawNodeKey nodeID i \<and> k = encryptor c v)"
  show "vkeys_owned c s"
    unfolding vkeys_owned_def
  proof (intro ballI, clarify)
    fix k ids v assume m: "(k, ids) \<in> set (slots s)" and v: "v \<in> set ids"
    have "slot_map s k = Some ids" using m slots_mem_iff [OF inv] by simp
    then obtain nodeID n i where x: "nodeToReplicas s nodeID = Some n" "0 \<le> i" "i < n"
        "v = getRawNodeKey nodeID i" "k = encryptor c v"
      using r v by blast
    have "getNodeID v = Some nodeID" using x(4) getNodeID_raw by simp
    then show "case getNodeID v of None \<Rightarrow> False
        | Some nodeID \<Rightarrow>
            (case nodeToReplicas s nodeID of None \<Rightarrow> False
             | Some n \<Rightarrow> (\<exists>i \<in> {0 ..< n}. v = getRawNodeKey nodeID i) \<and> k = encryptor c v)"
      using x by auto
  qed
qed

lemma vkeys_decode_iff:
  assumes inv: "skiplist_inv s"
  shows "vkeys_decode s =
    (\<forall>k ids v. slot_map s k = Some ids \<and> v \<in> set ids \<longrightarrow>
       (\<exists>nodeID. getNodeID v = Some nodeID \<and> nodeToReplicas s nodeID \<noteq> None))"
proof
  assume o: "vkeys_decode s"
  show "\<forall>k ids v. slot_map s k = Some ids \<and> v \<in> set ids \<longrightarrow>
       (\<exists>nodeID. getNodeID v = Some nodeID \<and> nodeToReplicas s nodeID \<noteq> None)"
  proof (intro allI impI)
    fix k ids v assume a: "slot_map s k = Some ids \<and> v \<in> set ids"
    then have m: "(k, ids) \<in> set (slots s)" using slots_mem_iff [OF inv] by simp
    have "case getNodeID v of None \<Rightarrow> False | Some nodeID \<Rightarrow> nodeToReplicas s nodeID \<noteq> None"
      using o m a unfolding vkeys_decode_def by fast
    then show "\<exists>nodeID. getNodeID v = Some nodeID \<and> nodeToReplicas s nodeID \<noteq> None"
      by (auto split: option.splits)
  qed
next
  assume r: "\<forall>k ids v. slot_map s k = Some ids \<and> v \<in> set ids \<longrightarrow>
       (\<exists>nodeID. getNodeID v = Some nodeID \<and> nodeToReplicas s nodeID \<noteq> None)"
  show "vkeys_decode s"
    unfolding vkeys_decode_def
  proof (intro ballI, clarify)
    fix k ids v assume m: "(k, ids) \<in> set (slots s)" and v: "v \<in> set ids"
    have "slot_map s k = Some ids" using m slots_mem_iff [OF inv] by simp
    then obtain nodeID where "getNodeID v = Some nodeID" "nodeToReplicas s nodeID \<noteq> None"
      using r v by blast
    then show "case getNodeID v of None \<Rightarrow> False | Some nodeID \<Rightarrow> nodeToReplicas s nodeID \<noteq> None"
      by simp
  qed
qed

lemma owned_decode:
  assumes "ring_inv c s"
  shows "vkeys_decode s"
proof -
  have inv: "skiplist_inv s" and o: "vkeys_owned c s" using assms by (simp_all add: ring_inv_def)
  show ?thesis
    unfolding vkeys_decode_iff [OF inv]
  proof (intro allI impI)
    fix k ids v assume "slot_map s k = Some ids \<and> v \<in> set ids"
    then obtain nodeID n i where "nodeToReplicas s nodeID = Some n" "v = getRawNodeKey nodeID i"
      using o vkeys_owned_iff [OF inv, of c] by blast
    then show "\<exists>nodeID. getNodeID v = Some nodeID \<and> nodeToReplicas s nodeID \<noteq> None"
      using getNodeID_raw by auto
  qed
qed

lemma node_present_iff:
  "node_present c s nodeID n =
     (\<forall>i. 0 \<le> i \<and> i < n \<longrightarrow>
        (\<exists>ids. slot_map s (encryptor c (getRawNodeKey nodeID i)) = Some ids \<and> getRawNodeKey nodeID i \<in> set ids))"
  unfolding node_present_def by (fastforce split: option.splits)

lemma ring_inv_new: "ring_inv c NewSkiplistHashRing"
proof -
  have i: "skiplist_inv NewSkiplistHashRing" by code_simp
  have "slots NewSkiplistHashRing = []" by code_simp
  then show ?thesis using i by (simp add: ring_inv_def vkeys_owned_def)
qed

subsection \<open>Removing a node without migrator\<close>

lemma two_in_list: "a \<in> set xs \<Longrightarrow> b \<in> set xs \<Longrightarrow> a \<noteq> b \<Longrightarrow> 1 < length xs"
  by (cases xs; cases "tl xs") auto

lemma RemoveNode_step_nil:
  assumes nm: "\<not> migrator c"
  shows "RemoveNode_loop c nodeID (Suc m) i tasks s =
     do {
       (e, s2) \<leftarrow> Rem (encryptor c (getRawNodeKey nodeID (int i))) (getRawNodeKey nodeID (int i)) s;
       case e of
         Some err \<Rightarrow> Some (Inl err, s2)
       | None \<Rightarrow> RemoveNode_loop c nodeID m (i + 1) tasks s2
     }"
  using migrateOut_nil [OF nm] by (simp add: getRawNodeKey_def Let_def)

lemma RemoveNode_loop_nil:
  assumes nm: "\<not> migrator c"
  shows "skiplist_inv s \<Longrightarrow>
     (\<forall>j. int i \<le> j \<and> j < int i + int m \<longrightarrow>
        (\<exists>ids. slot_map s (encryptor c (getRawNodeKey nodeID j)) = Some ids \<and> getRawNodeKey nodeID j \<in> set ids)) \<Longrightarrow>
     \<exists>s'. RemoveNode_loop c nodeID m i tasks s = Some (Inr tasks, s') \<and> skiplist_inv s'
       \<and> nodeToReplicas s' = nodeToReplicas s
       \<and> (\<forall>x. (\<forall>j. int i \<le> j \<and> j < int i + int m \<longrightarrow> x \<noteq> getRawNodeKey nodeID j)
             \<longrightarrow> nodeToDataKey s' x = nodeToDataKey s x)
       \<and> (\<forall>k ids v. slot_map s' k = Some ids \<and> v \<in> set ids \<longrightarrow>
             (\<exists>ids0. slot_map s k = Some ids0 \<and> v \<in> set ids0)
             \<and> (\<forall>j. int i \<le> j \<and> j < int i + int m \<and> k = encryptor c (getRawNodeKey nodeID j)
                    \<longrightarrow> v \<noteq> getRawNodeKey nodeID j))"
proof (induction m arbitrary: i s)
  case 0
  then show ?case by auto
next
  case (Suc m)
  let ?r = "getRawNodeKey nodeID (int i)"
  let ?vs = "encryptor c ?r"
  obtain ids where ids: "slot_map s ?vs = Some ids" "?r \<in> set ids"
    using Suc.prems(2) by force
  have di: "ids \<noteq> []" "distinct ids" using slot_ids [OF Suc.prems(1) ids(1)] by simp_all
  obtain s1 where s1: "Rem ?vs ?r s = Some (None, s1)" "skiplist_inv s1"
      "slot_map s1 = (if length ids > 1 then (slot_map s)(?vs \<mapsto> remove1 ?r ids) else (slot_map s)(?vs := None))"
      "nodeToReplicas s1 = nodeToReplicas s" "nodeToDataKey s1 = (nodeToDataKey s)(?r := None)"
    using Rem_spec [OF Suc.prems(1) ids] by blast
  have step: "RemoveNode_loop c nodeID (Suc m) i tasks s = RemoveNode_loop c nodeID m (i + 1) tasks s1"
    using RemoveNode_step_nil [OF nm, of nodeID m i tasks s] s1(1) by simp
  have pres: "\<forall>j. int (i + 1) \<le> j \<and> j < int (i + 1) + int m \<longrightarrow>
        (\<exists>ids. slot_map s1 (encryptor c (getRawNodeKey nodeID j)) = Some ids \<and> getRawNodeKey nodeID j \<in> set ids)"
  proof (intro allI impI)
    fix j assume j: "int (i + 1) \<le> j \<and> j < int (i + 1) + int m"
    then have "int i \<le> j \<and> j < int i + int (Suc m)" by simp
    then obtain idsj where idsj: "slot_map s (encryptor c (getRawNodeKey nodeID j)) = Some idsj"
        "getRawNodeKey nodeID j \<in> set idsj"
      using Suc.prems(2) by blast
    have ne: "getRawNodeKey nodeID j \<noteq> ?r"
      using getRawNodeKey_inj [of j "int i" nodeID] j by auto
    show "\<exists>ids. slot_map s1 (encryptor c (getRawNodeKey nodeID j)) = Some ids \<and> getRawNodeKey nodeID j \<in> set ids"
    proof (cases "encryptor c (getRawNodeKey nodeID j) = ?vs")
      case True
      then have e: "idsj = ids" using idsj(1) ids(1) by simp
      then have "1 < length ids" using two_in_list [OF idsj(2) _ ne] ids(2) by simp
      then have "slot_map s1 ?vs = Some (remove1 ?r ids)" using s1(3) by simp
      moreover have "getRawNodeKey nodeID j \<in> set (remove1 ?r ids)" using idsj(2) e ne by simp
      ultimately show ?thesis using True by simp
    next
      case False
      then have "slot_map s1 (encryptor c (getRawNodeKey nodeID j)) = slot_map s (encryptor c (getRawNodeKey nodeID j))"
        using s1(3) by simp
      then show ?thesis using idsj by simp
    qed
  qed
  obtain s' where s': "RemoveNode_loop c nodeID m (i + 1) tasks s1 = Some (Inr tasks, s')" "skiplist_inv s'"
      "nodeToReplicas s' = nodeToReplicas s1"
      "\<forall>x. (\<forall>j. int (i + 1) \<le> j \<and> j < int (i + 1) + int m \<longrightarrow> x \<noteq> getRawNodeKey nodeID j)
             \<longrightarrow> nodeToDataKey s' x = nodeToDataKey s1 x"
      "\<forall>k ids v. slot_map s' k = Some ids \<and> v \<in> set ids \<longrightarrow>
             (\<exists>ids0. slot_map s1 k = Some ids0 \<and> v \<in> set ids0)
             \<and> (\<forall>j. int (i + 1) \<le> j \<and> j < int (i + 1) + int m \<and> k = encryptor c (getRawNodeKey nodeID j)
                    \<longrightarrow> v \<noteq> getRawNodeKey nodeID j)"
    using Suc.IH [OF s1(2) pres] by blast
  have dk: "\<forall>x. (\<forall>j. int i \<le> j \<and> j < int i + int (Suc m) \<longrightarrow> x \<noteq> getRawNodeKey nodeID j)
             \<longrightarrow> nodeToDataKey s' x = nodeToDataKey s x"
  proof (intro allI impI)
    fix x assume x: "\<forall>j. int i \<le> j \<and> j < int i + int (Suc m) \<longrightarrow> x \<noteq> getRawNodeKey nodeID j"
    then have "\<forall>j. int (i + 1) \<le> j \<and> j < int (i + 1) + int m \<longrightarrow> x \<noteq> getRawNodeKey nodeID j" by simp
    then have "nodeToDataKey s' x = nodeToDataKey s1 x" using s'(4) by blast
    moreover have "x \<noteq> ?r" using x by simp
    ultimately show "nodeToDataKey s' x = nodeToDataKey s x" using s1(5) by simp
  qed
  have sl: "\<forall>k ids' v. slot_map s' k = Some ids' \<and> v \<in> set ids' \<longrightarrow>
             (\<exists>ids0. slot_map s k = Some ids0 \<and> v \<in> set ids0)
             \<and> (\<forall>j. int i \<le> j \<and> j < int i + int (Suc m) \<and> k = encryptor c (getRawNodeKey nodeID j)
                    \<longrightarrow> v \<noteq> getRawNodeKey nodeID j)"
  proof (intro allI impI)
    fix k ids' v assume a: "slot_map s' k = Some ids' \<and> v \<in> set ids'"
    then obtain ids1 where ids1: "slot_map s1 k = Some ids1" "v \<in> set ids1"
      and rest: "\<forall>j. int (i + 1) \<le> j \<and> j < int (i + 1) + int m \<and> k = encryptor c (getRawNodeKey nodeID j)
                    \<longrightarrow> v \<noteq> getRawNodeKey nodeID j"
      using s'(5) by blast
    have old: "(\<exists>ids0. slot_map s k = Some ids0 \<and> v \<in> set ids0) \<and> (k = ?vs \<longrightarrow> v \<noteq> ?r)"
    proof (cases "k = ?vs")
      case True
      show ?thesis
      proof (cases "length ids > 1")
        case l: True
        then have "ids1 = remove1 ?r ids" using s1(3) ids1(1) True by simp
        then have "v \<in> set ids \<and> v \<noteq> ?r" using ids1(2) di(2) by auto
        then show ?thesis using ids(1) True by simp
      next
        case False
        then have "slot_map s1 ?vs = None" using s1(3) by simp
        then show ?thesis using ids1(1) True by simp
      qed
    next
      case False
      then have "slot_map s1 k = slot_map s k" using s1(3) by simp
      then have "slot_map s k = Some ids1" using ids1(1) by simp
      then show ?thesis using ids1(2) False by blast
    qed
    have "\<forall>j. int i \<le> j \<and> j < int i + int (Suc m) \<and> k = encryptor c (getRawNodeKey nodeID j)
                    \<longrightarrow> v \<noteq> getRawNodeKey nodeID j"
    proof (intro allI impI)
      fix j assume j: "int i \<le> j \<and> j < int i + int (Suc m) \<and> k = encryptor c (getRawNodeKey nodeID j)"
      show "v \<noteq> getRawNodeKey nodeID j"
      proof (cases "j = int i")
        case True
        then show ?thesis using old j by simp
      next
        case False
        then have "int (i + 1) \<le> j \<and> j < int (i + 1) + int m \<and> k = encryptor c (getRawNodeKey nodeID j)"
          using j by simp
        then show ?thesis using rest by blast
      qed
    qed
    then show "(\<exists>ids0. slot_map s k = Some ids0 \<and> v \<in> set ids0)
             \<and> (\<forall>j. int i \<le> j \<and> j < int i + int (Suc m) \<and> k = encryptor c (getRawNodeKey nodeID j)
                    \<longrightarrow> v \<noteq> getRawNodeKey nodeID j)"
      using old by blast
  qed
  have run: "RemoveNode_loop c nodeID (Suc m) i tasks s = Some (Inr tasks, s')"
    using step s'(1) by (simp del: RemoveNode_loop.simps)
  have rep: "nodeToReplicas s' = nodeToReplicas s" using s'(3) s1(4) by simp
  show ?case using run s'(2) rep dk sl by blast
qed

subsection \<open>Claims on the skiplist ring\<close>

text \<open>
  C5. On a well-formed skiplist ring, \<^verbatim>\<open>Ceiling(sc)\<close> returns \<open>-1\<close> when the ring
  has no slots, else the smallest slot score \<open>\<ge> sc\<close> when there is one, else
  the smallest slot score of all. When \<open>sc\<close> is itself a slot score,
  \<^verbatim>\<open>Ceiling(sc)\<close> and \<^verbatim>\<open>Floor(sc)\<close> both return \<open>sc\<close>.
\<close>

theorem C5_Ceiling_Floor:
  assumes "skiplist_inv s"
  shows "Ceiling s sc = Some
           (if slot_scores s = {} then - 1
            else if \<exists>k \<in> slot_scores s. sc \<le> k then Min {k \<in> slot_scores s. sc \<le> k}
            else Min (slot_scores s))
         \<and> (sc \<in> slot_scores s \<longrightarrow> Ceiling s sc = Some sc \<and> Floor s sc = Some sc)"
proof -
  have c: "Ceiling s sc = Some
           (if slot_scores s = {} then - 1
            else if \<exists>k \<in> slot_scores s. sc \<le> k then Min {k \<in> slot_scores s. sc \<le> k}
            else Min (slot_scores s))" using assms by (rule Ceiling_spec)
  have f: "Floor s sc = Some
           (if slot_scores s = {} then - 1
            else if \<exists>k \<in> slot_scores s. k \<le> sc then Max {k \<in> slot_scores s. k \<le> sc}
            else Max (slot_scores s))" using assms by (rule Floor_spec)
  have "sc \<in> slot_scores s \<Longrightarrow> Ceiling s sc = Some sc \<and> Floor s sc = Some sc"
  proof -
    assume m: "sc \<in> slot_scores s"
    have "Min {k \<in> slot_scores s. sc \<le> k} = sc"
      by (rule Min_eqI) (use m finite_slot_scores in auto)
    moreover have "Max {k \<in> slot_scores s. k \<le> sc} = sc"
      by (rule Max_eqI) (use m finite_slot_scores in auto)
    moreover have "\<exists>k \<in> slot_scores s. sc \<le> k" "\<exists>k \<in> slot_scores s. k \<le> sc" "slot_scores s \<noteq> {}"
      using m by auto
    ultimately show ?thesis using c f by simp
  qed
  then show ?thesis using c by blast
qed

theorem C5_Ceiling_Floor_witness:
  "skiplist_inv ring_AB \<and> slot_scores ring_AB = {10, 2147483637}
   \<and> Ceiling ring_AB 5 = Some 10 \<and> Ceiling ring_AB 2147483640 = Some 10
   \<and> Ceiling ring_AB 10 = Some 10 \<and> Floor ring_AB 10 = Some 10
   \<and> skiplist_inv NewSkiplistHashRing \<and> slot_scores NewSkiplistHashRing = {}
   \<and> Ceiling NewSkiplistHashRing 5 = Some (- 1)"
proof -
  have i: "skiplist_inv ring_AB" by code_simp
  have s: "slot_scores ring_AB = {10, 2147483637}" by code_simp
  have j: "skiplist_inv NewSkiplistHashRing" by code_simp
  have e: "slot_scores NewSkiplistHashRing = {}" by code_simp
  have m1: "Min {k \<in> {10, 2147483637 :: int}. 5 \<le> k} = 10" by (rule Min_eqI) auto
  have m2: "Min {10, 2147483637 :: int} = 10" by simp
  have m3: "Min {k \<in> {10, 2147483637 :: int}. 10 \<le> k} = 10" by (rule Min_eqI) auto
  show ?thesis
    using C5_Ceiling_Floor [OF i, of 5] C5_Ceiling_Floor [OF i, of 2147483640]
      C5_Ceiling_Floor [OF i, of 10] C5_Ceiling_Floor [OF j, of 5] i j s e m1 m2 m3
    by simp
qed

text \<open>
  C7. On a well-formed skiplist ring \<^verbatim>\<open>Add(sc, v)\<close> returns, and a second
  \<^verbatim>\<open>Add(sc, v)\<close>, whatever level it would draw, returns the ring of the first
  unchanged. \<^verbatim>\<open>AddNodeToDataKeys\<close> twice with the same keys is the same as
  once, and with keys that the node already holds it changes nothing.
\<close>

theorem C7_idempotence:
  assumes "skiplist_inv s"
  shows "(\<exists>s1. Add rl sc v s = Some (None, s1) \<and> Add rl' sc v s1 = Some (None, s1))
     \<and> AddNodeToDataKeys (AddNodeToDataKeys s n ks) n ks = AddNodeToDataKeys s n ks
     \<and> (\<forall>old. nodeToDataKey s n = Some old \<and> ks \<subseteq> old \<longrightarrow> AddNodeToDataKeys s n ks = s)"
proof -
  obtain s1 where s1: "Add rl sc v s = Some (None, s1)" "skiplist_inv s1"
      "slot_map s1 = (slot_map s)(sc \<mapsto>
          (case slot_map s sc of None \<Rightarrow> [v] | Some ids \<Rightarrow> if v \<in> set ids then ids else ids @ [v]))"
    using Add_spec [OF assms, of rl sc v] by blast
  obtain ids where ids: "slot_map s1 sc = Some ids" "v \<in> set ids"
    using s1(3) by (cases "slot_map s sc") auto
  obtain s2 where s2: "Add rl' sc v s1 = Some (None, s2)"
      "\<forall>ids. slot_map s1 sc = Some ids \<and> v \<in> set ids \<longrightarrow> s2 = s1"
    using Add_spec [OF s1(2), of rl' sc v] by blast
  have "s2 = s1" using s2(2) ids by blast
  then have a: "\<exists>s1. Add rl sc v s = Some (None, s1) \<and> Add rl' sc v s1 = Some (None, s1)"
    using s1(1) s2(1) by blast
  have b: "AddNodeToDataKeys (AddNodeToDataKeys s n ks) n ks = AddNodeToDataKeys s n ks"
    by (simp add: AddNodeToDataKeys_def)
  have c: "\<forall>old. nodeToDataKey s n = Some old \<and> ks \<subseteq> old \<longrightarrow> AddNodeToDataKeys s n ks = s"
    by (auto simp: AddNodeToDataKeys_def Un_absorb2 map_upd_triv)
  show ?thesis using a b c by blast
qed

theorem C7_idempotence_witness:
  "skiplist_inv ring_AB
   \<and> (\<exists>s1. Add 3 7 ''C_0'' ring_AB = Some (None, s1) \<and> Add 0 7 ''C_0'' s1 = Some (None, s1))
   \<and> nodeToDataKey ring_AB ''A'' = Some {''d''} \<and> {''d''} \<subseteq> {''d''}
   \<and> AddNodeToDataKeys ring_AB ''A'' {''d''} = ring_AB"
proof -
  have i: "skiplist_inv ring_AB" by code_simp
  have d: "nodeToDataKey ring_AB ''A'' = Some {''d''}" by (simp add: ring_AB_def ring_B_def)
  show ?thesis using C7_idempotence [OF i, of 3 7 "''C_0''" 0 "''A''" "{''d''}"] i d by simp
qed

text \<open>
  C10. A successful \<^verbatim>\<open>Rem(sc, v)\<close> on a well-formed skiplist ring deletes the
  Node\<rightarrow>DataKeys entry stored under the key \<open>v\<close> itself and no other, leaves
  Node\<rightarrow>Replicas as it is, removes \<open>v\<close> from the slot of \<open>sc\<close>, and removes
  that slot when \<open>v\<close> was its only key; the ring stays well-formed.
\<close>

theorem C10_Rem_frame:
  assumes "skiplist_inv s" and "Rem sc v s = Some (None, s')"
  shows "nodeToDataKey s' = (nodeToDataKey s)(v := None)
     \<and> nodeToReplicas s' = nodeToReplicas s
     \<and> (\<exists>ids. slot_map s sc = Some ids \<and> v \<in> set ids
          \<and> slot_map s' = (if length ids > 1 then (slot_map s)(sc \<mapsto> remove1 v ids)
                           else (slot_map s)(sc := None)))
     \<and> skiplist_inv s'"
proof (cases "slot_map s sc")
  case None
  then show ?thesis using Rem_spec_absent [OF assms(1) None, of v] assms(2) by simp
next
  case (Some ids)
  show ?thesis
  proof (cases "v \<in> set ids")
    case False
    then show ?thesis using Rem_spec_missing [OF assms(1) Some False] assms(2) by simp
  next
    case True
    then show ?thesis using Rem_spec [OF assms(1) Some True] assms(2) Some by auto
  qed
qed

theorem C10_Rem_frame_witness:
  "skiplist_inv ring_AB
   \<and> Rem 10 ''A_0'' ring_AB = Some (None, ring_AB\<lparr>nodeToDataKey := (nodeToDataKey ring_AB)(''A_0'' := None),
        heap := [\<lparr>score = 0, nodeIDs = [], nexts = [Some 2]\<rparr>,
                 \<lparr>score = 10, nodeIDs = [''A_0''], nexts = [Some 2, None]\<rparr>,
                 \<lparr>score = 2147483637, nodeIDs = [''B_0''], nexts = [None]\<rparr>]\<rparr>)
   \<and> slot_map ring_AB 10 = Some [''A_0'']
   \<and> slot_map (ring_AB\<lparr>nodeToDataKey := (nodeToDataKey ring_AB)(''A_0'' := None),
        heap := [\<lparr>score = 0, nodeIDs = [], nexts = [Some 2]\<rparr>,
                 \<lparr>score = 10, nodeIDs = [''A_0''], nexts = [Some 2, None]\<rparr>,
                 \<lparr>score = 2147483637, nodeIDs = [''B_0''], nexts = [None]\<rparr>]\<rparr>)
       = (slot_map ring_AB)(10 := None)"
proof -
  have i: "skiplist_inv ring_AB" by code_simp
  have r: "Rem 10 ''A_0'' ring_AB = Some (None, ring_AB\<lparr>nodeToDataKey := (nodeToDataKey ring_AB)(''A_0'' := None),
        heap := [\<lparr>score = 0, nodeIDs = [], nexts = [Some 2]\<rparr>,
                 \<lparr>score = 10, nodeIDs = [''A_0''], nexts = [Some 2, None]\<rparr>,
                 \<lparr>score = 2147483637, nodeIDs = [''B_0''], nexts = [None]\<rparr>]\<rparr>)"
    by (simp add: Rem_def ring_AB_def ring_B_def get_def node_at_def next_at_def set_next_def trim_root_def seek.simps Let_def)
  have m: "slot_map ring_AB 10 = Some [''A_0'']" by code_simp
  show ?thesis using C10_Rem_frame [OF i r] i r m by auto
qed

subsection \<open>Scenarios\<close>

lemma levels_numeral:
  "insert_levels h new sc (numeral k) move =
     do {
       m \<leftarrow> seek h (pred_numeral k) sc move;
       nx \<leftarrow> next_at h m (pred_numeral k);
       h1 \<leftarrow> set_next h new (pred_numeral k) nx;
       h2 \<leftarrow> set_next h1 m (pred_numeral k) (Some new);
       insert_levels h2 new sc (pred_numeral k) m
     }"
  "unlink_levels h sc (numeral k) move =
     do {
       m \<leftarrow> seek h (pred_numeral k) sc move;
       nx \<leftarrow> next_at h m (pred_numeral k);
       case nx of
         None \<Rightarrow> unlink_levels h sc (pred_numeral k) m
       | Some t \<Rightarrow>
           do {
             tn \<leftarrow> node_at h t;
             if score tn > sc then unlink_levels h sc (pred_numeral k) m
             else do {
               tnx \<leftarrow> next_at h t (pred_numeral k);
               h1 \<leftarrow> set_next h m (pred_numeral k) tnx;
               unlink_levels h1 sc (pred_numeral k) m
             }
           }
     }"
  "get_from h sc (numeral k) move =
     do {
       m \<leftarrow> seek h (pred_numeral k) sc move;
       nx \<leftarrow> next_at h m (pred_numeral k);
       case nx of
         None \<Rightarrow> get_from h sc (pred_numeral k) m
       | Some t \<Rightarrow>
           do {
             tn \<leftarrow> node_at h t;
             if score tn = sc then Some (Some t) else get_from h sc (pred_numeral k) m
           }
     }"
  "descend h sc (numeral k) move = do { m \<leftarrow> seek h (pred_numeral k) sc move; descend h sc (pred_numeral k) m }"
  "descend_end h (numeral k) move = do { m \<leftarrow> seek_end h (pred_numeral k) move; descend_end h (pred_numeral k) m }"
  "replicate (numeral k) x = x # replicate (pred_numeral k) x"
  "(y # ys)[numeral k := z] = y # ys[pred_numeral k := z]"
  by (simp_all add: numeral_eq_Suc)

lemmas run_simps =
  AddNode_def AddNode_loop.simps RemoveNode_def RemoveNode_loop.simps GetNode_def
  Add_def Rem_def get_def get_from.simps seek.simps seek_end.simps node_at_def next_at_def set_next_def
  insert_levels.simps unlink_levels.simps trim_root_def index_of.simps
  Nodes_def AddNodeToReplica_def DeleteNodeToReplica_def
  getValidWeight_def getRawNodeKey_def itoa_def digits.simps digit_char_def
  migrateIn_def migrateOut_def migrateOut_deferred_def getValidNextNode.simps
  Node_def Floor_def Ceiling_def floor_def ceiling_def first_def last_slot_def
  descend.simps descend_end.simps decrScore_def incrScore_def MaxInt32_def wrap32_def
  getNodeID_def LastIndex_def DataKeys_def DeleteNodeToDataKeys_def AddNodeToDataKeys_def
  Let_def level_const_def Collect_conv_if levels_numeral

lemmas ring_simps =
  NewSkiplistHashRing_def ring_A_def ring_B_def ring_d_def ring_AB_def ring_X0_def ring_X_def
  ring_Ad_def ring_Ad_failed_def ring_P_def ring_PA_def ring_PR_def

lemma c_wrap_simps:
  "encryptor c_wrap = enc_wrap" "migrator c_wrap" "replicas (opts c_wrap) = 1"
  by (simp_all add: c_wrap_def NewConsistentHash_def repair_def)

lemma enc_wrap_simps:
  "enc_wrap ''A_0'' = 10" "enc_wrap ''B_0'' = MaxInt32 - 10" "enc_wrap ''d'' = 5" "enc_wrap ''X_0'' = 3"
  "enc_wrap ''A_0_0'' = 0"
  by (simp_all add: enc_wrap_def)

lemma arc_wrap: "in_arc True False (- 10) 3 5 = False"
  by (simp add: in_arc_def wrap32_def MaxInt32_def)

lemma step_A:
  assumes "replicas (opts c) = 1" "migrator c" "encryptor c ''A_0'' = 10"
  shows "AddNode c (level_const 1) ''A'' 1 NewSkiplistHashRing = Some (Inr [], ring_A)"
  using assms by (simp add: run_simps ring_simps)

lemma step_B:
  assumes "replicas (opts c) = 1" "migrator c" "encryptor c ''B_0'' = MaxInt32 - 10"
  shows "AddNode c (level_const 0) ''B'' 1 ring_A = Some (Inr [], ring_B)"
  using assms by (simp add: run_simps ring_simps)

lemma step_d:
  assumes "encryptor c ''d'' = 5"
  shows "GetNode c ''d'' ring_B = Some (Inr ''A_0'', ring_d)"
  using assms by (simp add: run_simps ring_simps)

lemma step_X0:
  "Add 2 3 ''X_0'' (AddNodeToReplica ring_d ''X'' 1) = Some (None, ring_X0)"
  by (simp add: run_simps ring_simps)

lemma step_mig:
  assumes "migrator c" "encryptor c ''d'' = 5"
  shows "migrateIn c 3 ''X'' ring_X0 = Some (Inr (''A'', ''X'', {}), ring_X)"
  using assms by (simp add: run_simps ring_simps arc_wrap)

lemma step_X:
  assumes "replicas (opts c) = 1" "migrator c" "encryptor c ''X_0'' = 3" "encryptor c ''d'' = 5"
  shows "AddNode c (level_const 2) ''X'' 1 ring_d = Some (Inr [], ring_X)"
  using assms by (simp add: run_simps ring_simps arc_wrap)

lemma obs_X: "DataKeys ring_X ''A'' = {''d''}" "DataKeys ring_X ''X'' = {}"
  by (simp_all add: DataKeys_def ring_simps)

text \<open>
  C1 (counterexample). The claim has the migration of \<^verbatim>\<open>AddNode("X")\<close> move \<open>d\<close>
  from \<open>A\<close> to \<open>X\<close>. In the scenario as the claim sets it up, \<^verbatim>\<open>GetNode("d")\<close>
  returns \<open>A_0\<close>, and when \<open>X_0\<close> is inserted on score \<open>3\<close> the move set that
  \<^verbatim>\<open>migrateIn\<close> computes is empty, no migration is handed to the migrator, and
  \<open>d\<close> stays registered on \<open>A\<close> and not on \<open>X\<close>.
\<close>

theorem C1_score_wrap_counterexample:
  "AddNode c_wrap (level_const 1) ''A'' 1 NewSkiplistHashRing = Some (Inr [], ring_A)
   \<and> AddNode c_wrap (level_const 0) ''B'' 1 ring_A = Some (Inr [], ring_B)
   \<and> GetNode c_wrap ''d'' ring_B = Some (Inr ''A_0'', ring_d)
   \<and> Add 2 3 ''X_0'' (AddNodeToReplica ring_d ''X'' 1) = Some (None, ring_X0)
   \<and> migrateIn c_wrap 3 ''X'' ring_X0 = Some (Inr (''A'', ''X'', {}), ring_X)
   \<and> AddNode c_wrap (level_const 2) ''X'' 1 ring_d = Some (Inr [], ring_X)
   \<and> DataKeys ring_X ''A'' = {''d''} \<and> ''d'' \<notin> DataKeys ring_X ''X''"
  using step_A [of c_wrap] step_B [of c_wrap] step_d [of c_wrap] step_X0 step_mig [of c_wrap] step_X [of c_wrap]
    obs_X
  by (simp add: c_wrap_simps enc_wrap_simps)

text \<open>
  C3 (the code at the failing input). One node \<open>A\<close> with a single virtual node,
  one registered data key, a migrator: \<^verbatim>\<open>RemoveNode("A")\<close> fails, and the message
  is "no other no". The node is gone from Node\<rightarrow>Replicas and its slot and data
  key are still there.
\<close>

theorem C3_sole_node_error_message:
  "AddNode c_wrap (level_const 1) ''A'' 1 NewSkiplistHashRing = Some (Inr [], ring_A)
   \<and> GetNode c_wrap ''d'' ring_A = Some (Inr ''A_0'', ring_Ad)
   \<and> dom (nodeToReplicas ring_Ad) = {''A''} \<and> DataKeys ring_Ad ''A'' = {''d''}
   \<and> migrator c_wrap
   \<and> RemoveNode c_wrap ''A'' ring_Ad = Some (Inl ''no other no'', ring_Ad_failed)"
proof -
  have 1: "GetNode c_wrap ''d'' ring_A = Some (Inr ''A_0'', ring_Ad)"
    by (simp add: run_simps ring_simps c_wrap_simps enc_wrap_simps)
  have 2: "RemoveNode c_wrap ''A'' ring_Ad = Some (Inl ''no other no'', ring_Ad_failed)"
    by (simp add: run_simps ring_simps c_wrap_simps enc_wrap_simps)
  have 3: "dom (nodeToReplicas ring_Ad) = {''A''}" "DataKeys ring_Ad ''A'' = {''d''}"
    by (simp_all add: DataKeys_def ring_simps)
  show ?thesis using step_A [of c_wrap] 1 2 3 by (simp add: c_wrap_simps enc_wrap_simps)
qed

text \<open>
  C6 (the code at the failing input). The ring holds the node \<open>A_0\<close>, with the
  data key \<open>d\<close>. \<^verbatim>\<open>AddNode("A", 1)\<close> creates the virtual node \<open>A_0\<close> and moves
  \<open>d\<close> to \<open>A\<close>; \<^verbatim>\<open>RemoveNode("A")\<close> moves \<open>d\<close> back to the node \<open>A_0\<close>, and then
  \<^verbatim>\<open>Rem\<close> of the virtual node \<open>A_0\<close> deletes the data keys stored under \<open>A_0\<close>.
  Slots and Node\<rightarrow>Replicas are as before \<^verbatim>\<open>AddNode\<close>; Node\<rightarrow>DataKeys is not.
\<close>

theorem C6_round_trip_loses_data_keys:
  "AddNode c_wrap (level_const 0) ''A_0'' 1 NewSkiplistHashRing
     = Some (Inr [], ring_P\<lparr>nodeToDataKey := Map.empty\<rparr>)
   \<and> GetNode c_wrap ''d'' (ring_P\<lparr>nodeToDataKey := Map.empty\<rparr>) = Some (Inr ''A_0_0'', ring_P)
   \<and> AddNode c_wrap (level_const 0) ''A'' 1 ring_P = Some (Inr [(''A_0'', ''A'', {''d''})], ring_PA)
   \<and> RemoveNode c_wrap ''A'' ring_PA = Some (Inr [(''A'', ''A_0'', {''d''})], ring_PR)
   \<and> slots ring_PR = slots ring_P \<and> nodeToReplicas ring_PR = nodeToReplicas ring_P
   \<and> DataKeys ring_P ''A_0'' = {''d''} \<and> DataKeys ring_PR ''A_0'' = {}"
proof -
  have 1: "AddNode c_wrap (level_const 0) ''A_0'' 1 NewSkiplistHashRing
     = Some (Inr [], ring_P\<lparr>nodeToDataKey := Map.empty\<rparr>)"
    by (simp add: run_simps ring_simps c_wrap_simps enc_wrap_simps)
  have 2: "GetNode c_wrap ''d'' (ring_P\<lparr>nodeToDataKey := Map.empty\<rparr>) = Some (Inr ''A_0_0'', ring_P)"
    by (simp add: run_simps ring_simps c_wrap_simps enc_wrap_simps)
  have a1: "in_arc False True (- 2147483647) (- 2147483637) 5"
    by (simp add: in_arc_def wrap32_def MaxInt32_def)
  have 3: "AddNode c_wrap (level_const 0) ''A'' 1 ring_P = Some (Inr [(''A_0'', ''A'', {''d''})], ring_PA)"
    by (simp add: run_simps ring_simps c_wrap_simps enc_wrap_simps a1)
  have a2: "in_arc False False 0 10 5"
    by (simp add: in_arc_def wrap32_def MaxInt32_def)
  have 4: "RemoveNode c_wrap ''A'' ring_PA = Some (Inr [(''A'', ''A_0'', {''d''})], ring_PR)"
    by (simp add: run_simps ring_simps c_wrap_simps enc_wrap_simps a2)
  have 5: "slots ring_PR = slots ring_P" by code_simp
  have 6: "nodeToReplicas ring_PR = nodeToReplicas ring_P" by (simp add: ring_simps)
  have 7: "DataKeys ring_P ''A_0'' = {''d''}" "DataKeys ring_PR ''A_0'' = {}"
    by (simp_all add: DataKeys_def ring_simps)
  show ?thesis using 1 2 3 4 5 6 7 by simp
qed

text \<open>
  C8. When \<^verbatim>\<open>GetNode(dataKey)\<close> succeeds, the string it returns is the first key
  of the slot at the ceiling of the data key's score, a raw virtual-node key
  \<open>nid_suffix\<close> with no underscore in the suffix, and the ring it leaves is the
  one before with \<open>dataKey\<close> added to the data keys of \<open>nid\<close>.
\<close>

theorem C8_GetNode_raw_vkey:
  assumes "GetNode c dataKey s = Some (Inr v, s')"
  shows "\<exists>cs vkeys nid suffix.
           Ceiling s (encryptor c dataKey) = Some cs \<and> Node s cs = Some (Inr vkeys)
           \<and> vkeys \<noteq> [] \<and> v = hd vkeys
           \<and> v = nid @ ''_'' @ suffix \<and> CHR ''_'' \<notin> set suffix \<and> getNodeID v = Some nid
           \<and> s' = AddNodeToDataKeys s nid {dataKey} \<and> dataKey \<in> DataKeys s' nid"
proof -
  obtain cs where cs: "Ceiling s (encryptor c dataKey) = Some cs"
    using assms by (cases "Ceiling s (encryptor c dataKey)") (auto simp: GetNode_def)
  have ne: "cs \<noteq> - 1" using assms cs by (auto simp: GetNode_def split: if_splits)
  obtain r where r: "Node s cs = Some r"
    using assms cs ne by (cases "Node s cs") (auto simp: GetNode_def)
  obtain vkeys where vk: "r = Inr vkeys"
    using assms cs ne r by (cases r) (auto simp: GetNode_def)
  have nz: "vkeys \<noteq> []" using assms cs ne r vk by (auto simp: GetNode_def split: if_splits)
  obtain nid where nid: "getNodeID (vkeys ! 0) = Some nid"
    using assms cs ne r vk nz by (cases "getNodeID (vkeys ! 0)") (auto simp: GetNode_def)
  have res: "v = vkeys ! 0" "s' = AddNodeToDataKeys s nid {dataKey}"
    using assms cs ne r vk nz nid by (auto simp: GetNode_def)
  have hd: "vkeys ! 0 = hd vkeys" using nz by (simp add: hd_conv_nth)
  obtain suffix where sf: "vkeys ! 0 = nid @ CHR ''_'' # suffix" "CHR ''_'' \<notin> set suffix"
    using getNodeID_SomeD [OF nid] by blast
  have dk: "dataKey \<in> DataKeys s' nid" using res(2) by (simp add: DataKeys_def AddNodeToDataKeys_def)
  have v1: "v = hd vkeys" using res(1) hd by simp
  have v2: "v = nid @ ''_'' @ suffix" using res(1) sf(1) by simp
  have v3: "getNodeID v = Some nid" using res(1) nid by simp
  have n: "Node s cs = Some (Inr vkeys)" using r vk by simp
  show ?thesis using cs n nz v1 v2 sf(2) v3 res(2) dk by blast
qed

theorem C8_GetNode_raw_vkey_witness:
  "GetNode c_wrap ''d'' ring_B = Some (Inr ''A_0'', ring_d)
   \<and> (\<exists>cs vkeys nid suffix.
           Ceiling ring_B (encryptor c_wrap ''d'') = Some cs \<and> Node ring_B cs = Some (Inr vkeys)
           \<and> vkeys \<noteq> [] \<and> ''A_0'' = hd vkeys
           \<and> ''A_0'' = nid @ ''_'' @ suffix \<and> CHR ''_'' \<notin> set suffix \<and> getNodeID ''A_0'' = Some nid
           \<and> ring_d = AddNodeToDataKeys ring_B nid {''d''} \<and> ''d'' \<in> DataKeys ring_d nid)"
proof -
  have g: "GetNode c_wrap ''d'' ring_B = Some (Inr ''A_0'', ring_d)"
    using step_d [of c_wrap] by (simp add: c_wrap_simps enc_wrap_simps)
  show ?thesis using C8_GetNode_raw_vkey [OF g] g by simp
qed

lemma RemoveNode_nil:
  assumes nm: "\<not> migrator c" and inv: "skiplist_inv s"
    and rep: "nodeToReplicas s nodeID = Some n" and pres: "node_present c s nodeID n"
  shows "\<exists>s'. RemoveNode c nodeID s = Some (Inr [], s') \<and> skiplist_inv s'
       \<and> nodeToReplicas s' = (nodeToReplicas s)(nodeID := None)
       \<and> (\<forall>x. (\<forall>j. 0 \<le> j \<and> j < n \<longrightarrow> x \<noteq> getRawNodeKey nodeID j)
             \<longrightarrow> nodeToDataKey s' x = nodeToDataKey s x)
       \<and> (\<forall>k ids v. slot_map s' k = Some ids \<and> v \<in> set ids \<longrightarrow>
             (\<exists>ids0. slot_map s k = Some ids0 \<and> v \<in> set ids0)
             \<and> (\<forall>j. 0 \<le> j \<and> j < n \<and> k = encryptor c (getRawNodeKey nodeID j)
                    \<longrightarrow> v \<noteq> getRawNodeKey nodeID j))"
proof -
  let ?s0 = "DeleteNodeToReplica s nodeID"
  have h0: "heap ?s0 = heap s" by (simp add: DeleteNodeToReplica_def)
  have inv0: "skiplist_inv ?s0" using skiplist_inv_cong [OF h0] inv by simp
  have sm0: "slot_map ?s0 = slot_map s" using slot_map_cong [OF h0] .
  have r: "\<And>j. (int 0 \<le> j \<and> j < int 0 + int (nat n)) = (0 \<le> j \<and> j < n)" by auto
  have pres0: "\<forall>j. int 0 \<le> j \<and> j < int 0 + int (nat n) \<longrightarrow>
        (\<exists>ids. slot_map ?s0 (encryptor c (getRawNodeKey nodeID j)) = Some ids \<and> getRawNodeKey nodeID j \<in> set ids)"
    using pres unfolding node_present_iff sm0 r by blast
  obtain s' where s': "RemoveNode_loop c nodeID (nat n) 0 [] ?s0 = Some (Inr [], s')" "skiplist_inv s'"
      "nodeToReplicas s' = nodeToReplicas ?s0"
      "\<forall>x. (\<forall>j. int 0 \<le> j \<and> j < int 0 + int (nat n) \<longrightarrow> x \<noteq> getRawNodeKey nodeID j)
             \<longrightarrow> nodeToDataKey s' x = nodeToDataKey ?s0 x"
      "\<forall>k ids v. slot_map s' k = Some ids \<and> v \<in> set ids \<longrightarrow>
             (\<exists>ids0. slot_map ?s0 k = Some ids0 \<and> v \<in> set ids0)
             \<and> (\<forall>j. int 0 \<le> j \<and> j < int 0 + int (nat n) \<and> k = encryptor c (getRawNodeKey nodeID j)
                    \<longrightarrow> v \<noteq> getRawNodeKey nodeID j)"
    using RemoveNode_loop_nil [OF nm inv0 pres0, of "[]"] by blast
  have run: "RemoveNode c nodeID s = Some (Inr [], s')"
    using s'(1) rep by (simp add: RemoveNode_def Nodes_def)
  have nr: "nodeToReplicas s' = (nodeToReplicas s)(nodeID := None)"
    using s'(3) by (simp add: DeleteNodeToReplica_def)
  have dk0: "nodeToDataKey ?s0 = nodeToDataKey s" by (simp add: DeleteNodeToReplica_def)
  have r1: "\<And>j. 0 \<le> j \<and> j < n \<Longrightarrow> int 0 \<le> j \<and> j < int 0 + int (nat n)" by auto
  have f4: "\<forall>x. (\<forall>j. 0 \<le> j \<and> j < n \<longrightarrow> x \<noteq> getRawNodeKey nodeID j)
             \<longrightarrow> nodeToDataKey s' x = nodeToDataKey s x"
  proof (intro allI impI)
    fix x assume "\<forall>j. 0 \<le> j \<and> j < n \<longrightarrow> x \<noteq> getRawNodeKey nodeID j"
    then have "\<forall>j. int 0 \<le> j \<and> j < int 0 + int (nat n) \<longrightarrow> x \<noteq> getRawNodeKey nodeID j" by auto
    then show "nodeToDataKey s' x = nodeToDataKey s x" using s'(4) dk0 by simp
  qed
  have f5: "\<forall>k ids v. slot_map s' k = Some ids \<and> v \<in> set ids \<longrightarrow>
             (\<exists>ids0. slot_map s k = Some ids0 \<and> v \<in> set ids0)
             \<and> (\<forall>j. 0 \<le> j \<and> j < n \<and> k = encryptor c (getRawNodeKey nodeID j)
                    \<longrightarrow> v \<noteq> getRawNodeKey nodeID j)"
  proof (intro allI impI)
    fix k ids v assume a: "slot_map s' k = Some ids \<and> v \<in> set ids"
    have b: "(\<exists>ids0. slot_map s k = Some ids0 \<and> v \<in> set ids0)"
      and c: "\<forall>j. int 0 \<le> j \<and> j < int 0 + int (nat n) \<and> k = encryptor c (getRawNodeKey nodeID j)
                    \<longrightarrow> v \<noteq> getRawNodeKey nodeID j"
      using s'(5) a sm0 by auto
    have "\<forall>j. 0 \<le> j \<and> j < n \<and> k = encryptor c (getRawNodeKey nodeID j) \<longrightarrow> v \<noteq> getRawNodeKey nodeID j"
      using c r1 by blast
    then show "(\<exists>ids0. slot_map s k = Some ids0 \<and> v \<in> set ids0)
             \<and> (\<forall>j. 0 \<le> j \<and> j < n \<and> k = encryptor c (getRawNodeKey nodeID j)
                    \<longrightarrow> v \<noteq> getRawNodeKey nodeID j)" using b by blast
  qed
  show ?thesis using run s'(2) nr f4 f5 by blast
qed

lemma slot_map_empty:
  assumes inv: "skiplist_inv s" and e: "\<forall>k ids v. slot_map s k = Some ids \<longrightarrow> v \<notin> set ids"
  shows "slots s = []"
proof (cases "slots s")
  case Nil
  then show ?thesis .
next
  case (Cons p ps)
  obtain k ids where p: "p = (k, ids)" by (cases p)
  have "(k, ids) \<in> set (slots s)" using Cons p by simp
  then have sm: "slot_map s k = Some ids" using slots_mem_iff [OF inv] by simp
  then have "ids \<noteq> []" using slot_ids [OF inv] by blast
  then obtain v where "v \<in> set ids" by (cases ids) auto
  then show ?thesis using e sm by blast
qed

text \<open>
  C9. An engine without migrator: \<^verbatim>\<open>migrateIn\<close> and \<^verbatim>\<open>migrateOut\<close> return at
  once, with no error, an empty migration and the ring untouched. Removing a
  node whose virtual nodes are all on the ring then succeeds with no migration
  task, whatever data keys the node has registered; those keys stay registered
  under its ID, and only its entry leaves Node\<rightarrow>Replicas. When it was the only
  node of a ring satisfying the ownership invariant, the ring has no slot left
  and Node\<rightarrow>Replicas is empty.
\<close>

theorem C9_nil_migrator:
  assumes "\<not> migrator c"
  shows "migrateIn c virtualScore nodeID s = Some (Inr ([], [], {}), s)
     \<and> migrateOut c virtualScore nodeID s = Some (Inr ([], [], {}), s)
     \<and> (skiplist_inv s \<and> nodeToReplicas s nodeID = Some n \<and> node_present c s nodeID n \<longrightarrow>
          (\<exists>s'. RemoveNode c nodeID s = Some (Inr [], s')
             \<and> nodeToDataKey s' nodeID = nodeToDataKey s nodeID
             \<and> DataKeys s' nodeID = DataKeys s nodeID
             \<and> nodeToReplicas s' = (nodeToReplicas s)(nodeID := None)
             \<and> (vkeys_owned c s \<and> dom (nodeToReplicas s) = {nodeID} \<longrightarrow>
                  slots s' = [] \<and> nodeToReplicas s' = Map.empty)))"
proof (intro conjI impI)
  show "migrateIn c virtualScore nodeID s = Some (Inr ([], [], {}), s)"
    using assms by (rule migrateIn_nil)
  show "migrateOut c virtualScore nodeID s = Some (Inr ([], [], {}), s)"
    using assms by (rule migrateOut_nil)
next
  assume a: "skiplist_inv s \<and> nodeToReplicas s nodeID = Some n \<and> node_present c s nodeID n"
  then have inv: "skiplist_inv s" and rep: "nodeToReplicas s nodeID = Some n"
    and pres: "node_present c s nodeID n" by simp_all
  obtain s' where s': "RemoveNode c nodeID s = Some (Inr [], s')" "skiplist_inv s'"
      "nodeToReplicas s' = (nodeToReplicas s)(nodeID := None)"
      "\<forall>x. (\<forall>j. 0 \<le> j \<and> j < n \<longrightarrow> x \<noteq> getRawNodeKey nodeID j)
             \<longrightarrow> nodeToDataKey s' x = nodeToDataKey s x"
      "\<forall>k ids v. slot_map s' k = Some ids \<and> v \<in> set ids \<longrightarrow>
             (\<exists>ids0. slot_map s k = Some ids0 \<and> v \<in> set ids0)
             \<and> (\<forall>j. 0 \<le> j \<and> j < n \<and> k = encryptor c (getRawNodeKey nodeID j)
                    \<longrightarrow> v \<noteq> getRawNodeKey nodeID j)"
    using RemoveNode_nil [OF assms inv rep pres] by blast
  have dk: "nodeToDataKey s' nodeID = nodeToDataKey s nodeID"
    using s'(4) getRawNodeKey_neq [of nodeID] by metis
  have dks: "DataKeys s' nodeID = DataKeys s nodeID" using dk by (simp add: DataKeys_def)
  have sole: "slots s' = [] \<and> nodeToReplicas s' = Map.empty"
    if o: "vkeys_owned c s" and d: "dom (nodeToReplicas s) = {nodeID}"
  proof -
    have "\<forall>k ids v. slot_map s' k = Some ids \<longrightarrow> v \<notin> set ids"
    proof (intro allI impI notI)
      fix k ids v assume sm: "slot_map s' k = Some ids" and v: "v \<in> set ids"
      obtain ids0 where ids0: "slot_map s k = Some ids0" "v \<in> set ids0"
        and nv: "\<forall>j. 0 \<le> j \<and> j < n \<and> k = encryptor c (getRawNodeKey nodeID j) \<longrightarrow> v \<noteq> getRawNodeKey nodeID j"
        using s'(5) sm v by blast
      obtain N m i where own: "nodeToReplicas s N = Some m" "0 \<le> i" "i < m"
          "v = getRawNodeKey N i" "k = encryptor c v"
        using o ids0 unfolding vkeys_owned_iff [OF inv] by blast
      have "N \<in> dom (nodeToReplicas s)" using own(1) by blast
      then have "N = nodeID" using d by simp
      then have "m = n" using own(1) rep by simp
      show False using nv own(2-5) \<open>N = nodeID\<close> \<open>m = n\<close> by blast
    qed
    then have "slots s' = []" using slot_map_empty [OF s'(2)] by blast
    moreover have "nodeToReplicas s' = Map.empty"
    proof (rule ext)
      fix x show "nodeToReplicas s' x = None"
        using s'(3) d by (cases "x = nodeID") (auto simp: dom_def)
    qed
    ultimately show ?thesis by simp
  qed
  show "\<exists>s'. RemoveNode c nodeID s = Some (Inr [], s')
             \<and> nodeToDataKey s' nodeID = nodeToDataKey s nodeID
             \<and> DataKeys s' nodeID = DataKeys s nodeID
             \<and> nodeToReplicas s' = (nodeToReplicas s)(nodeID := None)
             \<and> (vkeys_owned c s \<and> dom (nodeToReplicas s) = {nodeID} \<longrightarrow>
                  slots s' = [] \<and> nodeToReplicas s' = Map.empty)"
    using s'(1,3) dk dks sole by blast
qed

lemma c_nil_simps:
  "encryptor c_nil = enc_wrap" "\<not> migrator c_nil" "replicas (opts c_nil) = 1"
  by (simp_all add: c_nil_def NewConsistentHash_def repair_def)

theorem C9_nil_migrator_witness:
  "\<not> migrator c_nil
   \<and> skiplist_inv ring_Ad \<and> nodeToReplicas ring_Ad ''A'' = Some 1 \<and> node_present c_nil ring_Ad ''A'' 1
   \<and> vkeys_owned c_nil ring_Ad \<and> dom (nodeToReplicas ring_Ad) = {''A''}
   \<and> DataKeys ring_Ad ''A'' = {''d''}
   \<and> migrateIn c_nil 10 ''A'' ring_Ad = Some (Inr ([], [], {}), ring_Ad)
   \<and> migrateOut c_nil 10 ''A'' ring_Ad = Some (Inr ([], [], {}), ring_Ad)
   \<and> (\<exists>s'. RemoveNode c_nil ''A'' ring_Ad = Some (Inr [], s')
         \<and> DataKeys s' ''A'' = {''d''} \<and> slots s' = [] \<and> nodeToReplicas s' = Map.empty)"
proof -
  have m: "\<not> migrator c_nil" by (rule c_nil_simps)
  have i: "skiplist_inv ring_Ad" by code_simp
  have r: "nodeToReplicas ring_Ad ''A'' = Some 1" by (simp add: ring_simps)
  have p: "node_present c_nil ring_Ad ''A'' 1" by code_simp
  have o: "vkeys_owned c_nil ring_Ad" by code_simp
  have d: "dom (nodeToReplicas ring_Ad) = {''A''}" by (simp add: ring_simps)
  have k: "DataKeys ring_Ad ''A'' = {''d''}" by (simp add: ring_simps DataKeys_def)
  show ?thesis
    using C9_nil_migrator [OF m, of 10 "''A''" ring_Ad 1] m i r p o d k by auto
qed

subsection \<open>Engine steps on the slot map\<close>

lemma slot_scores_dom: "slot_scores s = dom (slot_map s)"
  by (simp add: slot_scores_def slot_map_def dom_map_of_conv_image_fst)

lemma Ceiling_val:
  assumes "skiplist_inv s" "k \<in> slot_scores s" "sc \<le> k" "\<forall>j \<in> slot_scores s. sc \<le> j \<longrightarrow> k \<le> j"
  shows "Ceiling s sc = Some k"
proof -
  have "Min {j \<in> slot_scores s. sc \<le> j} = k"
    using assms(2-4) finite_slot_scores [of s] by (intro Min_eqI) auto
  then show ?thesis using Ceiling_spec [OF assms(1), of sc] assms(2,3) by auto
qed

lemma Ceiling_wrap:
  assumes "skiplist_inv s" "k \<in> slot_scores s" "\<forall>j \<in> slot_scores s. j < sc \<and> k \<le> j"
  shows "Ceiling s sc = Some k"
proof -
  have "Min (slot_scores s) = k"
    using assms(2,3) finite_slot_scores [of s] by (intro Min_eqI) auto
  moreover have "\<not> (\<exists>j \<in> slot_scores s. sc \<le> j)" using assms(3) by auto
  ultimately show ?thesis using Ceiling_spec [OF assms(1), of sc] assms(2) by auto
qed

lemma Floor_val:
  assumes "skiplist_inv s" "k \<in> slot_scores s" "k \<le> sc" "\<forall>j \<in> slot_scores s. j \<le> sc \<longrightarrow> j \<le> k"
  shows "Floor s sc = Some k"
proof -
  have "Max {j \<in> slot_scores s. j \<le> sc} = k"
    using assms(2-4) finite_slot_scores [of s] by (intro Max_eqI) auto
  then show ?thesis using Floor_spec [OF assms(1), of sc] assms(2,3) by auto
qed

lemma Floor_wrap:
  assumes "skiplist_inv s" "k \<in> slot_scores s" "\<forall>j \<in> slot_scores s. sc < j \<and> j \<le> k"
  shows "Floor s sc = Some k"
proof -
  have "Max (slot_scores s) = k"
    using assms(2,3) finite_slot_scores [of s] by (intro Max_eqI) auto
  moreover have "\<not> (\<exists>j \<in> slot_scores s. j \<le> sc)" using assms(3) by auto
  ultimately show ?thesis using Floor_spec [OF assms(1), of sc] assms(2) by auto
qed

lemma Node_val:
  assumes "skiplist_inv s" "slot_map s sc = Some ids"
  shows "Node s sc = Some (Inr ids)"
  using Node_spec [OF assms(1), of sc] assms(2) by simp

lemma getRawNodeKey_0: "getRawNodeKey nodeID (int 0) = nodeID @ ''_0''"
  by (simp add: getRawNodeKey_def itoa_def digits.simps digit_char_def)

text \<open>
  \<^verbatim>\<open>AddNode\<close> of a new node with weight \<open>1\<close> on an engine with one virtual node
  per weight unit, when the slot of its virtual node is free: the virtual node
  is inserted, at whatever level is drawn, and the result is that of
  \<^verbatim>\<open>migrateIn\<close> on the ring with the new slot.
\<close>

lemma AddNode_single:
  assumes r: "replicas (opts c) = 1" and inv: "skiplist_inv s"
    and fresh: "nodeToReplicas s nodeID = None"
    and sc: "encryptor c (nodeID @ ''_0'') = sc" and free: "slot_map s sc = None"
  shows "\<exists>s0. Add (lv 0) sc (nodeID @ ''_0'') (AddNodeToReplica s nodeID 1) = Some (None, s0)
     \<and> skiplist_inv s0 \<and> slot_map s0 = (slot_map s)(sc \<mapsto> [nodeID @ ''_0''])
     \<and> nodeToReplicas s0 = (nodeToReplicas s)(nodeID \<mapsto> 1) \<and> nodeToDataKey s0 = nodeToDataKey s
     \<and> AddNode c lv nodeID 1 s =
         do {
           (r, s2) \<leftarrow> migrateIn c sc nodeID s0;
           case r of
             Inl err \<Rightarrow> Some (Inl err, s2)
           | Inr (from_node, to, datas) \<Rightarrow>
               Some (Inr (if datas = {} then [] else [(from_node, to, datas)]), s2)
         }"
proof -
  let ?s1 = "AddNodeToReplica s nodeID 1"
  have h1: "heap ?s1 = heap s" by (simp add: AddNodeToReplica_def)
  have inv1: "skiplist_inv ?s1" using skiplist_inv_cong [OF h1] inv by simp
  have sm1: "slot_map ?s1 = slot_map s" using slot_map_cong [OF h1] .
  obtain s0 where s0: "Add (lv 0) sc (nodeID @ ''_0'') ?s1 = Some (None, s0)" "skiplist_inv s0"
      "slot_map s0 = (slot_map ?s1)(sc \<mapsto>
          (case slot_map ?s1 sc of None \<Rightarrow> [nodeID @ ''_0'']
           | Some ids \<Rightarrow> if nodeID @ ''_0'' \<in> set ids then ids else ids @ [nodeID @ ''_0'']))"
      "nodeToReplicas s0 = nodeToReplicas ?s1" "nodeToDataKey s0 = nodeToDataKey ?s1"
    using Add_spec [OF inv1, of "lv 0" sc "nodeID @ ''_0''"] by blast
  have a: "slot_map s0 = (slot_map s)(sc \<mapsto> [nodeID @ ''_0''])" using s0(3) sm1 free by simp
  have b: "nodeToReplicas s0 = (nodeToReplicas s)(nodeID \<mapsto> 1)" using s0(4) by (simp add: AddNodeToReplica_def)
  have d: "nodeToDataKey s0 = nodeToDataKey s" using s0(5) by (simp add: AddNodeToReplica_def)
  have nd: "nodeID \<notin> dom (Nodes s)" using fresh by (simp add: Nodes_def dom_def)
  have run: "AddNode c lv nodeID 1 s =
         do {
           (r, s2) \<leftarrow> migrateIn c sc nodeID s0;
           case r of
             Inl err \<Rightarrow> Some (Inl err, s2)
           | Inr (from_node, to, datas) \<Rightarrow>
               Some (Inr (if datas = {} then [] else [(from_node, to, datas)]), s2)
         }"
    unfolding AddNode_def using nd r sc s0(1)
    by (simp add: getValidWeight_def Let_def getRawNodeKey_0 [simplified] cong: sum.case_cong prod.case_cong if_cong)
  show ?thesis using s0(1,2) a b d run by blast
qed

lemma getNodeID_0: "getNodeID (nodeID @ ''_0'') = Some nodeID"
  using getNodeID_raw [of nodeID "int 0"] unfolding getRawNodeKey_0 .

lemma new_ring_facts:
  "skiplist_inv NewSkiplistHashRing" "slot_map NewSkiplistHashRing = Map.empty"
  "nodeToReplicas NewSkiplistHashRing = Map.empty" "nodeToDataKey NewSkiplistHashRing = Map.empty"
proof -
  show "skiplist_inv NewSkiplistHashRing" by code_simp
  have "slots NewSkiplistHashRing = []" by code_simp
  then show "slot_map NewSkiplistHashRing = Map.empty" by (simp add: slot_map_def)
  show "nodeToReplicas NewSkiplistHashRing = Map.empty" "nodeToDataKey NewSkiplistHashRing = Map.empty"
    by (simp_all add: NewSkiplistHashRing_def)
qed

text \<open>The first node on the new ring: nothing to migrate, the ring has one slot.\<close>

lemma scenario_A:
  assumes r: "replicas (opts c) = 1" and mg: "migrator c" and eA: "encryptor c ''A_0'' = 10"
  shows "\<exists>sA. AddNode c lvA ''A'' 1 NewSkiplistHashRing = Some (Inr [], sA)
     \<and> skiplist_inv sA \<and> slot_map sA = [10 \<mapsto> [''A_0'']]
     \<and> nodeToReplicas sA = [''A'' \<mapsto> 1] \<and> nodeToDataKey sA = Map.empty"
proof -
  have eA': "encryptor c (''A'' @ ''_0'') = 10" using eA by simp
  obtain s0 where s0: "skiplist_inv s0" "slot_map s0 = [10 \<mapsto> [''A'' @ ''_0'']]"
      "nodeToReplicas s0 = [''A'' \<mapsto> 1]" "nodeToDataKey s0 = Map.empty"
      "AddNode c lvA ''A'' 1 NewSkiplistHashRing =
         do {
           (r, s2) \<leftarrow> migrateIn c 10 ''A'' s0;
           case r of
             Inl err \<Rightarrow> Some (Inl err, s2)
           | Inr (from_node, to, datas) \<Rightarrow>
               Some (Inr (if datas = {} then [] else [(from_node, to, datas)]), s2)
         }"
    using AddNode_single [OF r new_ring_facts(1) _ eA', of lvA] new_ring_facts(2-4) by auto
  have sm: "slot_map s0 = [10 \<mapsto> [''A_0'']]" using s0(2) by simp
  have sc: "slot_scores s0 = {10}" using sm by (simp add: slot_scores_dom)
  have n: "Node s0 10 = Some (Inr [''A_0''])" using Node_val [OF s0(1), of 10] sm by simp
  have f: "Floor s0 9 = Some 10" using Floor_wrap [OF s0(1), of 10 9] sc by simp
  have "migrateIn c 10 ''A'' s0 = Some (Inr ([], [], {}), s0)"
    using mg n f by (simp add: migrateIn_def decrScore_def wrap32_def MaxInt32_def)
  then have "AddNode c lvA ''A'' 1 NewSkiplistHashRing = Some (Inr [], s0)" using s0(5) by simp
  then show ?thesis using s0(1,3,4) sm by blast
qed

text \<open>
  The second node: its arc \<open>(10, M - 10]\<close> is taken from \<open>A\<close>, which has no data
  key yet.
\<close>

lemma scenario_B:
  assumes r: "replicas (opts c) = 1" and mg: "migrator c" and eB: "encryptor c ''B_0'' = MaxInt32 - 10"
    and inv: "skiplist_inv sA" and sm: "slot_map sA = [10 \<mapsto> [''A_0'']]"
    and nr: "nodeToReplicas sA = [''A'' \<mapsto> 1]" and dk: "nodeToDataKey sA = Map.empty"
  shows "\<exists>sB. AddNode c lvB ''B'' 1 sA = Some (Inr [], sB)
     \<and> skiplist_inv sB \<and> slot_map sB = [10 \<mapsto> [''A_0''], 2147483637 \<mapsto> [''B_0'']]
     \<and> nodeToReplicas sB = [''A'' \<mapsto> 1, ''B'' \<mapsto> 1] \<and> nodeToDataKey sB = [''B'' \<mapsto> {}]"
proof -
  have eB': "encryptor c (''B'' @ ''_0'') = 2147483637" using eB by (simp add: MaxInt32_def)
  have fresh: "nodeToReplicas sA ''B'' = None" using nr by simp
  have free: "slot_map sA 2147483637 = None" using sm by simp
  obtain s0 where s0: "skiplist_inv s0" "slot_map s0 = (slot_map sA)(2147483637 \<mapsto> [''B'' @ ''_0''])"
      "nodeToReplicas s0 = (nodeToReplicas sA)(''B'' \<mapsto> 1)" "nodeToDataKey s0 = nodeToDataKey sA"
      "AddNode c lvB ''B'' 1 sA =
         do {
           (r, s2) \<leftarrow> migrateIn c 2147483637 ''B'' s0;
           case r of
             Inl err \<Rightarrow> Some (Inl err, s2)
           | Inr (from_node, to, datas) \<Rightarrow>
               Some (Inr (if datas = {} then [] else [(from_node, to, datas)]), s2)
         }"
    using AddNode_single [OF r inv fresh eB' free, of lvB] by blast
  have sm0: "slot_map s0 = [10 \<mapsto> [''A_0''], 2147483637 \<mapsto> [''B_0'']]" using s0(2) sm by simp
  have sc: "slot_scores s0 = {10, 2147483637}" using sm0 by (auto simp: slot_scores_dom)
  have n: "Node s0 2147483637 = Some (Inr [''B_0''])" using Node_val [OF s0(1), of 2147483637] sm0 by simp
  have f: "Floor s0 2147483636 = Some 10" using Floor_val [OF s0(1), of 10 2147483636] sc by simp
  have ce: "Ceiling s0 2147483638 = Some 10" using Ceiling_wrap [OF s0(1), of 10 2147483638] sc by simp
  have n2: "Node s0 10 = Some (Inr [''A_0''])" using Node_val [OF s0(1), of 10] sm0 by simp
  have g: "getNodeID ''A_0'' = Some ''A''" using getNodeID_0 [of "''A''"] by simp
  have d0: "nodeToDataKey s0 = Map.empty" using s0(4) dk by simp
  let ?sB = "AddNodeToDataKeys s0 ''B'' {}"
  have "migrateIn c 2147483637 ''B'' s0 = Some (Inr (''A'', ''B'', {}), ?sB)"
    using mg n f ce n2 g d0
    by (simp add: migrateIn_def decrScore_def incrScore_def wrap32_def MaxInt32_def
        DataKeys_def DeleteNodeToDataKeys_def)
  then have run: "AddNode c lvB ''B'' 1 sA = Some (Inr [], ?sB)" using s0(5) by simp
  have h: "heap ?sB = heap s0" by (simp add: AddNodeToDataKeys_def)
  have i: "skiplist_inv ?sB" using skiplist_inv_cong [OF h] s0(1) by simp
  have m: "slot_map ?sB = [10 \<mapsto> [''A_0''], 2147483637 \<mapsto> [''B_0'']]" using slot_map_cong [OF h] sm0 by simp
  have p: "nodeToReplicas ?sB = [''A'' \<mapsto> 1, ''B'' \<mapsto> 1]" using s0(3) nr by (simp add: AddNodeToDataKeys_def)
  have q: "nodeToDataKey ?sB = [''B'' \<mapsto> {}]" using d0 by (simp add: AddNodeToDataKeys_def)
  show ?thesis using run i m p q by blast
qed

text \<open>The data key on score \<open>5\<close> goes to the slot on \<open>10\<close>.\<close>

lemma scenario_d:
  assumes ed: "encryptor c ''d'' = 5"
    and inv: "skiplist_inv sB" and sm: "slot_map sB = [10 \<mapsto> [''A_0''], 2147483637 \<mapsto> [''B_0'']]"
    and nr: "nodeToReplicas sB = [''A'' \<mapsto> 1, ''B'' \<mapsto> 1]" and dk: "nodeToDataKey sB = [''B'' \<mapsto> {}]"
  shows "\<exists>sd. GetNode c ''d'' sB = Some (Inr ''A_0'', sd)
     \<and> Ceiling sB 5 = Some 10 \<and> Node sB 10 = Some (Inr [''A_0''])
     \<and> skiplist_inv sd \<and> slot_map sd = [10 \<mapsto> [''A_0''], 2147483637 \<mapsto> [''B_0'']]
     \<and> nodeToReplicas sd = [''A'' \<mapsto> 1, ''B'' \<mapsto> 1]
     \<and> nodeToDataKey sd = [''B'' \<mapsto> {}, ''A'' \<mapsto> {''d''}]"
proof -
  have sc: "slot_scores sB = {10, 2147483637}" using sm by (auto simp: slot_scores_dom)
  have ce: "Ceiling sB 5 = Some 10" using Ceiling_val [OF inv, of 10 5] sc by simp
  have n: "Node sB 10 = Some (Inr [''A_0''])" using Node_val [OF inv, of 10] sm by simp
  have g: "getNodeID ''A_0'' = Some ''A''" using getNodeID_0 [of "''A''"] by simp
  let ?sd = "AddNodeToDataKeys sB ''A'' {''d''}"
  have run: "GetNode c ''d'' sB = Some (Inr ''A_0'', ?sd)"
    using ed ce n g by (simp add: GetNode_def)
  have h: "heap ?sd = heap sB" by (simp add: AddNodeToDataKeys_def)
  have i: "skiplist_inv ?sd" using skiplist_inv_cong [OF h] inv by simp
  have m: "slot_map ?sd = [10 \<mapsto> [''A_0''], 2147483637 \<mapsto> [''B_0'']]" using slot_map_cong [OF h] sm by simp
  have p: "nodeToReplicas ?sd = [''A'' \<mapsto> 1, ''B'' \<mapsto> 1]" using nr by (simp add: AddNodeToDataKeys_def)
  have q: "nodeToDataKey ?sd = [''B'' \<mapsto> {}, ''A'' \<mapsto> {''d''}]" using dk by (simp add: AddNodeToDataKeys_def)
  show ?thesis using run ce n i m p q by blast
qed

text \<open>
  The third node, on score \<open>3\<close>: its predecessor is the slot on \<open>M - 10\<close>, its
  successor the slot on \<open>10\<close>, and of the data keys of \<open>A\<close> those in the arc
  \<open>(- 10, 3]\<close> would move.
\<close>

lemma scenario_X:
  assumes r: "replicas (opts c) = 1" and mg: "migrator c"
    and eX: "encryptor c ''X_0'' = 3" and ed: "encryptor c ''d'' = 5"
    and inv: "skiplist_inv sd" and sm: "slot_map sd = [10 \<mapsto> [''A_0''], 2147483637 \<mapsto> [''B_0'']]"
    and nr: "nodeToReplicas sd = [''A'' \<mapsto> 1, ''B'' \<mapsto> 1]"
    and dk: "nodeToDataKey sd = [''B'' \<mapsto> {}, ''A'' \<mapsto> {''d''}]"
  shows "\<exists>sX0 sX. Add (lvX 0) 3 ''X_0'' (AddNodeToReplica sd ''X'' 1) = Some (None, sX0)
     \<and> Floor sX0 (decrScore 3) = Some (MaxInt32 - 10) \<and> Ceiling sX0 (incrScore 3) = Some 10
     \<and> migrateIn c 3 ''X'' sX0 = Some (Inr (''A'', ''X'', {}), sX)
     \<and> AddNode c lvX ''X'' 1 sd = Some (Inr [], sX)
     \<and> skiplist_inv sX
     \<and> slot_map sX = [10 \<mapsto> [''A_0''], 2147483637 \<mapsto> [''B_0''], 3 \<mapsto> [''X_0'']]
     \<and> nodeToReplicas sX = [''A'' \<mapsto> 1, ''B'' \<mapsto> 1, ''X'' \<mapsto> 1]
     \<and> nodeToDataKey sX = [''B'' \<mapsto> {}, ''A'' \<mapsto> {''d''}, ''X'' \<mapsto> {}]"
proof -
  have eX': "encryptor c (''X'' @ ''_0'') = 3" using eX by simp
  have fresh: "nodeToReplicas sd ''X'' = None" using nr by simp
  have free: "slot_map sd 3 = None" using sm by simp
  obtain s0 where s0: "Add (lvX 0) 3 (''X'' @ ''_0'') (AddNodeToReplica sd ''X'' 1) = Some (None, s0)"
      "skiplist_inv s0" "slot_map s0 = (slot_map sd)(3 \<mapsto> [''X'' @ ''_0''])"
      "nodeToReplicas s0 = (nodeToReplicas sd)(''X'' \<mapsto> 1)" "nodeToDataKey s0 = nodeToDataKey sd"
      "AddNode c lvX ''X'' 1 sd =
         do {
           (r, s2) \<leftarrow> migrateIn c 3 ''X'' s0;
           case r of
             Inl err \<Rightarrow> Some (Inl err, s2)
           | Inr (from_node, to, datas) \<Rightarrow>
               Some (Inr (if datas = {} then [] else [(from_node, to, datas)]), s2)
         }"
    using AddNode_single [OF r inv fresh eX' free, of lvX] by blast
  have sm0: "slot_map s0 = [10 \<mapsto> [''A_0''], 2147483637 \<mapsto> [''B_0''], 3 \<mapsto> [''X_0'']]" using s0(3) sm by simp
  have sc: "slot_scores s0 = {10, 2147483637, 3}" using sm0 by (auto simp: slot_scores_dom)
  have n: "Node s0 3 = Some (Inr [''X_0''])" using Node_val [OF s0(2), of 3] sm0 by simp
  have f: "Floor s0 2 = Some 2147483637" using Floor_wrap [OF s0(2), of 2147483637 2] sc by simp
  have ce: "Ceiling s0 4 = Some 10" using Ceiling_val [OF s0(2), of 10 4] sc by simp
  have n2: "Node s0 10 = Some (Inr [''A_0''])" using Node_val [OF s0(2), of 10] sm0 by simp
  have g: "getNodeID ''A_0'' = Some ''A''" using getNodeID_0 [of "''A''"] by simp
  have d0: "nodeToDataKey s0 = [''B'' \<mapsto> {}, ''A'' \<mapsto> {''d''}]" using s0(5) dk by simp
  have arc: "in_arc True False (- 10) 3 (encryptor c ''d'') = False" using ed arc_wrap by simp
  let ?sX = "AddNodeToDataKeys (DeleteNodeToDataKeys s0 ''A'' {}) ''X'' {}"
  have mig: "migrateIn c 3 ''X'' s0 = Some (Inr (''A'', ''X'', {}), ?sX)"
    using mg n f ce n2 g d0 arc
    by (simp add: migrateIn_def decrScore_def incrScore_def wrap32_def MaxInt32_def
        DataKeys_def Collect_conv_if)
  then have run: "AddNode c lvX ''X'' 1 sd = Some (Inr [], ?sX)" using s0(6) by simp
  have fc: "Floor s0 (decrScore 3) = Some (MaxInt32 - 10)" "Ceiling s0 (incrScore 3) = Some 10"
    using f ce by (simp_all add: decrScore_def incrScore_def wrap32_def MaxInt32_def)
  have h: "heap ?sX = heap s0" using d0 by (simp add: AddNodeToDataKeys_def DeleteNodeToDataKeys_def)
  have i: "skiplist_inv ?sX" using skiplist_inv_cong [OF h] s0(2) by simp
  have m: "slot_map ?sX = [10 \<mapsto> [''A_0''], 2147483637 \<mapsto> [''B_0''], 3 \<mapsto> [''X_0'']]"
    using slot_map_cong [OF h] sm0 by simp
  have p: "nodeToReplicas ?sX = [''A'' \<mapsto> 1, ''B'' \<mapsto> 1, ''X'' \<mapsto> 1]"
    using s0(4) nr d0 by (simp add: AddNodeToDataKeys_def DeleteNodeToDataKeys_def)
  have q: "nodeToDataKey ?sX = [''B'' \<mapsto> {}, ''A'' \<mapsto> {''d''}, ''X'' \<mapsto> {}]"
    using d0 by (simp add: AddNodeToDataKeys_def DeleteNodeToDataKeys_def)
  have a: "Add (lvX 0) 3 ''X_0'' (AddNodeToReplica sd ''X'' 1) = Some (None, s0)" using s0(1) by simp
  show ?thesis using a fc mig run i m p q by blast
qed

text \<open>
  C1 (amended). For every engine with a migrator and one virtual node per
  weight unit whose hasher places \<open>A_0\<close> on \<open>10\<close>, \<open>B_0\<close> on \<open>M - 10\<close>, \<open>d\<close> on \<open>5\<close>
  and \<open>X_0\<close> on \<open>3\<close>, and whatever levels \<^verbatim>\<open>roll\<close> draws: after \<^verbatim>\<open>AddNode("A", 1)\<close>
  and \<^verbatim>\<open>AddNode("B", 1)\<close> on the new ring, \<^verbatim>\<open>GetNode("d")\<close> returns \<open>A_0\<close>, the
  ceiling of \<open>5\<close>, and registers \<open>d\<close> on \<open>A\<close>. \<^verbatim>\<open>AddNode("X", 1)\<close> then inserts \<open>X_0\<close>
  on \<open>3\<close>, between the slots on \<open>M - 10\<close> and on \<open>10\<close>; \<^verbatim>\<open>migrateIn\<close> takes the keys
  of \<open>A\<close> in the arc \<open>(M - 10, 3]\<close>, which does not hold \<open>5\<close>: the move set is
  empty, no migration is handed to the migrator, and \<open>d\<close> stays on \<open>A\<close>.
\<close>

theorem C1_score_wrap:
  assumes "replicas (opts c) = 1" and "migrator c"
    and "encryptor c ''A_0'' = 10" and "encryptor c ''B_0'' = MaxInt32 - 10"
    and "encryptor c ''d'' = 5" and "encryptor c ''X_0'' = 3"
  shows "\<exists>sA sB sd sX0 sX.
     AddNode c lvA ''A'' 1 NewSkiplistHashRing = Some (Inr [], sA)
   \<and> AddNode c lvB ''B'' 1 sA = Some (Inr [], sB)
   \<and> Ceiling sB 5 = Some 10 \<and> Node sB 10 = Some (Inr [''A_0''])
   \<and> GetNode c ''d'' sB = Some (Inr ''A_0'', sd)
   \<and> DataKeys sd ''A'' = {''d''}
   \<and> Add (lvX 0) 3 ''X_0'' (AddNodeToReplica sd ''X'' 1) = Some (None, sX0)
   \<and> Floor sX0 (decrScore 3) = Some (MaxInt32 - 10) \<and> Ceiling sX0 (incrScore 3) = Some 10
   \<and> migrateIn c 3 ''X'' sX0 = Some (Inr (''A'', ''X'', {}), sX)
   \<and> AddNode c lvX ''X'' 1 sd = Some (Inr [], sX)
   \<and> slot_map sX = [10 \<mapsto> [''A_0''], MaxInt32 - 10 \<mapsto> [''B_0''], 3 \<mapsto> [''X_0'']]
   \<and> DataKeys sX ''A'' = {''d''} \<and> DataKeys sX ''X'' = {}"
proof -
  obtain sA where sA: "AddNode c lvA ''A'' 1 NewSkiplistHashRing = Some (Inr [], sA)"
      "skiplist_inv sA" "slot_map sA = [10 \<mapsto> [''A_0'']]"
      "nodeToReplicas sA = [''A'' \<mapsto> 1]" "nodeToDataKey sA = Map.empty"
    using scenario_A [OF assms(1,2,3), of lvA] by blast
  obtain sB where sB: "AddNode c lvB ''B'' 1 sA = Some (Inr [], sB)"
      "skiplist_inv sB" "slot_map sB = [10 \<mapsto> [''A_0''], 2147483637 \<mapsto> [''B_0'']]"
      "nodeToReplicas sB = [''A'' \<mapsto> 1, ''B'' \<mapsto> 1]" "nodeToDataKey sB = [''B'' \<mapsto> {}]"
    using scenario_B [OF assms(1,2,4) sA(2-5), of lvB] by blast
  obtain sd where sd: "GetNode c ''d'' sB = Some (Inr ''A_0'', sd)"
      "Ceiling sB 5 = Some 10" "Node sB 10 = Some (Inr [''A_0''])"
      "skiplist_inv sd" "slot_map sd = [10 \<mapsto> [''A_0''], 2147483637 \<mapsto> [''B_0'']]"
      "nodeToReplicas sd = [''A'' \<mapsto> 1, ''B'' \<mapsto> 1]"
      "nodeToDataKey sd = [''B'' \<mapsto> {}, ''A'' \<mapsto> {''d''}]"
    using scenario_d [OF assms(5) sB(2-5)] by blast
  obtain sX0 sX where sX: "Add (lvX 0) 3 ''X_0'' (AddNodeToReplica sd ''X'' 1) = Some (None, sX0)"
      "Floor sX0 (decrScore 3) = Some (MaxInt32 - 10)" "Ceiling sX0 (incrScore 3) = Some 10"
      "migrateIn c 3 ''X'' sX0 = Some (Inr (''A'', ''X'', {}), sX)"
      "AddNode c lvX ''X'' 1 sd = Some (Inr [], sX)"
      "slot_map sX = [10 \<mapsto> [''A_0''], 2147483637 \<mapsto> [''B_0''], 3 \<mapsto> [''X_0'']]"
      "nodeToDataKey sX = [''B'' \<mapsto> {}, ''A'' \<mapsto> {''d''}, ''X'' \<mapsto> {}]"
    using scenario_X [OF assms(1,2,6,5) sd(4-7), of lvX] by blast
  have d1: "DataKeys sd ''A'' = {''d''}" using sd(7) by (simp add: DataKeys_def)
  have d2: "DataKeys sX ''A'' = {''d''}" "DataKeys sX ''X'' = {}" using sX(7) by (simp_all add: DataKeys_def)
  have m: "slot_map sX = [10 \<mapsto> [''A_0''], MaxInt32 - 10 \<mapsto> [''B_0''], 3 \<mapsto> [''X_0'']]"
    using sX(6) by (simp add: MaxInt32_def)
  show ?thesis
    by (rule exI [of _ sA], rule exI [of _ sB], rule exI [of _ sd], rule exI [of _ sX0], rule exI [of _ sX])
      (intro conjI; fact)
qed

theorem C1_score_wrap_witness:
  "replicas (opts c_wrap) = 1 \<and> migrator c_wrap
   \<and> encryptor c_wrap ''A_0'' = 10 \<and> encryptor c_wrap ''B_0'' = MaxInt32 - 10
   \<and> encryptor c_wrap ''d'' = 5 \<and> encryptor c_wrap ''X_0'' = 3
   \<and> (\<exists>sA sB sd sX0 sX.
        AddNode c_wrap (level_const 0) ''A'' 1 NewSkiplistHashRing = Some (Inr [], sA)
      \<and> AddNode c_wrap (level_const 3) ''B'' 1 sA = Some (Inr [], sB)
      \<and> Ceiling sB 5 = Some 10 \<and> Node sB 10 = Some (Inr [''A_0''])
      \<and> GetNode c_wrap ''d'' sB = Some (Inr ''A_0'', sd)
      \<and> DataKeys sd ''A'' = {''d''}
      \<and> Add (level_const 1 0) 3 ''X_0'' (AddNodeToReplica sd ''X'' 1) = Some (None, sX0)
      \<and> Floor sX0 (decrScore 3) = Some (MaxInt32 - 10) \<and> Ceiling sX0 (incrScore 3) = Some 10
      \<and> migrateIn c_wrap 3 ''X'' sX0 = Some (Inr (''A'', ''X'', {}), sX)
      \<and> AddNode c_wrap (level_const 1) ''X'' 1 sd = Some (Inr [], sX)
      \<and> slot_map sX = [10 \<mapsto> [''A_0''], MaxInt32 - 10 \<mapsto> [''B_0''], 3 \<mapsto> [''X_0'']]
      \<and> DataKeys sX ''A'' = {''d''} \<and> DataKeys sX ''X'' = {})"
proof -
  have h: "replicas (opts c_wrap) = 1" "migrator c_wrap"
    "encryptor c_wrap ''A_0'' = 10" "encryptor c_wrap ''B_0'' = MaxInt32 - 10"
    "encryptor c_wrap ''d'' = 5" "encryptor c_wrap ''X_0'' = 3"
    by (simp_all add: c_wrap_simps enc_wrap_simps)
  show ?thesis
    by (intro conjI h C1_score_wrap [OF h, of "level_const 0" "level_const 3" "level_const 1"])
qed

subsection \<open>The ownership invariant along the engine operations\<close>

lemma ring_invD:
  assumes "ring_inv c s"
  shows "skiplist_inv s"
    and "\<And>k ids v. slot_map s k = Some ids \<Longrightarrow> v \<in> set ids \<Longrightarrow>
       \<exists>nodeID n i. nodeToReplicas s nodeID = Some n \<and> 0 \<le> i \<and> i < n
          \<and> v = getRawNodeKey nodeID i \<and> k = encryptor c v"
proof -
  show inv: "skiplist_inv s" using assms by (simp add: ring_inv_def)
  have o: "vkeys_owned c s" using assms by (simp add: ring_inv_def)
  fix k ids v assume "slot_map s k = Some ids" "v \<in> set ids"
  then show "\<exists>nodeID n i. nodeToReplicas s nodeID = Some n \<and> 0 \<le> i \<and> i < n
          \<and> v = getRawNodeKey nodeID i \<and> k = encryptor c v"
    using o unfolding vkeys_owned_iff [OF inv] by blast
qed

lemma ring_invI:
  assumes "skiplist_inv s"
    and "\<And>k ids v. slot_map s k = Some ids \<Longrightarrow> v \<in> set ids \<Longrightarrow>
       \<exists>nodeID n i. nodeToReplicas s nodeID = Some n \<and> 0 \<le> i \<and> i < n
          \<and> v = getRawNodeKey nodeID i \<and> k = encryptor c v"
  shows "ring_inv c s"
  unfolding ring_inv_def vkeys_owned_iff [OF assms(1)] using assms by blast

text \<open>A new entry of Node\<rightarrow>Replicas takes no owner away.\<close>

lemma AddNodeToReplica_ring_inv:
  assumes ri: "ring_inv c s" and fresh: "nodeToReplicas s nodeID = None"
  shows "ring_inv c (AddNodeToReplica s nodeID n)"
proof (rule ring_invI)
  let ?s1 = "AddNodeToReplica s nodeID n"
  have h: "heap ?s1 = heap s" by (simp add: AddNodeToReplica_def)
  show "skiplist_inv ?s1" using skiplist_inv_cong [OF h] ring_invD(1) [OF ri] by simp
  fix k ids v assume a: "slot_map ?s1 k = Some ids" "v \<in> set ids"
  then have "slot_map s k = Some ids" using slot_map_cong [OF h] by simp
  then obtain N m i where o: "nodeToReplicas s N = Some m" "0 \<le> i" "i < m"
      "v = getRawNodeKey N i" "k = encryptor c v"
    using ring_invD(2) [OF ri _ a(2)] by blast
  have "N \<noteq> nodeID" using o(1) fresh by auto
  then have "nodeToReplicas ?s1 N = Some m" using o(1) by (simp add: AddNodeToReplica_def)
  then show "\<exists>nodeID n i. nodeToReplicas ?s1 nodeID = Some n \<and> 0 \<le> i \<and> i < n
          \<and> v = getRawNodeKey nodeID i \<and> k = encryptor c v"
    using o(2-5) by blast
qed

text \<open>Inserting a virtual node of a node that Node\<rightarrow>Replicas knows.\<close>

lemma Add_ring_inv:
  assumes ri: "ring_inv c s" and rep: "nodeToReplicas s nodeID = Some n" and i: "0 \<le> i" "i < n"
    and run: "Add rl (encryptor c (getRawNodeKey nodeID i)) (getRawNodeKey nodeID i) s = Some (e, s1)"
  shows "e = None \<and> ring_inv c s1 \<and> nodeToReplicas s1 = nodeToReplicas s"
proof -
  let ?v = "getRawNodeKey nodeID i"
  let ?sc = "encryptor c ?v"
  have inv: "skiplist_inv s" using ring_invD(1) [OF ri] .
  obtain s' where s': "Add rl ?sc ?v s = Some (None, s')" "skiplist_inv s'"
      "slot_map s' = (slot_map s)(?sc \<mapsto>
          (case slot_map s ?sc of None \<Rightarrow> [?v] | Some ids \<Rightarrow> if ?v \<in> set ids then ids else ids @ [?v]))"
      "nodeToReplicas s' = nodeToReplicas s"
    using Add_spec [OF inv, of rl ?sc ?v] by blast
  have e: "e = None" and s1: "s1 = s'" using run s'(1) by simp_all
  have "ring_inv c s'"
  proof (rule ring_invI [OF s'(2)])
    fix k ids v assume a: "slot_map s' k = Some ids" "v \<in> set ids"
    have "v = ?v \<and> k = ?sc \<or> (\<exists>ids0. slot_map s k = Some ids0 \<and> v \<in> set ids0)"
    proof (cases "k = ?sc")
      case True
      then have ids: "ids = (case slot_map s ?sc of None \<Rightarrow> [?v]
          | Some ids0 \<Rightarrow> if ?v \<in> set ids0 then ids0 else ids0 @ [?v])"
        using a(1) s'(3) by simp
      show ?thesis
      proof (cases "slot_map s ?sc")
        case None
        then show ?thesis using ids a(2) True by simp
      next
        case (Some ids0)
        then have "v \<in> set ids0 \<or> v = ?v" using ids a(2) by (auto split: if_splits)
        then show ?thesis using Some True by blast
      qed
    next
      case False
      then have "slot_map s k = Some ids" using a(1) s'(3) by simp
      then show ?thesis using a(2) by blast
    qed
    then show "\<exists>nodeID n i. nodeToReplicas s' nodeID = Some n \<and> 0 \<le> i \<and> i < n
          \<and> v = getRawNodeKey nodeID i \<and> k = encryptor c v"
    proof
      assume "v = ?v \<and> k = ?sc"
      then show ?thesis using rep i s'(4) by auto
    next
      assume "\<exists>ids0. slot_map s k = Some ids0 \<and> v \<in> set ids0"
      then show ?thesis using ring_invD(2) [OF ri] s'(4) by fastforce
    qed
  qed
  then show ?thesis using e s1 s'(4) by simp
qed

lemma AddNode_step:
  assumes "AddNode_loop c lv nodeID (Suc m) i tasks s = Some (r, s')"
  shows "\<exists>e s1. Add (lv i) (encryptor c (getRawNodeKey nodeID (int i))) (getRawNodeKey nodeID (int i)) s = Some (e, s1)
     \<and> (e \<noteq> None \<longrightarrow> s' = s1)
     \<and> (e = None \<longrightarrow>
          (\<exists>r2 s2. migrateIn c (encryptor c (getRawNodeKey nodeID (int i))) nodeID s1 = Some (r2, s2)
             \<and> ((\<exists>err. r2 = Inl err \<and> s' = s2)
                \<or> (\<exists>ts. AddNode_loop c lv nodeID m (i + 1) ts s2 = Some (r, s')))))"
  using assms
  by (auto simp: Let_def split: Option.bind_splits option.splits sum.splits prod.splits)

lemma AddNode_loop_inv:
  "ring_inv c s \<Longrightarrow> nodeToReplicas s nodeID = Some n \<Longrightarrow> int i + int m \<le> n \<Longrightarrow>
   AddNode_loop c lv nodeID m i tasks s = Some (r, s') \<Longrightarrow>
   ring_inv c s' \<and> nodeToReplicas s' = nodeToReplicas s"
proof (induction m arbitrary: i tasks s)
  case 0
  then show ?case by simp
next
  case (Suc m)
  let ?v = "getRawNodeKey nodeID (int i)"
  obtain e s1 where a: "Add (lv i) (encryptor c ?v) ?v s = Some (e, s1)"
      "e \<noteq> None \<longrightarrow> s' = s1"
      "e = None \<longrightarrow>
          (\<exists>r2 s2. migrateIn c (encryptor c ?v) nodeID s1 = Some (r2, s2)
             \<and> ((\<exists>err. r2 = Inl err \<and> s' = s2)
                \<or> (\<exists>ts. AddNode_loop c lv nodeID m (i + 1) ts s2 = Some (r, s'))))"
    using AddNode_step [OF Suc.prems(4)] by blast
  have b: "0 \<le> int i" "int i < n" using Suc.prems(3) by simp_all
  have s1: "e = None" "ring_inv c s1" "nodeToReplicas s1 = nodeToReplicas s"
    using Add_ring_inv [OF Suc.prems(1,2) b a(1)] by simp_all
  obtain r2 s2 where m: "migrateIn c (encryptor c ?v) nodeID s1 = Some (r2, s2)"
      "(\<exists>err. r2 = Inl err \<and> s' = s2) \<or> (\<exists>ts. AddNode_loop c lv nodeID m (i + 1) ts s2 = Some (r, s'))"
    using a(3) s1(1) by blast
  have f: "heap s2 = heap s1" "nodeToReplicas s2 = nodeToReplicas s1" using migrateIn_frame [OF m(1)] by simp_all
  have s2: "ring_inv c s2" using ring_inv_cong [OF f] s1(2) by simp
  have rep2: "nodeToReplicas s2 nodeID = Some n" using f(2) s1(3) Suc.prems(2) by simp
  show ?case using m(2)
  proof
    assume "\<exists>err. r2 = Inl err \<and> s' = s2"
    then show ?thesis using s2 f(2) s1(3) by auto
  next
    assume "\<exists>ts. AddNode_loop c lv nodeID m (i + 1) ts s2 = Some (r, s')"
    then obtain ts where "AddNode_loop c lv nodeID m (i + 1) ts s2 = Some (r, s')" by blast
    moreover have "int (i + 1) + int m \<le> n" using Suc.prems(3) by simp
    ultimately have "ring_inv c s' \<and> nodeToReplicas s' = nodeToReplicas s2"
      using Suc.IH [OF s2 rep2] by blast
    then show ?thesis using f(2) s1(3) by simp
  qed
qed

lemma AddNode_inv:
  assumes ri: "ring_inv c s" and run: "AddNode c lv nodeID w s = Some (r, s')"
  shows "ring_inv c s'"
proof (cases "nodeToReplicas s nodeID")
  case (Some n)
  then have "nodeID \<in> dom (Nodes s)" by (simp add: Nodes_def dom_def)
  then have "s' = s" using run by (simp add: AddNode_def)
  then show ?thesis using ri by simp
next
  case None
  let ?n = "getValidWeight w * replicas (opts c)"
  let ?s1 = "AddNodeToReplica s nodeID ?n"
  have nd: "nodeID \<notin> dom (Nodes s)" using None by (simp add: Nodes_def dom_def)
  have loop: "AddNode_loop c lv nodeID (nat ?n) 0 [] ?s1 = Some (r, s')"
    using run nd by (simp add: AddNode_def Let_def)
  have r1: "ring_inv c ?s1" using AddNodeToReplica_ring_inv [OF ri None] .
  have rep: "nodeToReplicas ?s1 nodeID = Some ?n" by (simp add: AddNodeToReplica_def)
  show ?thesis
  proof (cases "0 \<le> ?n")
    case True
    then have "int 0 + int (nat ?n) \<le> ?n" by simp
    then show ?thesis using AddNode_loop_inv [OF r1 rep _ loop] by blast
  next
    case False
    then have "nat ?n = 0" by simp
    then have "s' = ?s1" using loop by simp
    then show ?thesis using r1 by simp
  qed
qed

lemma GetNode_inv:
  assumes ri: "ring_inv c s" and run: "GetNode c k s = Some (r, s')"
  shows "ring_inv c s'"
proof -
  have f: "heap s' = heap s" "nodeToReplicas s' = nodeToReplicas s" using GetNode_frame [OF run] by simp_all
  show ?thesis using ring_inv_cong [OF f] ri by simp
qed

lemma RemoveNode_step:
  assumes "RemoveNode_loop c nodeID (Suc m) i tasks s = Some (Inr ts, s')"
  shows "\<exists>mig s1 s2 ts1.
       migrateOut c (encryptor c (getRawNodeKey nodeID (int i))) nodeID s = Some (Inr mig, s1)
     \<and> Rem (encryptor c (getRawNodeKey nodeID (int i))) (getRawNodeKey nodeID (int i)) s1 = Some (None, s2)
     \<and> RemoveNode_loop c nodeID m (i + 1) ts1 s2 = Some (Inr ts, s')"
  using assms
  by (auto simp: Let_def getRawNodeKey_def split: Option.bind_splits option.splits sum.splits prod.splits)

text \<open>\<^verbatim>\<open>Rem\<close> returns no error only when the key was in the slot.\<close>

lemma Rem_success:
  assumes inv: "skiplist_inv s" and run: "Rem sc v s = Some (None, s')"
  shows "\<exists>ids. slot_map s sc = Some ids \<and> v \<in> set ids \<and> skiplist_inv s'
     \<and> slot_map s' = (if length ids > 1 then (slot_map s)(sc \<mapsto> remove1 v ids) else (slot_map s)(sc := None))
     \<and> nodeToReplicas s' = nodeToReplicas s"
proof (cases "slot_map s sc")
  case None
  then show ?thesis using Rem_spec_absent [OF inv None, of v] run by simp
next
  case (Some ids)
  show ?thesis
  proof (cases "v \<in> set ids")
    case False
    then show ?thesis using Rem_spec_missing [OF inv Some False] run by simp
  next
    case True
    obtain s2 where "Rem sc v s = Some (None, s2)" "skiplist_inv s2"
        "slot_map s2 = (if length ids > 1 then (slot_map s)(sc \<mapsto> remove1 v ids) else (slot_map s)(sc := None))"
        "nodeToReplicas s2 = nodeToReplicas s"
      using Rem_spec [OF inv Some True] by blast
    then show ?thesis using run Some True by simp
  qed
qed

text \<open>
  The loop of \<^verbatim>\<open>RemoveNode\<close>, entered after the node has left Node\<rightarrow>Replicas:
  every key on the ring is owned, or is one of the virtual nodes the loop has
  still to remove. If the loop returns no error, every key left is owned.
\<close>

lemma RemoveNode_loop_inv:
  "skiplist_inv s \<Longrightarrow>
   (\<forall>k ids v. slot_map s k = Some ids \<and> v \<in> set ids \<longrightarrow>
      (\<exists>N n j. nodeToReplicas s N = Some n \<and> 0 \<le> j \<and> j < n \<and> v = getRawNodeKey N j \<and> k = encryptor c v)
      \<or> (\<exists>j. int i \<le> j \<and> j < int i + int m \<and> v = getRawNodeKey nodeID j \<and> k = encryptor c v)) \<Longrightarrow>
   RemoveNode_loop c nodeID m i tasks s = Some (Inr ts, s') \<Longrightarrow>
   ring_inv c s' \<and> nodeToReplicas s' = nodeToReplicas s"
proof (induction m arbitrary: i tasks s)
  case 0
  have s': "s' = s" using "0.prems"(3) by simp
  have "ring_inv c s"
  proof (rule ring_invI [OF "0.prems"(1)])
    fix k ids v assume "slot_map s k = Some ids" "v \<in> set ids"
    then show "\<exists>nodeID n i. nodeToReplicas s nodeID = Some n \<and> 0 \<le> i \<and> i < n
          \<and> v = getRawNodeKey nodeID i \<and> k = encryptor c v"
      using "0.prems"(2) by fastforce
  qed
  then show ?case using s' by simp
next
  case (Suc m)
  let ?v = "getRawNodeKey nodeID (int i)"
  let ?sc = "encryptor c ?v"
  obtain mig s1 s2 ts1 where st: "migrateOut c ?sc nodeID s = Some (Inr mig, s1)"
      "Rem ?sc ?v s1 = Some (None, s2)"
      "RemoveNode_loop c nodeID m (i + 1) ts1 s2 = Some (Inr ts, s')"
    using RemoveNode_step [OF Suc.prems(3)] by blast
  have f: "heap s1 = heap s" "nodeToReplicas s1 = nodeToReplicas s" using migrateOut_frame [OF st(1)] by simp_all
  have inv1: "skiplist_inv s1" using skiplist_inv_cong [OF f(1)] Suc.prems(1) by simp
  have sm1: "slot_map s1 = slot_map s" using slot_map_cong [OF f(1)] .
  obtain ids0 where r: "slot_map s1 ?sc = Some ids0" "?v \<in> set ids0" "skiplist_inv s2"
      "slot_map s2 = (if length ids0 > 1 then (slot_map s1)(?sc \<mapsto> remove1 ?v ids0) else (slot_map s1)(?sc := None))"
      "nodeToReplicas s2 = nodeToReplicas s1"
    using Rem_success [OF inv1 st(2)] by blast
  have d0: "distinct ids0" using slot_ids [OF inv1 r(1)] by simp
  have q2: "\<forall>k ids v. slot_map s2 k = Some ids \<and> v \<in> set ids \<longrightarrow>
      (\<exists>N n j. nodeToReplicas s2 N = Some n \<and> 0 \<le> j \<and> j < n \<and> v = getRawNodeKey N j \<and> k = encryptor c v)
      \<or> (\<exists>j. int (i + 1) \<le> j \<and> j < int (i + 1) + int m \<and> v = getRawNodeKey nodeID j \<and> k = encryptor c v)"
  proof (intro allI impI)
    fix k ids v assume a: "slot_map s2 k = Some ids \<and> v \<in> set ids"
    have old: "(\<exists>ids1. slot_map s k = Some ids1 \<and> v \<in> set ids1) \<and> (k = ?sc \<longrightarrow> v \<noteq> ?v)"
    proof (cases "k = ?sc")
      case True
      show ?thesis
      proof (cases "length ids0 > 1")
        case l: True
        then have "ids = remove1 ?v ids0" using r(4) a True by simp
        then have "v \<in> set ids0 \<and> v \<noteq> ?v" using a d0 by auto
        then show ?thesis using r(1) sm1 True by auto
      next
        case False
        then have "slot_map s2 ?sc = None" using r(4) by simp
        then show ?thesis using a True by simp
      qed
    next
      case False
      then have "slot_map s2 k = slot_map s k" using r(4) sm1 by simp
      then have "slot_map s k = Some ids" using a by simp
      then show ?thesis using a False by blast
    qed
    then obtain ids1 where ids1: "slot_map s k = Some ids1" "v \<in> set ids1" by blast
    have "(\<exists>N n j. nodeToReplicas s N = Some n \<and> 0 \<le> j \<and> j < n \<and> v = getRawNodeKey N j \<and> k = encryptor c v)
      \<or> (\<exists>j. int i \<le> j \<and> j < int i + int (Suc m) \<and> v = getRawNodeKey nodeID j \<and> k = encryptor c v)"
      using Suc.prems(2) ids1 by blast
    then show "(\<exists>N n j. nodeToReplicas s2 N = Some n \<and> 0 \<le> j \<and> j < n \<and> v = getRawNodeKey N j \<and> k = encryptor c v)
      \<or> (\<exists>j. int (i + 1) \<le> j \<and> j < int (i + 1) + int m \<and> v = getRawNodeKey nodeID j \<and> k = encryptor c v)"
    proof
      assume "\<exists>N n j. nodeToReplicas s N = Some n \<and> 0 \<le> j \<and> j < n \<and> v = getRawNodeKey N j \<and> k = encryptor c v"
      then show ?thesis using r(5) f(2) by simp
    next
      assume "\<exists>j. int i \<le> j \<and> j < int i + int (Suc m) \<and> v = getRawNodeKey nodeID j \<and> k = encryptor c v"
      then obtain j where j: "int i \<le> j" "j < int i + int (Suc m)" "v = getRawNodeKey nodeID j" "k = encryptor c v"
        by blast
      have "j \<noteq> int i" using old j(3,4) by auto
      then have "int (i + 1) \<le> j \<and> j < int (i + 1) + int m" using j(1,2) by simp
      then show ?thesis using j(3,4) by blast
    qed
  qed
  have "ring_inv c s' \<and> nodeToReplicas s' = nodeToReplicas s2"
    using Suc.IH [OF r(3) q2 st(3)] .
  then show ?case using r(5) f(2) by simp
qed

lemma RemoveNode_inv:
  assumes ri: "ring_inv c s" and run: "RemoveNode c nodeID s = Some (Inr ts, s')"
  shows "ring_inv c s' \<and> nodeToReplicas s' = (nodeToReplicas s)(nodeID := None)"
proof (cases "nodeToReplicas s nodeID")
  case None
  then show ?thesis using run by (simp add: RemoveNode_def Nodes_def)
next
  case (Some n)
  let ?s0 = "DeleteNodeToReplica s nodeID"
  have loop: "RemoveNode_loop c nodeID (nat n) 0 [] ?s0 = Some (Inr ts, s')"
    using run Some by (simp add: RemoveNode_def Nodes_def)
  have h: "heap ?s0 = heap s" by (simp add: DeleteNodeToReplica_def)
  have inv0: "skiplist_inv ?s0" using skiplist_inv_cong [OF h] ring_invD(1) [OF ri] by simp
  have q: "\<forall>k ids v. slot_map ?s0 k = Some ids \<and> v \<in> set ids \<longrightarrow>
      (\<exists>N n j. nodeToReplicas ?s0 N = Some n \<and> 0 \<le> j \<and> j < n \<and> v = getRawNodeKey N j \<and> k = encryptor c v)
      \<or> (\<exists>j. int 0 \<le> j \<and> j < int 0 + int (nat n) \<and> v = getRawNodeKey nodeID j \<and> k = encryptor c v)"
  proof (intro allI impI)
    fix k ids v assume "slot_map ?s0 k = Some ids \<and> v \<in> set ids"
    then have "slot_map s k = Some ids" "v \<in> set ids" using slot_map_cong [OF h] by simp_all
    then obtain N m j where o: "nodeToReplicas s N = Some m" "0 \<le> j" "j < m"
        "v = getRawNodeKey N j" "k = encryptor c v"
      using ring_invD(2) [OF ri] by blast
    show "(\<exists>N n j. nodeToReplicas ?s0 N = Some n \<and> 0 \<le> j \<and> j < n \<and> v = getRawNodeKey N j \<and> k = encryptor c v)
      \<or> (\<exists>j. int 0 \<le> j \<and> j < int 0 + int (nat n) \<and> v = getRawNodeKey nodeID j \<and> k = encryptor c v)"
    proof (cases "N = nodeID")
      case True
      then have "m = n" using o(1) Some by simp
      then have "int 0 \<le> j \<and> j < int 0 + int (nat n)" using o(2,3) by simp
      then show ?thesis using o(4,5) True by blast
    next
      case False
      then have "nodeToReplicas ?s0 N = Some m" using o(1) by (simp add: DeleteNodeToReplica_def)
      then show ?thesis using o(2-5) by blast
    qed
  qed
  have "ring_inv c s' \<and> nodeToReplicas s' = nodeToReplicas ?s0"
    using RemoveNode_loop_inv [OF inv0 q loop] .
  then show ?thesis by (simp add: DeleteNodeToReplica_def)
qed

subsection \<open>The engine operations return\<close>

lemma Node_cases:
  assumes "skiplist_inv s"
  shows "(\<exists>e. Node s sc = Some (Inl e) \<and> slot_map s sc = None)
       \<or> (\<exists>ids. Node s sc = Some (Inr ids) \<and> slot_map s sc = Some ids)"
  using Node_spec [OF assms, of sc] by (cases "slot_map s sc") simp_all

lemma Floor_total: "skiplist_inv s \<Longrightarrow> \<exists>k. Floor s sc = Some k"
  using Floor_spec [of s sc] by simp

lemma Ceiling_total: "skiplist_inv s \<Longrightarrow> \<exists>k. Ceiling s sc = Some k"
  using Ceiling_spec [of s sc] by simp

lemma slot_decodes:
  assumes ri: "ring_inv c s" and sm: "slot_map s k = Some ids" and j: "j < length ids"
  shows "\<exists>nodeID. getNodeID (ids ! j) = Some nodeID"
proof -
  have "ids ! j \<in> set ids" using j by simp
  then obtain N n i where "ids ! j = getRawNodeKey N i" using ring_invD(2) [OF ri sm] by blast
  then show ?thesis using getNodeID_raw [of N i] by simp
qed

lemma migrateIn_total:
  assumes ri: "ring_inv c s"
  shows "\<exists>r s'. migrateIn c vs nodeID s = Some (r, s')"
proof (cases "migrator c")
  case False
  then show ?thesis using migrateIn_nil by blast
next
  case True
  have inv: "skiplist_inv s" using ring_invD(1) [OF ri] .
  obtain l where l: "Floor s (decrScore vs) = Some l" using Floor_total [OF inv] by blast
  obtain nx where nx: "Ceiling s (incrScore vs) = Some nx" using Ceiling_total [OF inv] by blast
  from Node_cases [OF inv, of vs] show ?thesis
  proof (elim disjE exE conjE)
    fix e assume "Node s vs = Some (Inl e)"
    then show ?thesis using True by (simp add: migrateIn_def)
  next
    fix ids assume n1: "Node s vs = Some (Inr ids)"
    from Node_cases [OF inv, of nx] show ?thesis
    proof (elim disjE exE conjE)
      fix e assume "Node s nx = Some (Inl e)"
      then show ?thesis using True n1 l nx by (simp add: migrateIn_def Let_def)
    next
      fix nn assume n2: "Node s nx = Some (Inr nn)" and sm: "slot_map s nx = Some nn"
      have "nn \<noteq> []" using slot_ids [OF inv sm] by simp
      then obtain N where "getNodeID (nn ! 0) = Some N" using slot_decodes [OF ri sm, of 0] by auto
      then show ?thesis using True n1 l nx n2 by (simp add: migrateIn_def Let_def)
    qed
  qed
qed

lemma AddNode_loop_total:
  "ring_inv c s \<Longrightarrow> nodeToReplicas s nodeID = Some n \<Longrightarrow> int i + int m \<le> n \<Longrightarrow>
   \<exists>r s'. AddNode_loop c lv nodeID m i tasks s = Some (r, s')"
proof (induction m arbitrary: i tasks s)
  case 0
  then show ?case by simp
next
  case (Suc m)
  let ?v = "getRawNodeKey nodeID (int i)"
  obtain s1 where a: "Add (lv i) (encryptor c ?v) ?v s = Some (None, s1)"
    using Add_spec [OF ring_invD(1) [OF Suc.prems(1)], of "lv i" "encryptor c ?v" ?v] by blast
  have b: "0 \<le> int i" "int i < n" using Suc.prems(3) by simp_all
  have s1: "ring_inv c s1" "nodeToReplicas s1 = nodeToReplicas s"
    using Add_ring_inv [OF Suc.prems(1,2) b a] by simp_all
  obtain r2 s2 where m: "migrateIn c (encryptor c ?v) nodeID s1 = Some (r2, s2)"
    using migrateIn_total [OF s1(1)] by blast
  have f: "heap s2 = heap s1" "nodeToReplicas s2 = nodeToReplicas s1" using migrateIn_frame [OF m] by simp_all
  have s2: "ring_inv c s2" using ring_inv_cong [OF f] s1(1) by simp
  have rep2: "nodeToReplicas s2 nodeID = Some n" using f(2) s1(2) Suc.prems(2) by simp
  have bound: "int (i + 1) + int m \<le> n" using Suc.prems(3) by simp
  show ?case
  proof (cases r2)
    case (Inl err)
    then show ?thesis using a m by (simp add: Let_def)
  next
    case (Inr mig)
    obtain f t d where mig: "mig = (f, t, d)" by (cases mig)
    obtain r s' where "AddNode_loop c lv nodeID m (i + 1) (if d = {} then tasks else tasks @ [(f, t, d)]) s2 = Some (r, s')"
      using Suc.IH [OF s2 rep2 bound] by blast
    then show ?thesis using a m Inr mig by (simp add: Let_def)
  qed
qed

lemma AddNode_total:
  assumes ri: "ring_inv c s"
  shows "\<exists>r s'. AddNode c lv nodeID w s = Some (r, s')"
proof (cases "nodeToReplicas s nodeID")
  case (Some n)
  then have "nodeID \<in> dom (Nodes s)" by (simp add: Nodes_def dom_def)
  then show ?thesis by (simp add: AddNode_def)
next
  case None
  let ?n = "getValidWeight w * replicas (opts c)"
  let ?s1 = "AddNodeToReplica s nodeID ?n"
  have nd: "nodeID \<notin> dom (Nodes s)" using None by (simp add: Nodes_def dom_def)
  have run: "AddNode c lv nodeID w s = AddNode_loop c lv nodeID (nat ?n) 0 [] ?s1"
    using nd by (simp add: AddNode_def Let_def)
  have r1: "ring_inv c ?s1" using AddNodeToReplica_ring_inv [OF ri None] .
  have rep: "nodeToReplicas ?s1 nodeID = Some ?n" by (simp add: AddNodeToReplica_def)
  show ?thesis
  proof (cases "0 \<le> ?n")
    case True
    then have "int 0 + int (nat ?n) \<le> ?n" by simp
    then show ?thesis using AddNode_loop_total [OF r1 rep] run by simp
  next
    case False
    then have "nat ?n = 0" by simp
    then show ?thesis using run by simp
  qed
qed

lemma GetNode_total:
  assumes ri: "ring_inv c s"
  shows "\<exists>r s'. GetNode c k s = Some (r, s')"
proof -
  have inv: "skiplist_inv s" using ring_invD(1) [OF ri] .
  obtain cs where cs: "Ceiling s (encryptor c k) = Some cs" using Ceiling_total [OF inv] by blast
  from Node_cases [OF inv, of cs] show ?thesis
  proof (elim disjE exE conjE)
    fix e assume "Node s cs = Some (Inl e)"
    then show ?thesis using cs by (simp add: GetNode_def)
  next
    fix ids assume n: "Node s cs = Some (Inr ids)" and sm: "slot_map s cs = Some ids"
    have "ids \<noteq> []" using slot_ids [OF inv sm] by simp
    then obtain N where "getNodeID (ids ! 0) = Some N" using slot_decodes [OF ri sm, of 0] by auto
    then show ?thesis using cs n by (simp add: GetNode_def)
  qed
qed

text \<open>
  \<^verbatim>\<open>getValidNextNode\<close> returns: each recursive call adds the score it came from
  to \<open>ranged\<close> and moves to a slot score outside \<open>ranged\<close>, and the ring has
  finitely many slot scores.
\<close>

lemma getValidNextNode_total:
  assumes inv: "skiplist_inv s"
    and dec: "\<forall>k ids v. slot_map s k = Some ids \<and> v \<in> set ids \<longrightarrow> getNodeID v \<noteq> None"
  shows "\<exists>r. getValidNextNode s sc nodeID ranged = Some r"
proof (induction "2 * card (slot_scores s - ranged) + (if sc \<in> slot_scores s - ranged then 0 else 1)"
    arbitrary: sc ranged rule: less_induct)
  case less
  obtain nx where nx: "Ceiling s (incrScore sc) = Some nx" using Ceiling_total [OF inv] by blast
  show ?case
  proof (cases "nx = - 1 \<or> nx \<in> ranged")
    case True
    then show ?thesis using nx by (subst getValidNextNode.simps) auto
  next
    case False
    from Node_cases [OF inv, of nx] show ?thesis
    proof (elim disjE exE conjE)
      fix e assume "Node s nx = Some (Inl e)"
      then show ?thesis using nx False by (subst getValidNextNode.simps) auto
    next
      fix nn assume n: "Node s nx = Some (Inr nn)" and sm: "slot_map s nx = Some nn"
      have ne: "nn \<noteq> []" using slot_ids [OF inv sm] by simp
      then have "nn ! 0 \<in> set nn" by simp
      then obtain N0 where g0: "getNodeID (nn ! 0) = Some N0" using dec sm by blast
      show ?thesis
      proof (cases "N0 \<noteq> nodeID")
        case True
        then show ?thesis using nx False n ne g0 by (subst getValidNextNode.simps) auto
      next
        case same: False
        show ?thesis
        proof (cases "length nn > 1")
          case True
          then have "nn ! 1 \<in> set nn" by simp
          then obtain N1 where "getNodeID (nn ! 1) = Some N1" using dec sm by blast
          then show ?thesis using nx False n ne g0 same True by (subst getValidNextNode.simps) auto
        next
          case one: False
          have fin: "finite (slot_scores s - ranged)" using finite_slot_scores by simp
          have nxm: "nx \<in> slot_scores s - ranged" using sm False by (auto simp: slot_scores_dom)
          have "2 * card (slot_scores s - insert sc ranged)
                + (if nx \<in> slot_scores s - insert sc ranged then 0 else 1)
              < 2 * card (slot_scores s - ranged) + (if sc \<in> slot_scores s - ranged then 0 else 1)"
          proof (cases "sc \<in> slot_scores s - ranged")
            case True
            have "slot_scores s - insert sc ranged = (slot_scores s - ranged) - {sc}" by auto
            then have "card (slot_scores s - insert sc ranged) = card (slot_scores s - ranged) - 1"
              using True fin by simp
            moreover have "0 < card (slot_scores s - ranged)" using True fin card_gt_0_iff by blast
            ultimately have "2 * card (slot_scores s - insert sc ranged) + 1 < 2 * card (slot_scores s - ranged)"
              by arith
            then show ?thesis using True by (simp split: if_splits)
          next
            case out: False
            then have "slot_scores s - insert sc ranged = slot_scores s - ranged" by auto
            moreover have "nx \<noteq> sc" using nxm out by auto
            ultimately show ?thesis using out nxm by simp
          qed
          then obtain r where "getValidNextNode s nx nodeID (insert sc ranged) = Some r"
            using less by blast
          then show ?thesis using nx False n ne g0 same one by (subst getValidNextNode.simps) auto
        qed
      qed
    qed
  qed
qed

lemma migrateOut_deferred_total: "\<exists>r s'. migrateOut_deferred nodeID s e m = Some (r, s')"
  by (cases e; cases m) (auto simp: migrateOut_deferred_def Let_def)

lemma migrateOut_total:
  assumes inv: "skiplist_inv s"
    and dec: "\<forall>k ids v. slot_map s k = Some ids \<and> v \<in> set ids \<longrightarrow> getNodeID v \<noteq> None"
  shows "\<exists>r s'. migrateOut c vs nodeID s = Some (r, s')"
proof (cases "migrator c")
  case False
  then show ?thesis using migrateOut_nil by blast
next
  case True
  obtain l where l: "Floor s (decrScore vs) = Some l" using Floor_total [OF inv] by blast
  obtain g where g: "getValidNextNode s vs nodeID {} = Some g"
    using getValidNextNode_total [OF inv dec] by blast
  note d = migrateOut_deferred_total [of nodeID s]
  from Node_cases [OF inv, of vs] show ?thesis
  proof (elim disjE exE conjE)
    fix e assume "Node s vs = Some (Inl e)"
    then show ?thesis using True d by (simp add: migrateOut_def)
  next
    fix ids assume n: "Node s vs = Some (Inr ids)" and sm: "slot_map s vs = Some ids"
    have ne: "ids \<noteq> []" using slot_ids [OF inv sm] by simp
    then have "ids ! 0 \<in> set ids" by simp
    then obtain N0 where g0: "getNodeID (ids ! 0) = Some N0" using dec sm by blast
    have g1: "length ids > 1 \<Longrightarrow> \<exists>N1. getNodeID (ids ! 1) = Some N1"
    proof -
      assume "length ids > 1"
      then have "ids ! 1 \<in> set ids" by simp
      then show ?thesis using dec sm by blast
    qed
    show ?thesis
    proof (cases "length ids > 1")
      case True
      then obtain N1 where "getNodeID (ids ! 1) = Some N1" using g1 by blast
      then show ?thesis using True \<open>migrator c\<close> n ne g0 l d
        by (simp add: migrateOut_def Let_def)
    next
      case False
      then show ?thesis using \<open>migrator c\<close> n ne g0 l g d
        by (cases g) (simp_all add: migrateOut_def Let_def)
    qed
  qed
qed

lemma Rem_total:
  assumes inv: "skiplist_inv s"
  shows "\<exists>e s'. Rem sc v s = Some (e, s') \<and> skiplist_inv s'
     \<and> (\<forall>k ids x. slot_map s' k = Some ids \<and> x \<in> set ids \<longrightarrow> (\<exists>ids0. slot_map s k = Some ids0 \<and> x \<in> set ids0))"
proof (cases "slot_map s sc")
  case None
  then show ?thesis using Rem_spec_absent [OF inv None, of v] inv by auto
next
  case (Some ids)
  show ?thesis
  proof (cases "v \<in> set ids")
    case False
    then show ?thesis using Rem_spec_missing [OF inv Some False] inv by auto
  next
    case True
    obtain s2 where s2: "Rem sc v s = Some (None, s2)" "skiplist_inv s2"
        "slot_map s2 = (if length ids > 1 then (slot_map s)(sc \<mapsto> remove1 v ids) else (slot_map s)(sc := None))"
      using Rem_spec [OF inv Some True] by blast
    have "\<forall>k ids' x. slot_map s2 k = Some ids' \<and> x \<in> set ids' \<longrightarrow> (\<exists>ids0. slot_map s k = Some ids0 \<and> x \<in> set ids0)"
    proof (intro allI impI)
      fix k ids' x assume a: "slot_map s2 k = Some ids' \<and> x \<in> set ids'"
      show "\<exists>ids0. slot_map s k = Some ids0 \<and> x \<in> set ids0"
      proof (cases "k = sc")
        case True
        then have "length ids > 1 \<and> ids' = remove1 v ids" using a s2(3) by (auto split: if_splits)
        then have "x \<in> set ids" using a notin_set_remove1 by fastforce
        then show ?thesis using Some True by blast
      next
        case False
        then have "slot_map s k = Some ids'" using a s2(3) by (auto split: if_splits)
        then show ?thesis using a by blast
      qed
    qed
    then show ?thesis using s2(1,2) by blast
  qed
qed

lemma RemoveNode_loop_total:
  "skiplist_inv s \<Longrightarrow>
   (\<forall>k ids v. slot_map s k = Some ids \<and> v \<in> set ids \<longrightarrow> getNodeID v \<noteq> None) \<Longrightarrow>
   \<exists>r s'. RemoveNode_loop c nodeID m i tasks s = Some (r, s')"
proof (induction m arbitrary: i tasks s)
  case 0
  then show ?case by simp
next
  case (Suc m)
  let ?v = "getRawNodeKey nodeID (int i)"
  let ?sc = "encryptor c ?v"
  obtain r1 s1 where mo: "migrateOut c ?sc nodeID s = Some (r1, s1)"
    using migrateOut_total [OF Suc.prems] by blast
  have f: "heap s1 = heap s" using migrateOut_frame [OF mo] by simp
  have inv1: "skiplist_inv s1" using skiplist_inv_cong [OF f] Suc.prems(1) by simp
  have sm1: "slot_map s1 = slot_map s" using slot_map_cong [OF f] .
  obtain e s2 where rm: "Rem ?sc ?v s1 = Some (e, s2)" "skiplist_inv s2"
      "\<forall>k ids x. slot_map s2 k = Some ids \<and> x \<in> set ids \<longrightarrow> (\<exists>ids0. slot_map s1 k = Some ids0 \<and> x \<in> set ids0)"
    using Rem_total [OF inv1, of ?sc ?v] by blast
  have dec2: "\<forall>k ids v. slot_map s2 k = Some ids \<and> v \<in> set ids \<longrightarrow> getNodeID v \<noteq> None"
    using rm(3) sm1 Suc.prems(2) by metis
  have vs: "nodeID @ ''_'' @ itoa (int i) = ?v" by (simp add: getRawNodeKey_def)
  show ?case
  proof (cases r1)
    case (Inl err)
    then show ?thesis using mo unfolding RemoveNode_loop.simps vs by (simp add: Let_def)
  next
    case (Inr mig)
    obtain f t d where mig: "mig = (f, t, d)" by (cases mig)
    show ?thesis
    proof (cases e)
      case (Some err)
      then show ?thesis using mo Inr mig rm(1) unfolding RemoveNode_loop.simps vs by (simp add: Let_def)
    next
      case None
      obtain r s' where "RemoveNode_loop c nodeID m (i + 1) (if d = {} then tasks else tasks @ [(f, t, d)]) s2 = Some (r, s')"
        using Suc.IH [OF rm(2) dec2] by blast
      then show ?thesis using mo Inr mig rm(1) None unfolding RemoveNode_loop.simps vs by (simp add: Let_def)
    qed
  qed
qed

lemma RemoveNode_total:
  assumes ri: "ring_inv c s"
  shows "\<exists>r s'. RemoveNode c nodeID s = Some (r, s')"
proof (cases "nodeToReplicas s nodeID")
  case None
  then show ?thesis by (simp add: RemoveNode_def Nodes_def)
next
  case (Some n)
  let ?s0 = "DeleteNodeToReplica s nodeID"
  have h: "heap ?s0 = heap s" by (simp add: DeleteNodeToReplica_def)
  have inv0: "skiplist_inv ?s0" using skiplist_inv_cong [OF h] ring_invD(1) [OF ri] by simp
  have dec: "\<forall>k ids v. slot_map ?s0 k = Some ids \<and> v \<in> set ids \<longrightarrow> getNodeID v \<noteq> None"
  proof (intro allI impI)
    fix k ids v assume "slot_map ?s0 k = Some ids \<and> v \<in> set ids"
    then have "slot_map s k = Some ids" "v \<in> set ids" using slot_map_cong [OF h] by simp_all
    then obtain N m j where "v = getRawNodeKey N j" using ring_invD(2) [OF ri] by blast
    then show "getNodeID v \<noteq> None" using getNodeID_raw [of N j] by simp
  qed
  show ?thesis using RemoveNode_loop_total [OF inv0 dec, of c nodeID "nat n" 0 "[]"] Some
    by (simp add: RemoveNode_def Nodes_def)
qed

lemma failed_remove_A:
  "GetNode c_wrap ''d'' ring_A = Some (Inr ''A_0'', ring_Ad)"
  "RemoveNode c_wrap ''A'' ring_Ad = Some (Inl ''no other no'', ring_Ad_failed)"
  by (simp_all add: run_simps ring_simps c_wrap_simps enc_wrap_simps)

text \<open>
  C2 (counterexample). The claim has the invariant hold after every completed
  operation, those that return an error included. On the ring with the one node
  \<open>A\<close>, holding the data key \<open>d\<close>, the invariant holds; \<^verbatim>\<open>RemoveNode("A")\<close>
  deletes \<open>A\<close> from Node\<rightarrow>Replicas, then fails in \<^verbatim>\<open>migrateOut\<close> and returns the
  error with the slot \<open>10\<close> still holding \<open>A_0\<close>, which decodes to \<open>A\<close>: the
  invariant does not hold after this completed operation.
\<close>

theorem C2_failed_RemoveNode_counterexample:
  "AddNode c_wrap (level_const 1) ''A'' 1 NewSkiplistHashRing = Some (Inr [], ring_A)
   \<and> GetNode c_wrap ''d'' ring_A = Some (Inr ''A_0'', ring_Ad)
   \<and> vkeys_decode ring_Ad
   \<and> RemoveNode c_wrap ''A'' ring_Ad = Some (Inl ''no other no'', ring_Ad_failed)
   \<and> slots ring_Ad_failed = [(10, [''A_0''])] \<and> getNodeID ''A_0'' = Some ''A''
   \<and> nodeToReplicas ring_Ad_failed ''A'' = None
   \<and> \<not> vkeys_decode ring_Ad_failed"
proof -
  have 1: "vkeys_decode ring_Ad" by code_simp
  have 2: "slots ring_Ad_failed = [(10, [''A_0''])]" by code_simp
  have 3: "getNodeID ''A_0'' = Some ''A''" using getNodeID_0 [of "''A''"] by simp
  have 4: "nodeToReplicas ring_Ad_failed ''A'' = None" by (simp add: ring_simps)
  have 5: "\<not> vkeys_decode ring_Ad_failed" using 2 3 4 by (simp add: vkeys_decode_def)
  show ?thesis using step_A [of c_wrap] failed_remove_A 1 2 3 4 5
    by (simp add: c_wrap_simps enc_wrap_simps)
qed

text \<open>
  C2 (amended). The ring invariant \<open>ring_inv\<close>: the skiplist is well formed and
  every key in a slot is a virtual-node key \<open>N_i\<close> of a node \<open>N\<close> of
  Node\<rightarrow>Replicas, with \<open>i\<close> below the replica count of \<open>N\<close>, in the slot of its
  hash. It holds of the new ring, and on a ring where it holds every key in a
  slot decodes to a node of Node\<rightarrow>Replicas. From such a ring \<^verbatim>\<open>AddNode\<close> and
  \<^verbatim>\<open>GetNode\<close> return, with an error or without, and the invariant holds after
  them; \<^verbatim>\<open>RemoveNode\<close> returns, and the invariant holds after it when it returns
  no error, and when the node is unknown, where it returns "invalid node id"
  and leaves the ring as it was. After a \<^verbatim>\<open>RemoveNode\<close> of a known node that
  returns an error nothing is stated.
\<close>

theorem C2_vkeys_decode_invariant:
  assumes "ring_inv c s"
  shows "ring_inv c NewSkiplistHashRing
     \<and> vkeys_decode s
     \<and> (\<exists>r s'. AddNode c lv nodeID w s = Some (r, s') \<and> ring_inv c s' \<and> vkeys_decode s')
     \<and> (\<exists>r s'. GetNode c dataKey s = Some (r, s') \<and> ring_inv c s' \<and> vkeys_decode s')
     \<and> (\<exists>r s'. RemoveNode c leaving s = Some (r, s')
           \<and> (nodeToReplicas s leaving = None \<longrightarrow> r = Inl ''invalid node id'' \<and> s' = s)
           \<and> (\<forall>tasks. r = Inr tasks \<longrightarrow>
                 ring_inv c s' \<and> vkeys_decode s'
                 \<and> nodeToReplicas s' = (nodeToReplicas s)(leaving := None)))"
proof (intro conjI)
  show "ring_inv c NewSkiplistHashRing" by (rule ring_inv_new)
  show "vkeys_decode s" using assms by (rule owned_decode)
  show "\<exists>r s'. AddNode c lv nodeID w s = Some (r, s') \<and> ring_inv c s' \<and> vkeys_decode s'"
  proof -
    obtain r s' where a: "AddNode c lv nodeID w s = Some (r, s')" using AddNode_total [OF assms] by blast
    have "ring_inv c s'" using AddNode_inv [OF assms a] .
    then show ?thesis using a owned_decode by blast
  qed
  show "\<exists>r s'. GetNode c dataKey s = Some (r, s') \<and> ring_inv c s' \<and> vkeys_decode s'"
  proof -
    obtain r s' where a: "GetNode c dataKey s = Some (r, s')" using GetNode_total [OF assms] by blast
    have "ring_inv c s'" using GetNode_inv [OF assms a] .
    then show ?thesis using a owned_decode by blast
  qed
  show "\<exists>r s'. RemoveNode c leaving s = Some (r, s')
           \<and> (nodeToReplicas s leaving = None \<longrightarrow> r = Inl ''invalid node id'' \<and> s' = s)
           \<and> (\<forall>tasks. r = Inr tasks \<longrightarrow>
                 ring_inv c s' \<and> vkeys_decode s'
                 \<and> nodeToReplicas s' = (nodeToReplicas s)(leaving := None))"
  proof -
    obtain r s' where a: "RemoveNode c leaving s = Some (r, s')" using RemoveNode_total [OF assms] by blast
    have b: "nodeToReplicas s leaving = None \<longrightarrow> r = Inl ''invalid node id'' \<and> s' = s"
      using a by (auto simp: RemoveNode_def Nodes_def)
    have d: "\<forall>tasks. r = Inr tasks \<longrightarrow>
                 ring_inv c s' \<and> vkeys_decode s'
                 \<and> nodeToReplicas s' = (nodeToReplicas s)(leaving := None)"
    proof (intro allI impI)
      fix tasks assume "r = Inr tasks"
      then have "RemoveNode c leaving s = Some (Inr tasks, s')" using a by simp
      then have "ring_inv c s' \<and> nodeToReplicas s' = (nodeToReplicas s)(leaving := None)"
        using RemoveNode_inv [OF assms] by blast
      then show "ring_inv c s' \<and> vkeys_decode s'
                 \<and> nodeToReplicas s' = (nodeToReplicas s)(leaving := None)"
        using owned_decode by blast
    qed
    show ?thesis by (rule exI [of _ r], rule exI [of _ s'], intro conjI a b d)
  qed
qed

lemma remove_A_of_two:
  "\<exists>s'. RemoveNode c_wrap ''A'' ring_d = Some (Inr [(''A'', ''B'', {''d''})], s')"
proof -
  have a: "in_arc True False (- 10) 10 5 = True"
    by (simp add: in_arc_def wrap32_def MaxInt32_def)
  show ?thesis by (simp add: run_simps ring_simps c_wrap_simps enc_wrap_simps a)
qed

theorem C2_vkeys_decode_invariant_witness:
  "ring_inv c_wrap ring_d
   \<and> vkeys_decode ring_d
   \<and> (\<exists>r s'. AddNode c_wrap (level_const 2) ''X'' 1 ring_d = Some (r, s') \<and> ring_inv c_wrap s' \<and> vkeys_decode s')
   \<and> (\<exists>r s'. GetNode c_wrap ''d'' ring_d = Some (r, s') \<and> ring_inv c_wrap s' \<and> vkeys_decode s')
   \<and> (\<exists>s'. RemoveNode c_wrap ''A'' ring_d = Some (Inr [(''A'', ''B'', {''d''})], s')
         \<and> ring_inv c_wrap s' \<and> vkeys_decode s' \<and> nodeToReplicas s' = [''B'' \<mapsto> 1])"
proof -
  have i: "skiplist_inv ring_d" by code_simp
  have o: "vkeys_owned c_wrap ring_d" by code_simp
  have ri: "ring_inv c_wrap ring_d" using i o by (simp add: ring_inv_def)
  note t = C2_vkeys_decode_invariant [OF ri, of "level_const 2" "''X''" 1 "''d''" "''A''"]
  obtain s1 where r1: "RemoveNode c_wrap ''A'' ring_d = Some (Inr [(''A'', ''B'', {''d''})], s1)"
    using remove_A_of_two by blast
  obtain r s' where r2: "RemoveNode c_wrap ''A'' ring_d = Some (r, s')"
      "\<forall>tasks. r = Inr tasks \<longrightarrow>
                 ring_inv c_wrap s' \<and> vkeys_decode s'
                 \<and> nodeToReplicas s' = (nodeToReplicas ring_d)(''A'' := None)"
    using t by blast
  have "r = Inr [(''A'', ''B'', {''d''})]" "s' = s1" using r1 r2(1) by simp_all
  then have "ring_inv c_wrap s1 \<and> vkeys_decode s1 \<and> nodeToReplicas s1 = (nodeToReplicas ring_d)(''A'' := None)"
    using r2(2) by blast
  moreover have "(nodeToReplicas ring_d)(''A'' := None) = [''B'' \<mapsto> 1]"
    by (rule ext) (simp add: ring_simps)
  ultimately have rem: "\<exists>s'. RemoveNode c_wrap ''A'' ring_d = Some (Inr [(''A'', ''B'', {''d''})], s')
         \<and> ring_inv c_wrap s' \<and> vkeys_decode s' \<and> nodeToReplicas s' = [''B'' \<mapsto> 1]"
    using r1 by auto
  show ?thesis using ri t rem by blast
qed

end
